(* ===== verification/Go_Prelude.thy ===== *)
theory Go_Prelude
  imports
    Main
    "HOL-Library.Word"
    "HOL-Library.Finite_Map"
    "HOL-Library.List_Lexorder"
    "HOL-Library.Char_ord"
    "HOL-Library.Multiset"
    "HOL-Library.Monad_Syntax"
begin

text \<open>
  What the components share: the Go values the sources are written with, and the lemmas the
  component proofs rest on.

  \<^item> Go's \<open>uint64\<close> is \<open>64 word\<close>; \<open>int64\<close> timestamps, which the program only compares, are
    \<open>int\<close> (the hybrid clock, which computes with them, writes the wrap-around out).
    Counters that only count the program's own events (log indices, terms, sequence numbers) are
    \<open>nat\<close>.
  \<^item> A Go string is a list of bytes, compared bytewise: \<open>string\<close> with the lexicographic order of
    \<open>List_Lexorder\<close> over \<open>Char_ord\<close>.
  \<^item> A Go map is a finite map \<open>('k, 'v) fmap\<close>. Reading an absent key gives the zero value
    (\<open>zget\<close>). A \<open>for k, v := range m\<close> loop visits the entries in an order the language leaves
    open: \<open>go_range\<close> visits them in key order, and the locale \<open>commuting_body\<close> shows that for the
    loop bodies of the program every other order gives the same result.
  \<^item> \<open>sort.Search\<close> is its binary search, with the theorem that it finds the least index of a
    monotone predicate; \<open>sort.Strings\<close> is \<open>sort\<close>.
  \<^item> An operation that can panic on a slice index returns an \<open>option\<close>, \<open>None\<close> for the panic; the
    component theorems show that it is not reached.
\<close>

named_theorems go_simps \<open>characteristic equations of the Go primitives\<close>
named_theorems lookup_simps \<open>what an operation does to each slot of a map\<close>

type_synonym u64 = "64 word"
type_synonym node_id = string

text \<open>A byte slice: \<open>None\<close> is the nil slice, which the code tells from an empty one.\<close>

type_synonym bytes = "string option"

section \<open>Signed integers\<close>

text \<open>An \<open>int64\<close> result: the integer reduced to 64 signed bits.\<close>

definition i64 :: "int \<Rightarrow> int" where
  "i64 x = (x + 2 ^ 63) mod 2 ^ 64 - 2 ^ 63"

lemma i64_id: "- (2 ^ 63) \<le> x \<Longrightarrow> x < 2 ^ 63 \<Longrightarrow> i64 x = x"
  by (simp add: i64_def)

lemma i64_range: "- (2 ^ 63) \<le> i64 x" "i64 x < 2 ^ 63"
  by (simp_all add: i64_def)

lemma i64_add: "i64 (i64 x + y) = i64 (x + y)" "i64 (x + i64 y) = i64 (x + y)"
  by (simp_all add: i64_def algebra_simps mod_simps)

lemma i64_diff: "i64 (i64 x - y) = i64 (x - y)" "i64 (x - i64 y) = i64 (x - y)"
proof -
  show "i64 (i64 x - y) = i64 (x - y)"
    by (simp add: i64_def algebra_simps mod_simps)
  have "(x - ((y + 2 ^ 63) mod 2 ^ 64 - 2 ^ 63) + 2 ^ 63) mod 2 ^ 64 = (x - y + 2 ^ 63) mod (2 ^ 64 :: int)"
    by (simp add: algebra_simps mod_simps)
  then show "i64 (x - i64 y) = i64 (x - y)" by (simp add: i64_def)
qed

section \<open>Maps\<close>

text \<open>\<open>m[k]\<close> of a map with integer values: the zero value when the key is absent.\<close>

definition zget :: "('k, 'v::zero) fmap \<Rightarrow> 'k \<Rightarrow> 'v" where
  "zget m k = (case fmlookup m k of None \<Rightarrow> 0 | Some v \<Rightarrow> v)"

text \<open>\<open>m[k]\<close> of a map with boolean values (the program's sets).\<close>

definition bget :: "('k, bool) fmap \<Rightarrow> 'k \<Rightarrow> bool" where
  "bget m k = (fmlookup m k = Some True)"

text \<open>\<open>len(m)\<close>.\<close>

definition go_len :: "('k, 'v) fmap \<Rightarrow> nat" where
  "go_len m = fcard (fmdom m)"

text \<open>\<open>for k, v := range m { s = f(k, v, s) }\<close>, and the two search loops that leave on the first hit.\<close>

definition go_range :: "('k::linorder \<Rightarrow> 'v \<Rightarrow> 's \<Rightarrow> 's) \<Rightarrow> ('k, 'v) fmap \<Rightarrow> 's \<Rightarrow> 's" where
  "go_range f m s = fold (\<lambda>(k, v). f k v) (sorted_list_of_fmap m) s"

definition go_any :: "('k::linorder \<Rightarrow> 'v \<Rightarrow> bool) \<Rightarrow> ('k, 'v) fmap \<Rightarrow> bool" where
  "go_any P m = list_ex (\<lambda>(k, v). P k v) (sorted_list_of_fmap m)"

definition go_all :: "('k::linorder \<Rightarrow> 'v \<Rightarrow> bool) \<Rightarrow> ('k, 'v) fmap \<Rightarrow> bool" where
  "go_all P m = list_all (\<lambda>(k, v). P k v) (sorted_list_of_fmap m)"

text \<open>The keys of a map, sorted: a range loop collecting keys followed by \<open>sort.Strings\<close>.\<close>

definition go_keys :: "('k::linorder, 'v) fmap \<Rightarrow> 'k list" where
  "go_keys m = map fst (sorted_list_of_fmap m)"

lemma zget_empty [simp]: "zget fmempty k = 0"
  by (simp add: zget_def)

lemma zget_fmupd [simp]: "zget (fmupd k v m) k' = (if k = k' then v else zget m k')"
  by (simp add: zget_def)

lemma zget_Some [simp]: "fmlookup m k = Some v \<Longrightarrow> zget m k = v"
  by (simp add: zget_def)

lemma zget_None [simp]: "fmlookup m k = None \<Longrightarrow> zget m k = 0"
  by (simp add: zget_def)

lemma bget_empty [simp]: "\<not> bget fmempty k"
  by (simp add: bget_def)

lemma bget_fmupd [simp]: "bget (fmupd k v m) k' = (if k = k' then v else bget m k')"
  by (simp add: bget_def)

lemma set_sorted_list_of_fmap [simp]:
  "set (sorted_list_of_fmap m) = {(k, v). fmlookup m k = Some v}"
  by (auto simp: sorted_list_of_fmap_def image_iff fmlookup_dom_iff sorted_list_of_fset_simps)

lemma map_fst_sorted_list_of_fmap: "map fst (sorted_list_of_fmap m) = sorted_list_of_fset (fmdom m)"
  by (simp add: sorted_list_of_fmap_def comp_def)

lemma distinct_sorted_list_of_fmap [simp]: "distinct (map fst (sorted_list_of_fmap m))"
  by (simp add: map_fst_sorted_list_of_fmap sorted_list_of_fset.rep_eq)

lemma go_any_iff [go_simps]: "go_any P m \<longleftrightarrow> (\<exists>k v. fmlookup m k = Some v \<and> P k v)"
  by (auto simp: go_any_def list_ex_iff)

lemma go_all_iff [go_simps]: "go_all P m \<longleftrightarrow> (\<forall>k v. fmlookup m k = Some v \<longrightarrow> P k v)"
  by (auto simp: go_all_def list_all_iff)

lemma set_go_keys [simp]: "set (go_keys m) = fmdom' m"
  by (force simp: go_keys_def fmlookup_dom'_iff)

lemma sorted_go_keys [simp]: "sorted (go_keys m)"
  by (simp add: go_keys_def map_fst_sorted_list_of_fmap sorted_list_of_fset.rep_eq)

lemma distinct_go_keys [simp]: "distinct (go_keys m)"
  by (simp add: go_keys_def)

lemma length_go_keys [simp]: "length (go_keys m) = go_len m"
  by (metis distinct_card distinct_go_keys fcard.rep_eq fmdom'_alt_def go_len_def set_go_keys)

lemma go_len_0 [simp]: "go_len m = 0 \<longleftrightarrow> m = fmempty"
  unfolding go_len_def fcard_0_eq
  by (metis fempty_iff fmap_ext fmdom_empty fmdom_notD)

lemma go_range_empty [simp]: "go_range f fmempty s = s"
  by (simp add: go_range_def sorted_list_of_fmap_def sorted_list_of_fset.rep_eq)

lemma go_range_inv:
  assumes "P s" and "\<And>k v s. fmlookup m k = Some v \<Longrightarrow> P s \<Longrightarrow> P (f k v s)"
  shows "P (go_range f m s)"
proof -
  have "P (fold (\<lambda>(k, v). f k v) xs s)" if "set xs \<subseteq> {(k, v). fmlookup m k = Some v}" for xs
    using that assms(1)
  proof (induction xs arbitrary: s)
    case (Cons x xs)
    then show ?case using assms(2) by (cases x) auto
  qed simp
  then show ?thesis by (simp add: go_range_def)
qed

subsection \<open>Loops whose bodies commute\<close>

text \<open>
  A range loop over a map may run in any order. A body that commutes with itself on different keys
  gives the same result in every order, so the key order of \<open>go_range\<close> loses nothing.
\<close>

locale commuting_body =
  fixes f :: "'k::linorder \<Rightarrow> 'v \<Rightarrow> 's \<Rightarrow> 's"
  assumes body_commute: "k \<noteq> k' \<Longrightarrow> f k v (f k' v' s) = f k' v' (f k v s)"
begin

lemma any_order:
  assumes "mset xs = mset (sorted_list_of_fmap m)"
  shows "fold (\<lambda>(k, v). f k v) xs s = go_range f m s"
proof -
  have "fold (\<lambda>(k, v). f k v) xs = fold (\<lambda>(k, v). f k v) (sorted_list_of_fmap m)"
  proof (rule fold_multiset_equiv [OF _ assms])
    fix x y
    assume "x \<in> set xs" and "y \<in> set xs"
    moreover have "set xs = set (sorted_list_of_fmap m)"
      using assms by (rule mset_eq_setD)
    ultimately have "fmlookup m (fst x) = Some (snd x)" "fmlookup m (fst y) = Some (snd y)"
      by auto
    then show "(\<lambda>(k, v). f k v) x \<circ> (\<lambda>(k, v). f k v) y = (\<lambda>(k, v). f k v) y \<circ> (\<lambda>(k, v). f k v) x"
      by (cases "fst x = fst y") (auto simp: fun_eq_iff split_beta body_commute)
  qed
  then show ?thesis by (simp add: go_range_def)
qed

end

text \<open>
  The common case: iteration \<open>k\<close> reads and writes slot \<open>k\<close> of the map it builds and nothing else.
  \<open>h\<close> says what becomes of the slot.
\<close>

locale slot_body =
  fixes f :: "'k::linorder \<Rightarrow> 'v \<Rightarrow> ('k, 'w) fmap \<Rightarrow> ('k, 'w) fmap"
    and h :: "'k \<Rightarrow> 'v \<Rightarrow> 'w option \<Rightarrow> 'w option"
  assumes slot: "fmlookup (f k v s) k' = (if k' = k then h k v (fmlookup s k) else fmlookup s k')"
begin

lemma fold_slot:
  "distinct (map fst xs) \<Longrightarrow>
   fmlookup (fold (\<lambda>(k, v). f k v) xs s) k =
     (case map_of xs k of None \<Rightarrow> fmlookup s k | Some v \<Rightarrow> h k v (fmlookup s k))"
proof (induction xs arbitrary: s)
  case (Cons x xs)
  obtain k' v' where x: "x = (k', v')" by (cases x)
  have "map_of xs k = None" if "k = k'"
    using Cons.prems that by (auto simp: x map_of_eq_None_iff)
  then show ?case
    using Cons by (auto simp: x slot split: option.splits)
qed simp

lemma range_lookup:
  "fmlookup (go_range f m s) k =
     (case fmlookup m k of None \<Rightarrow> fmlookup s k | Some v \<Rightarrow> h k v (fmlookup s k))"
  using fold_slot [of "sorted_list_of_fmap m" s k] by (simp add: go_range_def)

end

sublocale slot_body \<subseteq> commuting_body f
  by unfold_locales (rule fmap_ext, auto simp: slot)

section \<open>Slices\<close>

text \<open>
  \<open>xs[i]\<close>, \<open>xs[:p]\<close> and \<open>xs[p:]\<close>. An index outside the slice panics. (Go allows \<open>xs[:p]\<close> up to the
  capacity, which would uncover stale elements; that is counted as a failure here as well.)
\<close>

definition go_at :: "'a list \<Rightarrow> int \<Rightarrow> 'a option" where
  "go_at xs i = (if 0 \<le> i \<and> nat i < length xs then Some (xs ! nat i) else None)"

definition slice_to :: "'a list \<Rightarrow> int \<Rightarrow> 'a list option" where
  "slice_to xs p = (if 0 \<le> p \<and> nat p \<le> length xs then Some (take (nat p) xs) else None)"

definition slice_from :: "'a list \<Rightarrow> int \<Rightarrow> 'a list option" where
  "slice_from xs p = (if 0 \<le> p \<and> nat p \<le> length xs then Some (drop (nat p) xs) else None)"

lemma go_at_int [simp]: "go_at xs (int i) = (if i < length xs then Some (xs ! i) else None)"
  by (simp add: go_at_def)

lemma slice_to_int [simp]: "slice_to xs (int p) = (if p \<le> length xs then Some (take p xs) else None)"
  by (simp add: slice_to_def)

lemma slice_from_int [simp]: "slice_from xs (int p) = (if p \<le> length xs then Some (drop p xs) else None)"
  by (simp add: slice_from_def)

section \<open>Orders with joins\<close>

text \<open>
  What the clients of vector clocks need of them: an order of causal histories and a join. The laws
  are stated for the order only, since two different maps can hold the same clock.
\<close>

locale join_order =
  fixes le :: "'a \<Rightarrow> 'a \<Rightarrow> bool" and join :: "'a \<Rightarrow> 'a \<Rightarrow> 'a"
  assumes le_refl: "le x x"
    and le_trans: "le x y \<Longrightarrow> le y z \<Longrightarrow> le x z"
    and join_ub1: "le x (join x y)"
    and join_ub2: "le y (join x y)"
    and join_least: "le x z \<Longrightarrow> le y z \<Longrightarrow> le (join x y) z"
begin

lemma join_le_iff: "le (join x y) z \<longleftrightarrow> le x z \<and> le y z"
  by (meson join_least join_ub1 join_ub2 le_trans)

lemma fold_join_le_iff: "le (fold (\<lambda>y acc. join acc y) xs s) z \<longleftrightarrow> le s z \<and> (\<forall>x \<in> set xs. le x z)"
  by (induction xs arbitrary: s) (auto simp: join_le_iff)

lemma fold_join_ub: "le s (fold (\<lambda>y acc. join acc y) xs s)"
    "x \<in> set xs \<Longrightarrow> le x (fold (\<lambda>y acc. join acc y) xs s)"
  using fold_join_le_iff [of xs s] le_refl by auto

end

section \<open>\<open>sort.Search\<close>\<close>

text \<open>
  The binary search of Go's \<open>sort\<close> package over \<open>[i, j)\<close>: \<open>h := int(uint(i+j) >> 1)\<close>, then
  \<open>i = h + 1\<close> when the predicate fails at \<open>h\<close> and \<open>j = h\<close> otherwise.
\<close>

function search_loop :: "(nat \<Rightarrow> bool) \<Rightarrow> nat \<Rightarrow> nat \<Rightarrow> nat" where
  "search_loop f i j =
     (if i < j then (let h = (i + j) div 2 in if \<not> f h then search_loop f (h + 1) j else search_loop f i h)
      else i)"
  by pat_completeness auto
termination
  by (relation "measure (\<lambda>(f, i, j). j - i)") auto

declare search_loop.simps [simp del]

definition go_search :: "nat \<Rightarrow> (nat \<Rightarrow> bool) \<Rightarrow> nat" where
  "go_search n f = search_loop f 0 n"

definition mono_below :: "nat \<Rightarrow> (nat \<Rightarrow> bool) \<Rightarrow> bool" where
  "mono_below n f \<longleftrightarrow> (\<forall>a b. a \<le> b \<longrightarrow> b < n \<longrightarrow> f a \<longrightarrow> f b)"

text \<open>\<open>i\<close> splits \<open>[0, n)\<close> into the indices where \<open>f\<close> fails and those where it holds.\<close>

definition split_at :: "nat \<Rightarrow> (nat \<Rightarrow> bool) \<Rightarrow> nat \<Rightarrow> bool" where
  "split_at n f i \<longleftrightarrow> i \<le> n \<and> (\<forall>k < i. \<not> f k) \<and> (\<forall>k. i \<le> k \<and> k < n \<longrightarrow> f k)"

lemma mono_belowD: "mono_below n f \<Longrightarrow> a \<le> b \<Longrightarrow> b < n \<Longrightarrow> f a \<Longrightarrow> f b"
  unfolding mono_below_def by blast

lemma search_loop_spec:
  assumes "i \<le> j" and "mono_below n f" and "j \<le> n"
    and "\<forall>k < i. \<not> f k" and "\<forall>k. j \<le> k \<and> k < n \<longrightarrow> f k"
  shows "split_at n f (search_loop f i j)"
  using assms
proof (induction f i j rule: search_loop.induct)
  case (1 f i j)
  show ?case
  proof (cases "i < j")
    case False
    then have "search_loop f i j = i" by (simp add: search_loop.simps [of f i j])
    then show ?thesis using "1.prems" False by (auto simp: split_at_def)
  next
    case True
    define h where "h = (i + j) div 2"
    have h: "i \<le> h" "h < j" using True by (auto simp: h_def)
    show ?thesis
    proof (cases "f h")
      case False
      have eq: "search_loop f i j = search_loop f (h + 1) j"
        using True False by (simp add: search_loop.simps [of f i j] h_def Let_def)
      have "\<not> f k" if "k < h + 1" for k
        using mono_belowD [OF "1.prems"(2), of k h] that False h "1.prems"(3) by auto
      then show ?thesis
        unfolding eq using "1.IH"(1) [OF True h_def False] "1.prems"(2,3,5) h by simp
    next
      case fh: True
      have eq: "search_loop f i j = search_loop f i h"
        using True fh by (simp add: search_loop.simps [of f i j] h_def Let_def)
      have "f k" if "h \<le> k" "k < n" for k
        using that fh by (rule mono_belowD [OF "1.prems"(2)])
      then show ?thesis
        unfolding eq using "1.IH"(2) [OF True h_def] "1.prems"(2,3,4) fh h by simp
    qed
  qed
qed

text \<open>On a monotone predicate the search returns the number of leading indices where it fails.\<close>

lemma go_search_split: "mono_below n f \<Longrightarrow> split_at n f (go_search n f)"
  unfolding go_search_def by (rule search_loop_spec) auto

lemma split_at_unique: "split_at n f i \<Longrightarrow> split_at n f j \<Longrightarrow> i = j"
  by (rule linorder_cases [of i j]) (auto simp: split_at_def)

text \<open>
  The search over a sorted slice: the entries before the result are exactly those below the bound.
\<close>

lemma go_search_sorted:
  fixes key :: "'a \<Rightarrow> 'b::linorder"
  assumes "sorted (map key xs)"
  shows "take (go_search (length xs) (\<lambda>i. b \<le> key (xs ! i))) xs = filter (\<lambda>x. key x < b) xs"
    and "drop (go_search (length xs) (\<lambda>i. b \<le> key (xs ! i))) xs = filter (\<lambda>x. b \<le> key x) xs"
proof -
  define i where "i = go_search (length xs) (\<lambda>i. b \<le> key (xs ! i))"
  have "mono_below (length xs) (\<lambda>i. b \<le> key (xs ! i))"
    unfolding mono_below_def using sorted_nth_mono [OF assms] by fastforce
  then have s: "split_at (length xs) (\<lambda>i. b \<le> key (xs ! i)) i"
    unfolding i_def by (rule go_search_split)
  have lo: "\<forall>x \<in> set (take i xs). key x < b"
    using s by (auto simp: split_at_def in_set_conv_nth not_le)
  have hi: "\<forall>x \<in> set (drop i xs). b \<le> key x"
    using s by (auto simp: split_at_def in_set_conv_nth)
  have "filter (\<lambda>x. key x < b) (take i xs @ drop i xs) = take i xs"
    using lo hi by (simp add: filter_id_conv filter_empty_conv not_less del: append_take_drop_id)
  moreover have "filter (\<lambda>x. b \<le> key x) (take i xs @ drop i xs) = drop i xs"
    using lo hi by (simp add: filter_id_conv filter_empty_conv not_le del: append_take_drop_id)
  ultimately show "take (go_search (length xs) (\<lambda>i. b \<le> key (xs ! i))) xs = filter (\<lambda>x. key x < b) xs"
    and "drop (go_search (length xs) (\<lambda>i. b \<le> key (xs ! i))) xs = filter (\<lambda>x. b \<le> key x) xs"
    by (simp_all add: i_def)
qed

section \<open>Convergent data types\<close>

text \<open>
  The contract of a state-based replicated data type: on well-formed states, merging is closed,
  commutative, associative and idempotent. Then the state a replica reaches depends only on which
  states it has merged, not on their order or repetition.
\<close>

locale merge_crdt =
  fixes merge :: "'a \<Rightarrow> 'a \<Rightarrow> 'a" and ok :: "'a \<Rightarrow> bool"
  assumes merge_ok: "ok a \<Longrightarrow> ok b \<Longrightarrow> ok (merge a b)"
    and merge_comm: "ok a \<Longrightarrow> ok b \<Longrightarrow> merge a b = merge b a"
    and merge_assoc: "ok a \<Longrightarrow> ok b \<Longrightarrow> ok c \<Longrightarrow> merge (merge a b) c = merge a (merge b c)"
    and merge_idem: "ok a \<Longrightarrow> merge a a = a"
begin

definition receive :: "'a \<Rightarrow> 'a list \<Rightarrow> 'a" where
  "receive s xs = fold (\<lambda>x acc. merge acc x) xs s"

lemma receive_simps: "receive s [] = s" "receive s (x # xs) = receive (merge s x) xs"
  by (simp_all add: receive_def)

lemma receive_ok: "ok s \<Longrightarrow> \<forall>x \<in> set xs. ok x \<Longrightarrow> ok (receive s xs)"
  by (induction xs arbitrary: s) (simp_all add: receive_simps merge_ok)

lemma absorb_iff:
  assumes "ok a" "ok b" "ok z"
  shows "merge (merge a b) z = z \<longleftrightarrow> merge a z = z \<and> merge b z = z"
  using assms merge_assoc merge_comm merge_idem merge_ok by metis

lemma receive_absorb_iff:
  "ok s \<Longrightarrow> \<forall>x \<in> set xs. ok x \<Longrightarrow> ok z \<Longrightarrow>
   merge (receive s xs) z = z \<longleftrightarrow> merge s z = z \<and> (\<forall>x \<in> set xs. merge x z = z)"
  by (induction xs arbitrary: s) (auto simp: receive_simps absorb_iff merge_ok)

text \<open>Strong eventual consistency.\<close>

lemma convergence:
  assumes "ok s" "\<forall>x \<in> set xs. ok x" "insert s (set xs) = insert t (set ys)"
  shows "receive s xs = receive t ys"
proof -
  have "\<forall>y \<in> insert t (set ys). ok y" unfolding assms(3) [symmetric] using assms(1,2) by simp
  then have oks: "ok t" "\<forall>y \<in> set ys. ok y" by simp_all
  note okr = receive_ok [OF assms(1,2)] receive_ok [OF oks]
  have "merge (receive s xs) z = z \<longleftrightarrow> merge (receive t ys) z = z" if "ok z" for z
  proof -
    have "merge (receive s xs) z = z \<longleftrightarrow> (\<forall>x \<in> insert s (set xs). merge x z = z)"
      using receive_absorb_iff [OF assms(1,2) that] by simp
    moreover have "merge (receive t ys) z = z \<longleftrightarrow> (\<forall>x \<in> insert t (set ys). merge x z = z)"
      using receive_absorb_iff [OF oks that] by simp
    ultimately show ?thesis unfolding assms(3) by simp
  qed
  then have "merge (receive s xs) (receive t ys) = receive t ys"
    and "merge (receive t ys) (receive s xs) = receive s xs"
    using okr merge_idem by blast+
  then show ?thesis using merge_comm okr by metis
qed

lemma receive_upper: "ok s \<Longrightarrow> \<forall>x \<in> set xs. ok x \<Longrightarrow> x \<in> insert s (set xs) \<Longrightarrow> merge x (receive s xs) = receive s xs"
  using receive_absorb_iff [of s xs "receive s xs"] receive_ok [of s xs] merge_idem by blast

end

section \<open>Taking one element out of a list\<close>

definition drop_nth :: "nat \<Rightarrow> 'a list \<Rightarrow> 'a list" where
  "drop_nth k xs = take k xs @ drop (Suc k) xs"

lemma set_drop_nth: "set (drop_nth k xs) \<subseteq> set xs"
  unfolding drop_nth_def by (auto dest: in_set_takeD in_set_dropD)

lemma mset_drop_nth: "k < length xs \<Longrightarrow> mset (drop_nth k xs) = mset xs - {#xs ! k#}"
  unfolding drop_nth_def by (metis add_diff_cancel_right' id_take_nth_drop mset.simps(2) mset_append union_mset_add_mset_right add_mset_add_single)

text \<open>The end of a list: a window of bounded size.\<close>

definition last_n :: "nat \<Rightarrow> 'a list \<Rightarrow> 'a list" where
  "last_n n xs = drop (length xs - n) xs"

lemma last_n_snoc: "0 < n \<Longrightarrow> last_n n (xs @ [x]) = (if length (last_n n xs @ [x]) > n then drop (length (last_n n xs @ [x]) - n) (last_n n xs @ [x]) else last_n n xs @ [x])"
  by (auto simp: last_n_def Suc_diff_le drop_Suc tl_drop not_less min_def)

lemma length_last_n [simp]: "length (last_n n xs) = min n (length xs)"
  by (auto simp: last_n_def)

lemma map_last_n: "map f (last_n n xs) = last_n n (map f xs)"
  by (simp add: last_n_def drop_map)

end
