(* ===== verification/VClock.thy ===== *)
theory VClock
  imports Go_Prelude
begin

text \<open>
  Vector clocks and the entry types of \<open>internal/storage/entry.go\<close>. A clock is a Go map from node
  ids to \<open>uint64\<close>; an absent node counts as 0. The two mutating methods return the updated map, as
  the Go methods do for chaining. The theory shows that \<open>Dominates\<close> is the pointwise order,
  \<open>HappensBefore\<close> its strict part, \<open>Merge\<close> the least upper bound, and interprets the locale
  \<open>join_order\<close>, through which the session guarantees and the multi-leader node use clocks.
\<close>

section \<open>Clocks\<close>

type_synonym vclock = "(node_id, u64) fmap"

definition NewVectorClock :: vclock where
  "NewVectorClock = fmempty"

definition VectorClock_Increment :: "vclock \<Rightarrow> node_id \<Rightarrow> vclock" where
  "VectorClock_Increment vc nodeID = fmupd nodeID (zget vc nodeID + 1) vc"

definition VectorClock_Merge :: "vclock \<Rightarrow> vclock \<Rightarrow> vclock" where
  "VectorClock_Merge vc other =
     go_range (\<lambda>nodeID ts vc. if ts > zget vc nodeID then fmupd nodeID ts vc else vc) other vc"

definition VectorClock_HappensBefore :: "vclock \<Rightarrow> vclock \<Rightarrow> bool" where
  "VectorClock_HappensBefore vc other =
     (if go_any (\<lambda>nodeID ts. ts > zget other nodeID) vc then False
      else go_any (\<lambda>nodeID ts. ts < zget other nodeID) vc
        \<or> go_any (\<lambda>nodeID ts. fmlookup vc nodeID = None \<and> ts > 0) other)"

definition VectorClock_Dominates :: "vclock \<Rightarrow> vclock \<Rightarrow> bool" where
  "VectorClock_Dominates vc other = (\<not> go_any (\<lambda>nodeID ts. zget vc nodeID < ts) other)"

definition VectorClock_Equal :: "vclock \<Rightarrow> vclock \<Rightarrow> bool" where
  "VectorClock_Equal vc other =
     (go_len vc = go_len other \<and> go_all (\<lambda>nodeID ts. zget other nodeID = ts) vc)"

definition VectorClock_Concurrent :: "vclock \<Rightarrow> vclock \<Rightarrow> bool" where
  "VectorClock_Concurrent vc other =
     (\<not> VectorClock_HappensBefore vc other \<and> \<not> VectorClock_HappensBefore other vc
      \<and> \<not> VectorClock_Equal vc other)"

definition VectorClock_Clone :: "vclock \<Rightarrow> vclock" where
  "VectorClock_Clone vc = go_range (\<lambda>k v clone. fmupd k v clone) vc fmempty"

section \<open>Entries\<close>

datatype OpType = OpSet | OpDelete

text \<open>A nil vector clock is \<open>None\<close>; reading or cloning it behaves like the empty map (\<open>vc_of\<close>).\<close>

record LogEntry =
  le_Index :: nat
  le_Term :: nat
  le_Key :: string
  le_Value :: bytes
  le_Op :: OpType
  le_Timestamp :: int
  le_OriginID :: node_id
  le_VClock :: "vclock option"

record KVEntry =
  kv_Key :: string
  kv_Value :: bytes
  kv_VClock :: "vclock option"
  kv_Timestamp :: int
  kv_NodeID :: node_id
  kv_Tombstone :: bool
  kv_Version :: nat

definition vc_of :: "vclock option \<Rightarrow> vclock" where
  "vc_of c = (case c of None \<Rightarrow> fmempty | Some vc \<Rightarrow> vc)"

lemma vc_of_simps [simp]: "vc_of None = fmempty" "vc_of (Some vc) = vc"
  by (simp_all add: vc_of_def)

section \<open>Laws\<close>

interpretation merge_body:
  slot_body "\<lambda>nodeID ts (vc :: vclock). if ts > zget vc nodeID then fmupd nodeID ts vc else vc"
    "\<lambda>nodeID ts cur. if ts > (case cur of None \<Rightarrow> 0 | Some v \<Rightarrow> v) then Some ts else cur"
  by unfold_locales (auto simp: zget_def)

interpretation clone_body: slot_body "\<lambda>k v clone. fmupd k v clone" "\<lambda>k v cur. Some v"
  by unfold_locales auto

lemma lookup_Merge [lookup_simps]:
  "fmlookup (VectorClock_Merge vc other) n =
     (case fmlookup other n of None \<Rightarrow> fmlookup vc n
      | Some ts \<Rightarrow> if ts > zget vc n then Some ts else fmlookup vc n)"
  unfolding VectorClock_Merge_def merge_body.range_lookup by (simp add: zget_def split: option.splits)

lemma zget_Merge [simp]: "zget (VectorClock_Merge vc other) n = max (zget vc n) (zget other n)"
  by (auto simp: zget_def lookup_Merge max_def word_gt_0 split: option.splits)

lemma Clone_id [simp]: "VectorClock_Clone vc = vc"
  unfolding VectorClock_Clone_def
  by (rule fmap_ext) (simp add: clone_body.range_lookup split: option.splits)

lemma zget_Increment [simp]:
  "zget (VectorClock_Increment vc i) n = (if n = i then zget vc i + 1 else zget vc n)"
  by (simp add: VectorClock_Increment_def)

lemma Dominates_iff: "VectorClock_Dominates vc other \<longleftrightarrow> (\<forall>n. zget other n \<le> zget vc n)"
proof
  assume "VectorClock_Dominates vc other"
  then show "\<forall>n. zget other n \<le> zget vc n"
    by (auto simp: VectorClock_Dominates_def go_simps zget_def [of other] not_less split: option.splits)
next
  assume "\<forall>n. zget other n \<le> zget vc n"
  then show "VectorClock_Dominates vc other"
    unfolding VectorClock_Dominates_def go_simps by (metis not_le zget_Some)
qed

lemma HappensBefore_iff:
  "VectorClock_HappensBefore vc other \<longleftrightarrow>
     (\<forall>n. zget vc n \<le> zget other n) \<and> (\<exists>n. zget vc n < zget other n)"
proof -
  have le: "go_any (\<lambda>n ts. ts > zget other n) vc \<longleftrightarrow> \<not> (\<forall>n. zget vc n \<le> zget other n)"
    using Dominates_iff [of other vc] unfolding VectorClock_Dominates_def by blast
  have "(\<exists>n. zget vc n < zget other n) \<longleftrightarrow>
      go_any (\<lambda>n ts. ts < zget other n) vc \<or> go_any (\<lambda>n ts. fmlookup vc n = None \<and> ts > 0) other"
  proof
    assume "\<exists>n. zget vc n < zget other n"
    then obtain n where n: "zget vc n < zget other n" by blast
    then obtain ts where "fmlookup other n = Some ts"
      by (cases "fmlookup other n") auto
    with n show "go_any (\<lambda>n ts. ts < zget other n) vc \<or> go_any (\<lambda>n ts. fmlookup vc n = None \<and> ts > 0) other"
      unfolding go_simps by (cases "fmlookup vc n") (auto intro!: exI [of _ n])
  next
    assume "go_any (\<lambda>n ts. ts < zget other n) vc \<or> go_any (\<lambda>n ts. fmlookup vc n = None \<and> ts > 0) other"
    then show "\<exists>n. zget vc n < zget other n"
      unfolding go_simps by (elim disjE exE conjE) (rule_tac x = k in exI, simp)+
  qed
  then show ?thesis
    by (auto simp: VectorClock_HappensBefore_def le)
qed

text \<open>
  Clocks as the program builds them hold no zero entry: \<open>Increment\<close> stores a successor and
  \<open>Merge\<close> copies only values above the stored one.
\<close>

definition vc_wf :: "vclock \<Rightarrow> bool" where
  "vc_wf vc \<longleftrightarrow> (\<forall>n. fmlookup vc n \<noteq> Some 0)"

lemma vc_wf_New [simp]: "vc_wf NewVectorClock"
  by (simp add: vc_wf_def NewVectorClock_def)

lemma vc_wf_Increment: "vc_wf vc \<Longrightarrow> zget vc i + 1 \<noteq> 0 \<Longrightarrow> vc_wf (VectorClock_Increment vc i)"
  by (simp add: vc_wf_def VectorClock_Increment_def)

lemma vc_wf_Merge: "vc_wf vc \<Longrightarrow> vc_wf (VectorClock_Merge vc other)"
  by (auto simp: vc_wf_def lookup_Merge split: option.splits)

lemma vc_wf_lookup: "vc_wf vc \<Longrightarrow> fmlookup vc n = (if zget vc n = 0 then None else Some (zget vc n))"
  by (auto simp: vc_wf_def zget_def split: option.splits)

lemma vc_wf_ext: "vc_wf a \<Longrightarrow> vc_wf b \<Longrightarrow> (\<And>n. zget a n = zget b n) \<Longrightarrow> a = b"
  by (rule fmap_ext) (simp add: vc_wf_lookup del: zget_Some zget_None)

lemma Equal_wf:
  assumes "vc_wf a" and "vc_wf b"
  shows "VectorClock_Equal a b \<longleftrightarrow> a = b"
proof
  assume eq: "VectorClock_Equal a b"
  have sub: "fmlookup b n = Some v" if "fmlookup a n = Some v" for n v
  proof -
    have "zget b n = v" and "v \<noteq> 0"
      using that eq assms(1) by (auto simp: VectorClock_Equal_def go_simps vc_wf_def)
    then show ?thesis by (auto simp: zget_def split: option.splits)
  qed
  then have "fmdom a |\<subseteq>| fmdom b"
    by (auto simp: fmlookup_dom_iff)
  then have dom: "fmdom a = fmdom b"
    using eq by (metis VectorClock_Equal_def fcard_seteq go_len_def order_refl)
  show "a = b"
  proof (rule fmap_ext)
    fix n
    show "fmlookup a n = fmlookup b n"
      using sub dom by (cases "fmlookup a n") (metis fmdom_notD fmdom_notI, simp)
  qed
qed (auto simp: VectorClock_Equal_def go_simps)

interpretation vc: join_order "\<lambda>a b. VectorClock_Dominates b a" VectorClock_Merge
  by unfold_locales (simp_all add: Dominates_iff, meson order_trans)

section \<open>Properties\<close>

text \<open>
  \<open>HappensBefore\<close> is the strict causal order: a clock happens before another exactly when the
  other dominates it and it does not dominate the other. It is irreflexive and transitive.
\<close>

theorem happens_before_strict_order:
  "(VectorClock_HappensBefore a b \<longleftrightarrow> VectorClock_Dominates b a \<and> \<not> VectorClock_Dominates a b) \<and>
   \<not> VectorClock_HappensBefore a a \<and>
   (VectorClock_HappensBefore a b \<and> VectorClock_HappensBefore b c \<longrightarrow> VectorClock_HappensBefore a c)"
proof (intro conjI impI)
  show "VectorClock_HappensBefore a b \<longleftrightarrow> VectorClock_Dominates b a \<and> \<not> VectorClock_Dominates a b"
    by (auto simp: HappensBefore_iff Dominates_iff not_le)
  show "\<not> VectorClock_HappensBefore a a"
    by (simp add: HappensBefore_iff)
  assume "VectorClock_HappensBefore a b \<and> VectorClock_HappensBefore b c"
  then show "VectorClock_HappensBefore a c"
    unfolding HappensBefore_iff by (meson order_trans order_less_le_trans)
qed

theorem happens_before_strict_order_witness:
  "VectorClock_HappensBefore (fmap_of_list [(''a'', 1)]) (fmap_of_list [(''a'', 3), (''b'', 1)])"
proof -
  have "VectorClock_HappensBefore (fmap_of_list [(''a'', 1)]) (fmap_of_list [(''a'', 2)])"
    and "VectorClock_HappensBefore (fmap_of_list [(''a'', 2)]) (fmap_of_list [(''a'', 3), (''b'', 1)])"
    by code_simp+
  then show ?thesis using happens_before_strict_order by blast
qed

text \<open>
  Any two clocks the program builds (no zero entries) stand in exactly one of the four relations
  the conflict code distinguishes: one happens before the other, the other happens before it, they
  are equal, or they are concurrent; and \<open>Equal\<close> holds only for identical maps.
\<close>

theorem clock_relations_partition:
  assumes "vc_wf a" and "vc_wf b"
  shows "length (filter id [VectorClock_HappensBefore a b, VectorClock_HappensBefore b a,
           VectorClock_Equal a b, VectorClock_Concurrent a b]) = 1 \<and>
         (VectorClock_Equal a b \<longleftrightarrow> a = b)"
proof
  show eq: "VectorClock_Equal a b \<longleftrightarrow> a = b"
    using assms by (rule Equal_wf)
  have "\<not> (VectorClock_HappensBefore a b \<and> VectorClock_HappensBefore b a)"
    unfolding HappensBefore_iff by (meson not_le)
  moreover have "VectorClock_Equal a b \<Longrightarrow> \<not> VectorClock_HappensBefore a b \<and> \<not> VectorClock_HappensBefore b a"
    by (simp add: eq HappensBefore_iff)
  ultimately show "length (filter id [VectorClock_HappensBefore a b, VectorClock_HappensBefore b a,
      VectorClock_Equal a b, VectorClock_Concurrent a b]) = 1"
    by (auto simp: VectorClock_Concurrent_def)
qed

theorem clock_relations_partition_witness:
  "VectorClock_Concurrent (fmap_of_list [(''a'', 2)]) (fmap_of_list [(''b'', 1)]) \<and>
   length (filter id [VectorClock_HappensBefore (fmap_of_list [(''a'', 2)]) (fmap_of_list [(''b'', 1)]),
     VectorClock_HappensBefore (fmap_of_list [(''b'', 1)]) (fmap_of_list [(''a'', 2)]),
     VectorClock_Equal (fmap_of_list [(''a'', 2)]) (fmap_of_list [(''b'', 1)]),
     VectorClock_Concurrent (fmap_of_list [(''a'', 2)]) (fmap_of_list [(''b'', 1)])]) = 1"
proof -
  have "vc_wf (fmap_of_list [(''a'', 2)])" and "vc_wf (fmap_of_list [(''b'', 1)])"
    by (simp_all add: vc_wf_def)
  from clock_relations_partition [OF this] show ?thesis
    by (intro conjI) (code_simp, blast)
qed

text \<open>\<open>Merge\<close> is the least upper bound of the causal order: it dominates both clocks, every clock
  that dominates both dominates it, and it introduces no zero entry.
\<close>

theorem merge_least_upper_bound:
  "VectorClock_Dominates (VectorClock_Merge a b) a \<and> VectorClock_Dominates (VectorClock_Merge a b) b \<and>
   (VectorClock_Dominates c (VectorClock_Merge a b) \<longleftrightarrow> VectorClock_Dominates c a \<and> VectorClock_Dominates c b) \<and>
   (vc_wf a \<longrightarrow> vc_wf (VectorClock_Merge a b))"
  using vc.join_ub1 vc.join_ub2 vc.join_le_iff vc_wf_Merge by blast

theorem merge_least_upper_bound_witness:
  "vc_wf (VectorClock_Merge (fmap_of_list [(''a'', 2)]) (fmap_of_list [(''a'', 1), (''b'', 4)])) \<and>
   VectorClock_Merge (fmap_of_list [(''a'', 2)]) (fmap_of_list [(''a'', 1), (''b'', 4)]) =
     fmap_of_list [(''a'', 2), (''b'', 4)]"
proof
  have "vc_wf (fmap_of_list [(''a'', 2)])" by (simp add: vc_wf_def)
  then show "vc_wf (VectorClock_Merge (fmap_of_list [(''a'', 2)]) (fmap_of_list [(''a'', 1), (''b'', 4)]))"
    using merge_least_upper_bound by blast
qed code_simp

end
