(* ===== verification/Store.thy ===== *)
theory Store
  imports VClock
begin

text \<open>
  The key-value store of every node, \<open>internal/storage/store.go\<close>. The mutex only serialises the
  methods, so each method is one function on the state. Stored entries are never mutated in place
  (the code copies on write and clones the clocks), so a pointer to an entry is its value.
  The JSON codec behind \<open>SnapshotBytes\<close>/\<open>RestoreSnapshot\<close> is a parameter.
\<close>

record Store =
  st_data :: "(string, KVEntry) fmap"
  st_version :: nat

definition NewStore :: Store where
  "NewStore = \<lparr>st_data = fmempty, st_version = 0\<rparr>"

definition Store_Get :: "Store \<Rightarrow> string \<Rightarrow> KVEntry option" where
  "Store_Get s key =
     (case fmlookup (st_data s) key of None \<Rightarrow> None
      | Some e \<Rightarrow> if kv_Tombstone e then None else Some e)"

definition Store_GetRaw :: "Store \<Rightarrow> string \<Rightarrow> KVEntry option" where
  "Store_GetRaw s key = fmlookup (st_data s) key"

definition Store_Set :: "Store \<Rightarrow> KVEntry \<Rightarrow> Store" where
  "Store_Set s entry =
     (let version = st_version s + 1;
          cp = (case kv_VClock entry of None \<Rightarrow> entry
                | Some c \<Rightarrow> entry\<lparr>kv_VClock := Some (VectorClock_Clone c)\<rparr>)
      in \<lparr>st_data = fmupd (kv_Key cp) (cp\<lparr>kv_Version := version\<rparr>) (st_data s), st_version = version\<rparr>)"

definition Store_Delete :: "Store \<Rightarrow> string \<Rightarrow> node_id \<Rightarrow> int \<Rightarrow> vclock option \<Rightarrow> Store" where
  "Store_Delete s key nodeID ts vc =
     (let version = st_version s + 1;
          clk = Some (VectorClock_Clone (vc_of vc))
      in case fmlookup (st_data s) key of
           Some existing \<Rightarrow>
             \<lparr>st_data = fmupd key (existing\<lparr>kv_Tombstone := True, kv_Timestamp := ts, kv_NodeID := nodeID,
                kv_VClock := clk, kv_Version := version\<rparr>) (st_data s), st_version = version\<rparr>
         | None \<Rightarrow>
             \<lparr>st_data = fmupd key \<lparr>kv_Key = key, kv_Value = None, kv_VClock = clk, kv_Timestamp = ts,
                kv_NodeID = nodeID, kv_Tombstone = True, kv_Version = version\<rparr> (st_data s),
              st_version = version\<rparr>)"

text \<open>The keys in the order of a range loop, which Go leaves open; the callers sort or fold them.\<close>

definition Store_Keys :: "Store \<Rightarrow> string list" where
  "Store_Keys s = go_range (\<lambda>k v keys. keys @ [k]) (st_data s) []"

definition Store_Snapshot :: "Store \<Rightarrow> (string, KVEntry) fmap" where
  "Store_Snapshot s = go_range (\<lambda>k v snap. fmupd k v snap) (st_data s) fmempty"

definition Store_SnapshotBytes :: "((string, KVEntry) fmap \<Rightarrow> string) \<Rightarrow> Store \<Rightarrow> string" where
  "Store_SnapshotBytes json_marshal s = json_marshal (st_data s)"

text \<open>\<open>None\<close> is the decoding error: the method returns before it touches the store.\<close>

definition Store_RestoreSnapshot ::
  "(string \<Rightarrow> (string, KVEntry) fmap option) \<Rightarrow> Store \<Rightarrow> string \<Rightarrow> Store option" where
  "Store_RestoreSnapshot json_unmarshal s b =
     (if length b > 0
      then (case json_unmarshal b of None \<Rightarrow> None | Some data \<Rightarrow> Some (s\<lparr>st_data := data\<rparr>))
      else Some (s\<lparr>st_data := fmempty\<rparr>))"

definition Store_Version :: "Store \<Rightarrow> nat" where
  "Store_Version s = st_version s"

section \<open>Behaviour\<close>

lemma option_case_VClock [simp]:
  "(case kv_VClock e of None \<Rightarrow> e | Some c \<Rightarrow> e\<lparr>kv_VClock := Some (VectorClock_Clone c)\<rparr>) = e"
  by (cases e) (auto split: option.splits)

lemma GetRaw_Set [lookup_simps]:
  "Store_GetRaw (Store_Set s e) k =
     (if k = kv_Key e then Some (e\<lparr>kv_Version := st_version s + 1\<rparr>) else Store_GetRaw s k)"
  by (simp add: Store_GetRaw_def Store_Set_def Let_def)

lemma GetRaw_Delete [lookup_simps]:
  "Store_GetRaw (Store_Delete s key nid ts vc) k =
     (if k = key then
        Some \<lparr>kv_Key = (case Store_GetRaw s key of None \<Rightarrow> key | Some e \<Rightarrow> kv_Key e),
              kv_Value = (case Store_GetRaw s key of None \<Rightarrow> None | Some e \<Rightarrow> kv_Value e),
              kv_VClock = Some (vc_of vc), kv_Timestamp = ts, kv_NodeID = nid,
              kv_Tombstone = True, kv_Version = st_version s + 1\<rparr>
      else Store_GetRaw s k)"
  by (auto simp: Store_GetRaw_def Store_Delete_def Let_def split: option.splits)

lemma Get_raw: "Store_Get s k = (case Store_GetRaw s k of None \<Rightarrow> None | Some e \<Rightarrow> if kv_Tombstone e then None else Some e)"
  by (simp add: Store_Get_def Store_GetRaw_def)

lemma version_ops [simp]:
  "st_version (Store_Set s e) = st_version s + 1"
  "st_version (Store_Delete s k nid ts vc) = st_version s + 1"
  by (simp_all add: Store_Set_def Store_Delete_def Let_def split: option.splits)

lemma Snapshot_data [simp]: "Store_Snapshot s = st_data s"
  using Clone_id unfolding Store_Snapshot_def
  by (intro fmap_ext) (simp add: clone_body.range_lookup split: option.splits)

lemma Keys_eq: "Store_Keys s = go_keys (st_data s)"
proof -
  have "fold (\<lambda>(k, v) keys. keys @ [k]) xs acc = acc @ map fst xs" for xs :: "(string \<times> KVEntry) list" and acc
    by (induction xs arbitrary: acc) auto
  then show ?thesis by (simp add: Store_Keys_def go_range_def go_keys_def)
qed

text \<open>
  Every entry is stored under its own key, carries a version the store has handed out, and no two
  entries carry the same one.
\<close>

definition store_inv :: "Store \<Rightarrow> bool" where
  "store_inv s \<longleftrightarrow>
     (\<forall>k e. Store_GetRaw s k = Some e \<longrightarrow> kv_Key e = k \<and> 0 < kv_Version e \<and> kv_Version e \<le> st_version s) \<and>
     (\<forall>k k' e e'. Store_GetRaw s k = Some e \<longrightarrow> Store_GetRaw s k' = Some e' \<longrightarrow>
        kv_Version e = kv_Version e' \<longrightarrow> k = k')"

lemma store_inv_New [simp]: "store_inv NewStore"
  by (simp add: store_inv_def NewStore_def Store_GetRaw_def)

lemma store_inv_key: "store_inv s \<Longrightarrow> Store_GetRaw s k = Some e \<Longrightarrow> kv_Key e = k"
  by (simp add: store_inv_def)

lemma store_inv_upd:
  assumes "store_inv s" and "kv_Key e = k" and "kv_Version e = st_version s + 1"
    and "\<And>k'. Store_GetRaw s' k' = (if k' = k then Some e else Store_GetRaw s k')"
    and "st_version s' = st_version s + 1"
  shows "store_inv s'"
  using assms unfolding store_inv_def by (auto split: if_splits) fastforce+

lemma store_inv_Set: "store_inv s \<Longrightarrow> store_inv (Store_Set s e)"
  by (rule store_inv_upd [where e = "e\<lparr>kv_Version := st_version s + 1\<rparr>"]) (simp_all add: GetRaw_Set)

lemma store_inv_Delete: "store_inv s \<Longrightarrow> store_inv (Store_Delete s k nid ts vc)"
  by (rule store_inv_upd [where k = k and e = "the (Store_GetRaw (Store_Delete s k nid ts vc) k)"])
     (auto simp: GetRaw_Delete store_inv_key split: option.splits)

section \<open>Properties\<close>

text \<open>The calls that change a store, and what each means for a plain map from keys to entries.\<close>

datatype StoreCall = SSet KVEntry | SDelete string node_id int "vclock option"

fun store_call :: "StoreCall \<Rightarrow> Store \<Rightarrow> Store" where
  "store_call (SSet e) s = Store_Set s e"
| "store_call (SDelete k nid ts vc) s = Store_Delete s k nid ts vc"

fun spec_call :: "StoreCall \<Rightarrow> (string \<rightharpoonup> KVEntry) \<Rightarrow> (string \<rightharpoonup> KVEntry)" where
  "spec_call (SSet e) m = m(kv_Key e := (if kv_Tombstone e then None else Some e))"
| "spec_call (SDelete k nid ts vc) m = m(k := None)"

text \<open>Entries up to the version stamp, which only the store assigns.\<close>

definition unversioned :: "KVEntry option \<Rightarrow> KVEntry option" where
  "unversioned e = map_option (kv_Version_update (\<lambda>_. 0)) e"

lemma unversioned_simps [simp]:
  "unversioned None = None" "unversioned (Some (e\<lparr>kv_Version := v\<rparr>)) = unversioned (Some e)"
  by (simp_all add: unversioned_def)

lemma store_call_refines:
  assumes "\<And>k. unversioned (Store_Get s k) = unversioned (m k)"
  shows "unversioned (Store_Get (store_call c s) k) = unversioned (spec_call c m k)"
  using assms by (cases c) (auto simp: Get_raw GetRaw_Set GetRaw_Delete)

lemma store_calls_refine:
  "store_inv s \<Longrightarrow> (\<And>k. unversioned (Store_Get s k) = unversioned (m k)) \<Longrightarrow>
   unversioned (Store_Get (fold store_call cs s) k) = unversioned (fold spec_call cs m k) \<and>
   store_inv (fold store_call cs s) \<and> st_version (fold store_call cs s) = st_version s + length cs"
proof (induction cs arbitrary: s m)
  case (Cons c cs)
  have "store_inv (store_call c s)" "st_version (store_call c s) = st_version s + 1"
    using Cons.prems(1) by (cases c; simp add: store_inv_Set store_inv_Delete)+
  moreover have "\<And>k. unversioned (Store_Get (store_call c s) k) = unversioned (spec_call c m k)"
    using Cons.prems(2) by (rule store_call_refines)
  ultimately show ?case using Cons.IH [of "store_call c s" "spec_call c m"] by simp
qed simp

text \<open>
  C40. The store refines a plain map: after any sequence of \<open>Set\<close> and \<open>Delete\<close> calls on a new store,
  \<open>Get\<close> returns what the map holds (tombstoned keys are absent), every entry sits under its own key,
  the version counts the calls, and no two keys carry the same version stamp.
\<close>

theorem store_refines_map:
  "unversioned (Store_Get (fold store_call cs NewStore) k) = unversioned (fold spec_call cs Map.empty k) \<and>
   store_inv (fold store_call cs NewStore) \<and> Store_Version (fold store_call cs NewStore) = length cs"
proof -
  have "unversioned (Store_Get NewStore j) = unversioned (Map.empty j)" for j
    by (simp add: NewStore_def Store_Get_def)
  from store_calls_refine [OF store_inv_New this, of cs k] show ?thesis
    by (simp add: Store_Version_def NewStore_def)
qed

end
