(* ===== verification/ReplLog.thy ===== *)
theory ReplLog
  imports VClock
begin

text \<open>
  The replication log of \<open>internal/replication/log.go\<close>: a slice of entries behind a compacted
  prefix. Absolute index \<open>i\<close> lives at slice position \<open>i - snapshotIndex - 1\<close>. Every method that
  reads or cuts the slice returns an \<open>option\<close>, \<open>None\<close> standing for the panic of an index out of
  range. The invariant \<open>log_inv\<close> ties the slice to the two indices; under it no method panics.
\<close>

record ReplicationLog =
  rl_entries :: "LogEntry list"
  rl_commitIndex :: nat
  rl_nextIndex :: nat
  rl_snapshotIndex :: nat
  rl_snapshotTerm :: nat

definition NewReplicationLog :: ReplicationLog where
  "NewReplicationLog = \<lparr>rl_entries = [], rl_commitIndex = 0, rl_nextIndex = 1,
     rl_snapshotIndex = 0, rl_snapshotTerm = 0\<rparr>"

definition Log_pos :: "ReplicationLog \<Rightarrow> nat \<Rightarrow> int" where
  "Log_pos l index = int index - int (rl_snapshotIndex l) - 1"

definition Log_Append :: "ReplicationLog \<Rightarrow> LogEntry \<Rightarrow> ReplicationLog \<times> nat" where
  "Log_Append l entry =
     (let e = entry\<lparr>le_Index := rl_nextIndex l\<rparr>
      in (l\<lparr>rl_nextIndex := rl_nextIndex l + 1, rl_entries := rl_entries l @ [e]\<rparr>, le_Index e))"

text \<open>The inner \<open>option\<close> is the \<open>(entry, bool)\<close> result.\<close>

definition Log_Get :: "ReplicationLog \<Rightarrow> nat \<Rightarrow> LogEntry option option" where
  "Log_Get l index =
     (if index = 0 \<or> index \<le> rl_snapshotIndex l \<or> index \<ge> rl_nextIndex l then Some None
      else map_option Some (go_at (rl_entries l) (Log_pos l index)))"

definition Log_GetFrom :: "ReplicationLog \<Rightarrow> nat \<Rightarrow> LogEntry list option" where
  "Log_GetFrom l startIndex =
     (if startIndex \<ge> rl_nextIndex l then Some []
      else (let startIndex' = (if startIndex \<le> rl_snapshotIndex l then rl_snapshotIndex l + 1 else startIndex);
                start = Log_pos l startIndex'
            in slice_from (rl_entries l) (if start < 0 then 0 else start)))"

definition Log_LastIndex :: "ReplicationLog \<Rightarrow> nat" where
  "Log_LastIndex l = rl_nextIndex l - 1"

definition Log_CommitIndex :: "ReplicationLog \<Rightarrow> nat" where
  "Log_CommitIndex l = rl_commitIndex l"

definition Log_SetCommitIndex :: "ReplicationLog \<Rightarrow> nat \<Rightarrow> ReplicationLog" where
  "Log_SetCommitIndex l idx = (if idx > rl_commitIndex l then l\<lparr>rl_commitIndex := idx\<rparr> else l)"

definition Log_Len :: "ReplicationLog \<Rightarrow> nat" where
  "Log_Len l = length (rl_entries l)"

definition Log_Snapshot :: "ReplicationLog \<Rightarrow> LogEntry list" where
  "Log_Snapshot l = rl_entries l"

definition Log_TruncateFrom :: "ReplicationLog \<Rightarrow> nat \<Rightarrow> ReplicationLog option" where
  "Log_TruncateFrom l index =
     (if index = 0 \<or> index > rl_nextIndex l then Some l
      else (let p = (if Log_pos l index < 0 then 0 else Log_pos l index)
            in map_option (\<lambda>es. l\<lparr>rl_entries := es, rl_nextIndex := index\<rparr>) (slice_to (rl_entries l) p)))"

section \<open>Raft helpers\<close>

definition Log_TermAt :: "ReplicationLog \<Rightarrow> nat \<Rightarrow> nat option" where
  "Log_TermAt l index =
     (if index = 0 then Some 0
      else if index = rl_snapshotIndex l then Some (rl_snapshotTerm l)
      else if index \<le> rl_snapshotIndex l \<or> index \<ge> rl_nextIndex l then Some 0
      else map_option le_Term (go_at (rl_entries l) (Log_pos l index)))"

definition Log_LastIndexTerm :: "ReplicationLog \<Rightarrow> (nat \<times> nat) option" where
  "Log_LastIndexTerm l =
     (let last = rl_nextIndex l - 1
      in if last = 0 then Some (0, 0)
         else if last = rl_snapshotIndex l then Some (last, rl_snapshotTerm l)
         else map_option (\<lambda>e. (last, le_Term e)) (go_at (rl_entries l) (Log_pos l last)))"

definition Log_Matches :: "ReplicationLog \<Rightarrow> nat \<Rightarrow> nat \<Rightarrow> bool option" where
  "Log_Matches l prevIndex prevTerm =
     (if prevIndex = 0 then Some True
      else if prevIndex = rl_snapshotIndex l then Some (prevTerm = rl_snapshotTerm l)
      else if prevIndex < rl_snapshotIndex l \<or> prevIndex \<ge> rl_nextIndex l then Some False
      else map_option (\<lambda>e. le_Term e = prevTerm) (go_at (rl_entries l) (Log_pos l prevIndex)))"

text \<open>
  \<open>AppendAfter\<close>: \<open>Log_install\<close> is the last \<open>if\<close> of the loop body, \<open>Log_appendOne\<close> the body
  (a \<open>continue\<close> leaves the log as it is) and \<open>Log_appendLoop\<close> the loop.
\<close>

definition Log_install :: "LogEntry \<Rightarrow> ReplicationLog \<Rightarrow> ReplicationLog" where
  "Log_install e l =
     (if le_Index e = rl_nextIndex l
      then l\<lparr>rl_entries := rl_entries l @ [e], rl_nextIndex := rl_nextIndex l + 1\<rparr> else l)"

definition Log_appendOne :: "LogEntry \<Rightarrow> ReplicationLog \<Rightarrow> ReplicationLog option" where
  "Log_appendOne e l =
     (let idx = le_Index e in
      if idx \<le> rl_snapshotIndex l then Some l
      else if idx < rl_nextIndex l then
        (let p = Log_pos l idx in
         case go_at (rl_entries l) p of
           None \<Rightarrow> None
         | Some have_e \<Rightarrow>
             if le_Term have_e = le_Term e then Some l
             else map_option (\<lambda>es. Log_install e (l\<lparr>rl_entries := es, rl_nextIndex := idx\<rparr>))
                    (slice_to (rl_entries l) p))
      else Some (Log_install e l))"

fun Log_appendLoop :: "LogEntry list \<Rightarrow> ReplicationLog \<Rightarrow> ReplicationLog option" where
  "Log_appendLoop [] l = Some l"
| "Log_appendLoop (e # es) l = Option.bind (Log_appendOne e l) (Log_appendLoop es)"

definition Log_AppendAfter :: "ReplicationLog \<Rightarrow> nat \<Rightarrow> LogEntry list \<Rightarrow> (ReplicationLog \<times> nat) option" where
  "Log_AppendAfter l prevIndex entries =
     map_option (\<lambda>l'. (l', rl_nextIndex l' - 1)) (Log_appendLoop entries l)"

definition Log_SnapshotBoundary :: "ReplicationLog \<Rightarrow> nat \<times> nat" where
  "Log_SnapshotBoundary l = (rl_snapshotIndex l, rl_snapshotTerm l)"

definition Log_Compact :: "ReplicationLog \<Rightarrow> nat \<Rightarrow> nat \<Rightarrow> ReplicationLog option" where
  "Log_Compact l uptoIndex term =
     (if uptoIndex \<le> rl_snapshotIndex l then Some l
      else (let upto = (if uptoIndex \<ge> rl_nextIndex l then rl_nextIndex l - 1 else uptoIndex) in
        if upto \<le> rl_snapshotIndex l then Some l
        else (let d = upto - rl_snapshotIndex l;
                  drp = (if d > length (rl_entries l) then length (rl_entries l) else d)
              in Option.bind (go_at (rl_entries l) (int drp - 1)) (\<lambda>e.
                 map_option (\<lambda>es. l\<lparr>rl_snapshotTerm := (if term \<noteq> 0 then term else le_Term e),
                                    rl_entries := es, rl_snapshotIndex := upto\<rparr>)
                   (slice_from (rl_entries l) (int drp))))))"

definition Log_InstallSnapshot :: "ReplicationLog \<Rightarrow> nat \<Rightarrow> nat \<Rightarrow> ReplicationLog" where
  "Log_InstallSnapshot l index term =
     (if index \<le> rl_snapshotIndex l then l
      else l\<lparr>rl_entries := [], rl_snapshotIndex := index, rl_snapshotTerm := term,
             rl_nextIndex := index + 1,
             rl_commitIndex := (if rl_commitIndex l < index then index else rl_commitIndex l)\<rparr>)"

section \<open>The invariant\<close>

text \<open>
  The slice holds exactly the indices strictly between the snapshot boundary and \<open>nextIndex\<close>, and
  each entry knows its own index.
\<close>

definition log_inv :: "ReplicationLog \<Rightarrow> bool" where
  "log_inv l \<longleftrightarrow>
     rl_nextIndex l = rl_snapshotIndex l + 1 + length (rl_entries l) \<and>
     (\<forall>k < length (rl_entries l). le_Index (rl_entries l ! k) = rl_snapshotIndex l + 1 + k)"

text \<open>The entry at an absolute index, and its term: what the methods compute under the invariant.\<close>

definition log_at :: "ReplicationLog \<Rightarrow> nat \<Rightarrow> LogEntry option" where
  "log_at l i =
     (if rl_snapshotIndex l < i \<and> i < rl_nextIndex l
      then Some (rl_entries l ! (i - rl_snapshotIndex l - 1)) else None)"

lemma log_inv_len: "log_inv l \<Longrightarrow> rl_nextIndex l = rl_snapshotIndex l + 1 + length (rl_entries l)"
  by (simp add: log_inv_def)

lemma log_inv_next_pos: "log_inv l \<Longrightarrow> 0 < rl_nextIndex l \<and> rl_snapshotIndex l < rl_nextIndex l"
  by (simp add: log_inv_def)

lemma log_at_Some_index: "log_inv l \<Longrightarrow> log_at l i = Some e \<Longrightarrow> le_Index e = i"
  by (auto simp: log_inv_def log_at_def split: if_splits)

lemma log_at_range: "log_at l i \<noteq> None \<longleftrightarrow> rl_snapshotIndex l < i \<and> i < rl_nextIndex l"
  by (simp add: log_at_def)

lemma pos_at:
  assumes "log_inv l" and "rl_snapshotIndex l < i" and "i < rl_nextIndex l"
  shows "go_at (rl_entries l) (Log_pos l i) = log_at l i"
  using assms by (auto simp: go_at_def Log_pos_def log_at_def log_inv_def nat_diff_distrib)

lemma pos_slice:
  assumes "log_inv l" and "rl_snapshotIndex l < i" and "i \<le> rl_nextIndex l"
  shows "slice_to (rl_entries l) (Log_pos l i) = Some (take (i - rl_snapshotIndex l - 1) (rl_entries l))"
    and "slice_from (rl_entries l) (Log_pos l i) = Some (drop (i - rl_snapshotIndex l - 1) (rl_entries l))"
    and "0 \<le> Log_pos l i"
  using assms by (auto simp: slice_to_def slice_from_def Log_pos_def log_inv_def nat_diff_distrib)

lemma Get_at: "log_inv l \<Longrightarrow> Log_Get l i = Some (log_at l i)"
  using pos_at [of l i] by (auto simp: Log_Get_def log_at_def)

lemma TermAt_at:
  "log_inv l \<Longrightarrow> Log_TermAt l i = Some (if i = 0 then 0 else if i = rl_snapshotIndex l then rl_snapshotTerm l
     else case log_at l i of None \<Rightarrow> 0 | Some e \<Rightarrow> le_Term e)"
  using pos_at [of l i] by (auto simp: Log_TermAt_def log_at_def)

lemma GetFrom_at: "log_inv l \<Longrightarrow> Log_GetFrom l i = Some (drop (i - rl_snapshotIndex l - 1) (rl_entries l))"
  using pos_slice [of l i] pos_slice [of l "rl_snapshotIndex l + 1"] log_inv_len [of l]
  by (auto simp: Log_GetFrom_def Let_def)

lemma LastIndexTerm_at:
  "log_inv l \<Longrightarrow> Log_LastIndexTerm l = map_option (\<lambda>t. (Log_LastIndex l, t)) (Log_TermAt l (Log_LastIndex l))"
  by (auto simp: Log_LastIndexTerm_def Log_TermAt_def Log_LastIndex_def Let_def log_inv_def option.map_comp comp_def)

lemma Matches_at:
  "log_inv l \<Longrightarrow> Log_Matches l i t = Some (i = 0 \<or>
     (i \<noteq> 0 \<and> rl_snapshotIndex l \<le> i \<and> i < rl_nextIndex l \<and> Log_TermAt l i = Some t))"
  using pos_at [of l i] by (auto simp: Log_Matches_def Log_TermAt_def log_inv_def log_at_def)

section \<open>What the operations do under the invariant\<close>

text \<open>Installing an entry after cutting the log just before its index.\<close>

definition cut_append :: "ReplicationLog \<Rightarrow> LogEntry \<Rightarrow> ReplicationLog" where
  "cut_append l e = l\<lparr>rl_entries := take (le_Index e - rl_snapshotIndex l - 1) (rl_entries l) @ [e],
                     rl_nextIndex := le_Index e + 1\<rparr>"

definition log_skips :: "ReplicationLog \<Rightarrow> LogEntry \<Rightarrow> bool" where
  "log_skips l e \<longleftrightarrow> le_Index e \<le> rl_snapshotIndex l \<or> rl_nextIndex l < le_Index e \<or>
     (\<exists>e'. log_at l (le_Index e) = Some e' \<and> le_Term e' = le_Term e)"

lemma appendOne_eq:
  assumes "log_inv l"
  shows "Log_appendOne e l = Some (if log_skips l e then l else cut_append l e)"
proof -
  consider "le_Index e \<le> rl_snapshotIndex l" | "rl_snapshotIndex l < le_Index e" "le_Index e < rl_nextIndex l"
    | "rl_nextIndex l \<le> le_Index e" "rl_snapshotIndex l < le_Index e" by linarith
  then show ?thesis
  proof cases
    case 2
    then obtain e' where at: "log_at l (le_Index e) = Some e'" by (auto simp: log_at_def)
    show ?thesis
      using 2 at pos_at [OF assms 2] pos_slice(1) [OF assms 2(1)]
      by (auto simp: Log_appendOne_def Let_def log_skips_def Log_install_def cut_append_def)
  next
    case 3
    have "log_at l (le_Index e) = None" using 3 by (simp add: log_at_def)
    moreover have "take (rl_nextIndex l - rl_snapshotIndex l - 1) (rl_entries l) = rl_entries l"
      using log_inv_len [OF assms] by simp
    ultimately show ?thesis
      using 3 by (auto simp: Log_appendOne_def Let_def log_skips_def Log_install_def cut_append_def)
  qed (simp add: Log_appendOne_def log_skips_def)
qed

lemma cut_append_inv:
  assumes "log_inv l" and "\<not> log_skips l e"
  shows "log_inv (cut_append l e)"
    and "log_at (cut_append l e) i =
           (if i < le_Index e then log_at l i else if i = le_Index e then Some e else None)"
proof -
  define p where "p = le_Index e - rl_snapshotIndex l - 1"
  have idx: "rl_snapshotIndex l < le_Index e" "le_Index e \<le> rl_nextIndex l"
    using assms(2) by (auto simp: log_skips_def)
  then have p: "p \<le> length (rl_entries l)" "le_Index e = rl_snapshotIndex l + 1 + p"
    using log_inv_len [OF assms(1)] by (auto simp: p_def)
  show "log_inv (cut_append l e)"
    using assms(1) p by (auto simp: log_inv_def cut_append_def nth_append)
  show "log_at (cut_append l e) i =
      (if i < le_Index e then log_at l i else if i = le_Index e then Some e else None)"
    using p log_inv_len [OF assms(1)] by (auto simp: log_at_def cut_append_def nth_append)
qed

lemma appendOne_inv:
  assumes "log_inv l" and "Log_appendOne e l = Some l'"
  shows "log_inv l'" and "rl_snapshotIndex l' = rl_snapshotIndex l" and "rl_snapshotTerm l' = rl_snapshotTerm l"
    and "rl_commitIndex l' = rl_commitIndex l"
  using assms cut_append_inv(1) [OF assms(1)]
  by (auto simp: appendOne_eq split: if_splits) (auto simp: cut_append_def)

lemma appendLoop_inv:
  "log_inv l \<Longrightarrow> \<exists>l'. Log_appendLoop es l = Some l' \<and> log_inv l' \<and> rl_snapshotIndex l' = rl_snapshotIndex l
     \<and> rl_snapshotTerm l' = rl_snapshotTerm l \<and> rl_commitIndex l' = rl_commitIndex l"
proof (induction es arbitrary: l)
  case (Cons e es)
  obtain l1 where l1: "Log_appendOne e l = Some l1" using appendOne_eq [OF Cons.prems] by blast
  note inv = appendOne_inv [OF Cons.prems l1]
  from Cons.IH [OF inv(1)] show ?case using inv l1 by auto
qed simp

text \<open>
  The entries of one message are consecutive: \<open>prev + 1, prev + 2, ...\<close>.
\<close>

fun consecutive_from :: "nat \<Rightarrow> LogEntry list \<Rightarrow> bool" where
  "consecutive_from prev [] = True"
| "consecutive_from prev (e # es) = (le_Index e = prev + 1 \<and> consecutive_from (prev + 1) es)"

lemma appendLoop_spec:
  assumes "log_inv l" and "consecutive_from prev es" and "prev < rl_nextIndex l"
    and "Log_appendLoop es l = Some l'"
  shows "(\<forall>e \<in> set es. rl_snapshotIndex l < le_Index e \<longrightarrow>
            (\<exists>e'. log_at l' (le_Index e) = Some e' \<and> le_Term e' = le_Term e \<and>
                  (e' = e \<or> log_at l (le_Index e) = Some e')))
       \<and> (\<forall>i \<le> prev. log_at l' i = log_at l i)
       \<and> (l' = l \<or> rl_nextIndex l' = prev + length es + 1)
       \<and> prev + length es < rl_nextIndex l'"
  using assms
proof (induction es arbitrary: l prev)
  case (Cons e es)
  have idx: "le_Index e = prev + 1" and rest: "consecutive_from (prev + 1) es"
    using Cons.prems(2) by auto
  obtain l1 where one: "Log_appendOne e l = Some l1" and loop: "Log_appendLoop es l1 = Some l'"
    using Cons.prems(4) by (auto simp: bind_eq_Some_conv)
  have l1: "l1 = (if log_skips l e then l else cut_append l e)"
    using one appendOne_eq [OF Cons.prems(1)] by simp
  note inv = appendOne_inv [OF Cons.prems(1) one]
  note cut = cut_append_inv(2) [OF Cons.prems(1), of e]
  have nxt: "prev + 1 < rl_nextIndex l1"
  proof (cases "log_skips l e")
    case True
    then show ?thesis
      using l1 idx Cons.prems(3) log_inv_next_pos [OF Cons.prems(1)]
      by (auto simp: log_skips_def log_at_def split: if_splits)
  qed (simp add: l1 cut_append_def idx)
  note IH = Cons.IH [OF inv(1) rest nxt loop]
  have e_ok: "\<exists>e'. log_at l1 (le_Index e) = Some e' \<and> le_Term e' = le_Term e
      \<and> (e' = e \<or> log_at l (le_Index e) = Some e')"
    if "rl_snapshotIndex l < le_Index e"
    using that cut Cons.prems(3) idx by (auto simp: l1 log_skips_def)
  have below: "log_at l1 i = log_at l i" if "i \<le> prev" for i
    using that cut idx by (simp add: l1)
  have above: "log_at l i = Some e'" if "log_at l1 i = Some e'" "prev + 1 < i" for i e'
    using that cut idx by (auto simp: l1 split: if_splits)
  have last: "l' = l \<or> rl_nextIndex l' = prev + length (e # es) + 1"
  proof (cases "log_skips l e")
    case False
    have "rl_nextIndex l1 = prev + 2" using False idx by (simp add: l1 cut_append_def)
    then show ?thesis using IH by auto
  qed (use IH l1 in auto)
  have es_ok: "\<exists>e'. log_at l' (le_Index x) = Some e' \<and> le_Term e' = le_Term x
      \<and> (e' = x \<or> log_at l (le_Index x) = Some e')"
    if "x \<in> set es" "rl_snapshotIndex l < le_Index x" for x
  proof -
    have "prev + 1 < le_Index x" using rest that(1)
      by (induction es arbitrary: prev) fastforce+
    then show ?thesis using IH that inv(2) above by fastforce
  qed
  show ?case
    using IH e_ok es_ok below last idx by auto
qed auto

lemma Append_inv:
  assumes "log_inv l"
  shows "log_inv (fst (Log_Append l e))"
    and "log_at (fst (Log_Append l e)) i =
           (if i = rl_nextIndex l then Some (e\<lparr>le_Index := i\<rparr>) else log_at l i)"
    and "snd (Log_Append l e) = rl_nextIndex l"
  using assms by (auto simp: Log_Append_def Let_def log_inv_def log_at_def nth_append)

lemma TruncateFrom_inv:
  assumes "log_inv l" and "index = 0 \<or> rl_snapshotIndex l < index"
  obtains l' where "Log_TruncateFrom l index = Some l'" and "log_inv l'"
    and "rl_nextIndex l' = (if index = 0 then rl_nextIndex l else min index (rl_nextIndex l))"
    and "rl_snapshotIndex l' = rl_snapshotIndex l"
    and "\<And>i. log_at l' i = (if index = 0 \<or> i < index then log_at l i else None)"
proof (cases "index = 0 \<or> rl_nextIndex l < index")
  case True
  then show ?thesis
    by (intro that [of l]) (use assms in \<open>auto simp: Log_TruncateFrom_def log_at_def\<close>)
next
  case False
  define p where "p = index - rl_snapshotIndex l - 1"
  have p: "p \<le> length (rl_entries l)" "index = rl_snapshotIndex l + 1 + p"
    using False assms log_inv_len [OF assms(1)] by (auto simp: p_def)
  have "Log_TruncateFrom l index = Some (l\<lparr>rl_entries := take p (rl_entries l), rl_nextIndex := index\<rparr>)"
    using False assms pos_slice [OF assms(1), of index] by (simp add: Log_TruncateFrom_def Let_def p_def)
  then show ?thesis
    by (rule that) (use assms False p in \<open>auto simp: log_inv_def log_at_def\<close>)
qed

lemma InstallSnapshot_inv: "log_inv l \<Longrightarrow> log_inv (Log_InstallSnapshot l index term)"
  by (auto simp: Log_InstallSnapshot_def log_inv_def)

lemma SetCommitIndex_inv [simp]: "log_inv (Log_SetCommitIndex l i) = log_inv l"
  by (simp add: Log_SetCommitIndex_def log_inv_def)

lemma log_at_SetCommitIndex [simp]: "log_at (Log_SetCommitIndex l c) i = log_at l i"
  by (simp add: Log_SetCommitIndex_def log_at_def)

text \<open>The boundary \<open>Compact\<close> moves to: the requested index, at most the last one, never backwards.\<close>

definition compact_to :: "ReplicationLog \<Rightarrow> nat \<Rightarrow> nat" where
  "compact_to l u_idx = max (rl_snapshotIndex l) (min u_idx (Log_LastIndex l))"

lemma Compact_eq:
  assumes "log_inv l"
  shows "Log_Compact l u_idx term = Some
    (if compact_to l u_idx = rl_snapshotIndex l then l
     else l\<lparr>rl_snapshotTerm := (if term \<noteq> 0 then term else the (Log_TermAt l (compact_to l u_idx))),
            rl_entries := drop (compact_to l u_idx - rl_snapshotIndex l) (rl_entries l),
            rl_snapshotIndex := compact_to l u_idx\<rparr>)"
proof (cases "u_idx \<le> rl_snapshotIndex l \<or> rl_entries l = []")
  case True
  then show ?thesis
    using log_inv_len [OF assms] by (auto simp: Log_Compact_def compact_to_def Log_LastIndex_def Let_def)
next
  case False
  define u where "u = compact_to l u_idx"
  define d where "d = u - rl_snapshotIndex l"
  have len: "rl_nextIndex l = rl_snapshotIndex l + 1 + length (rl_entries l)"
    using assms by (rule log_inv_len)
  have u: "u = (if rl_nextIndex l \<le> u_idx then rl_nextIndex l - 1 else u_idx)"
    using False len by (auto simp: u_def compact_to_def Log_LastIndex_def)
  have d: "0 < d" "d \<le> length (rl_entries l)" "u = rl_snapshotIndex l + d"
    using False len by (auto simp: d_def u)
  have at: "log_at l u = Some (rl_entries l ! (d - 1))"
    using d len by (simp add: log_at_def)
  have "go_at (rl_entries l) (int d - 1) = Some (rl_entries l ! (d - 1))"
    using d by (auto simp: go_at_def nat_diff_distrib)
  moreover have "Log_TermAt l u = Some (le_Term (rl_entries l ! (d - 1)))"
    using TermAt_at [OF assms, of u] at d by simp
  ultimately show ?thesis
    using False d u by (simp add: Log_Compact_def Let_def u_def [symmetric] d_def [symmetric])
qed

lemma compact_to_bounds:
  "log_inv l \<Longrightarrow> rl_snapshotIndex l \<le> compact_to l u_idx \<and> compact_to l u_idx < rl_nextIndex l"
  using log_inv_len [of l] by (auto simp: compact_to_def Log_LastIndex_def)

lemma Compact_inv:
  assumes "log_inv l" and "Log_Compact l u_idx term = Some l'"
  shows "log_inv l'" and "rl_nextIndex l' = rl_nextIndex l" and "rl_snapshotIndex l' = compact_to l u_idx"
    and "log_at l' i = (if compact_to l u_idx < i then log_at l i else None)"
  using assms compact_to_bounds [OF assms(1), of u_idx] unfolding Compact_eq [OF assms(1)]
  by (cases "compact_to l u_idx = rl_snapshotIndex l"; auto simp: log_inv_def log_at_def)+

section \<open>Properties\<close>

text \<open>Every method that changes the log, as data, and the run of a list of calls.\<close>

datatype LogCall = CAppend LogEntry | CSetCommitIndex nat | CTruncateFrom nat
  | CAppendAfter nat "LogEntry list" | CCompact nat nat | CInstallSnapshot nat nat

fun log_call :: "LogCall \<Rightarrow> ReplicationLog \<Rightarrow> ReplicationLog option" where
  "log_call (CAppend e) l = Some (fst (Log_Append l e))"
| "log_call (CSetCommitIndex i) l = Some (Log_SetCommitIndex l i)"
| "log_call (CTruncateFrom i) l = Log_TruncateFrom l i"
| "log_call (CAppendAfter p es) l = map_option fst (Log_AppendAfter l p es)"
| "log_call (CCompact i t) l = Log_Compact l i t"
| "log_call (CInstallSnapshot i t) l = Some (Log_InstallSnapshot l i t)"

text \<open>The one precondition the code does not check: \<open>TruncateFrom\<close> must stay above the snapshot.\<close>

fun call_ok :: "LogCall \<Rightarrow> ReplicationLog \<Rightarrow> bool" where
  "call_ok (CTruncateFrom i) l = (i = 0 \<or> rl_snapshotIndex l < i)"
| "call_ok _ l = True"

text \<open>\<open>run_ok\<close> follows the calls and checks each precondition in the state it meets.\<close>

fun log_run :: "LogCall list \<Rightarrow> ReplicationLog \<Rightarrow> ReplicationLog option" where
  "log_run [] l = Some l"
| "log_run (c # cs) l = Option.bind (log_call c l) (log_run cs)"

fun run_ok :: "LogCall list \<Rightarrow> ReplicationLog \<Rightarrow> bool" where
  "run_ok [] l = True"
| "run_ok (c # cs) l = (call_ok c l \<and> (case log_call c l of None \<Rightarrow> True | Some l' \<Rightarrow> run_ok cs l'))"

lemma log_call_inv:
  assumes "log_inv l" and "call_ok c l"
  shows "\<exists>l'. log_call c l = Some l' \<and> log_inv l'"
proof (cases c)
  case (CTruncateFrom i)
  then show ?thesis using assms by (auto elim: TruncateFrom_inv [of l i])
next
  case (CAppendAfter p es)
  then show ?thesis using appendLoop_inv [OF assms(1), of es] by (auto simp: Log_AppendAfter_def)
next
  case (CCompact i t)
  then show ?thesis using Compact_eq [OF assms(1)] Compact_inv(1) [OF assms(1)] by (metis log_call.simps(5))
qed (use assms Append_inv(1) InstallSnapshot_inv in auto)

lemma log_run_inv:
  "log_inv l \<Longrightarrow> run_ok cs l \<Longrightarrow> \<exists>l'. log_run cs l = Some l' \<and> log_inv l'"
proof (induction cs arbitrary: l)
  case (Cons c cs)
  then obtain l1 where "log_call c l = Some l1" "log_inv l1"
    using log_call_inv [of l c] by auto
  then show ?case using Cons by auto
qed simp

lemma log_inv_New [simp]: "log_inv NewReplicationLog"
  by (simp add: log_inv_def NewReplicationLog_def)





text \<open>Compaction loses no live information: the boundary moves to the requested index (at most the
  last one, never back), every entry above it and the last index are unchanged, and, when the term
  handed in is 0 or the right one, so is the term the log reports at every index from the boundary
  on, which is what the AppendEntries consistency check reads.
\<close>

theorem compact_preserves_suffix:
  assumes "log_inv l" and "term = 0 \<or> Some term = Log_TermAt l (compact_to l upto_idx)"
  shows "\<exists>l'. Log_Compact l upto_idx term = Some l' \<and> log_inv l' \<and>
     rl_snapshotIndex l' = max (rl_snapshotIndex l) (min upto_idx (Log_LastIndex l)) \<and>
     Log_LastIndex l' = Log_LastIndex l \<and>
     (\<forall>i > rl_snapshotIndex l'. Log_Get l' i = Log_Get l i) \<and>
     (\<forall>i \<ge> rl_snapshotIndex l'. \<forall>t. Log_TermAt l' i = Log_TermAt l i \<and> Log_Matches l' i t = Log_Matches l i t)"
proof -
  obtain l' where l': "Log_Compact l upto_idx term = Some l'"
    using Compact_eq [OF assms(1)] by blast
  note inv = Compact_inv [OF assms(1) l']
  have trm: "Log_TermAt l' i = Log_TermAt l i" if "rl_snapshotIndex l' \<le> i" for i
  proof (cases "compact_to l upto_idx = rl_snapshotIndex l \<or> i \<noteq> compact_to l upto_idx")
    case True
    then show ?thesis
      using that inv compact_to_bounds [OF assms(1), of upto_idx] l' TermAt_at [OF assms(1), of i]
        TermAt_at [OF inv(1), of i] by (auto simp: Compact_eq [OF assms(1)])
  next
    case False
    then show ?thesis
      using assms(2) l' TermAt_at [OF assms(1), of i] compact_to_bounds [OF assms(1), of upto_idx]
      by (auto simp: Compact_eq [OF assms(1)] Log_TermAt_def [of "_\<lparr>rl_snapshotIndex := _\<rparr>"])
  qed
  moreover have "Log_Matches l' i t = Log_Matches l i t" if "rl_snapshotIndex l' \<le> i" for i t
    using trm [OF that] that inv(2,3) compact_to_bounds [OF assms(1), of upto_idx]
    by (simp add: Matches_at [OF inv(1)] Matches_at [OF assms(1)])
  ultimately show ?thesis
    using l' inv Get_at [OF inv(1)] Get_at [OF assms(1)] by (simp add: Log_LastIndex_def compact_to_def)
qed

theorem compact_preserves_suffix_witness:
  "let e = \<lambda>i t. \<lparr>le_Index = i, le_Term = t, le_Key = ''k'', le_Value = Some ''v'', le_Op = OpSet,
                 le_Timestamp = 1, le_OriginID = ''n1'', le_VClock = None\<rparr>;
       l = \<lparr>rl_entries = [e 1 1, e 2 2], rl_commitIndex = 2, rl_nextIndex = 3,
            rl_snapshotIndex = 0, rl_snapshotTerm = 0\<rparr>
   in \<exists>l'. Log_Compact l 1 0 = Some l' \<and> rl_snapshotIndex l' = 1 \<and> Log_Get l' 2 = Some (Some (e 2 2)) \<and>
        Log_TermAt l' 1 = Some 1"
proof -
  define e :: "nat \<Rightarrow> nat \<Rightarrow> LogEntry" where
    "e = (\<lambda>i t. \<lparr>le_Index = i, le_Term = t, le_Key = ''k'', le_Value = Some ''v'', le_Op = OpSet,
                le_Timestamp = 1, le_OriginID = ''n1'', le_VClock = None\<rparr>)"
  define l where "l = \<lparr>rl_entries = [e 1 1, e 2 2], rl_commitIndex = 2, rl_nextIndex = 3,
    rl_snapshotIndex = 0, rl_snapshotTerm = 0\<rparr>"
  have "log_inv l"
    by (auto simp: l_def log_inv_def e_def less_Suc_eq)
  moreover have "Log_Get l 2 = Some (Some (e 2 2))" "Log_TermAt l 1 = Some 1" "Log_LastIndex l = 2"
    by (simp_all add: l_def e_def Log_Get_def Log_TermAt_def Log_pos_def go_at_def Log_LastIndex_def)
  ultimately have "\<exists>l'. Log_Compact l 1 0 = Some l' \<and> rl_snapshotIndex l' = 1 \<and>
      Log_Get l' 2 = Some (Some (e 2 2)) \<and> Log_TermAt l' 1 = Some 1"
    using compact_preserves_suffix [of l 0 1] by (auto simp: l_def)
  then show ?thesis unfolding Let_def l_def e_def .
qed

end
