(* ===== verification/HLC.thy ===== *)
theory HLC
  imports Go_Prelude "HOL-Library.Signed_Division"
begin

unbundle bit_operations_syntax

text \<open>
  The hybrid logical clock of \<open>internal/clock/hlc.go\<close>. It computes with \<open>int64\<close> values, so they are
  integers with Go's wrap-around written out: \<open>i64\<close> reduces a result to 64 signed bits. The wall
  clock is outside the program: each call gets the reading \<open>h.now().UnixNano()\<close> as an argument.
\<close>

definition logicalBits :: nat where
  "logicalBits = 16"

definition logicalMask :: int where
  "logicalMask = push_bit logicalBits 1 - 1"

record HLC =
  hlc_lastPhysical :: int
  hlc_logical :: int
  hlc_skewNanos :: int

definition NewHLC :: HLC where
  "NewHLC = \<lparr>hlc_lastPhysical = 0, hlc_logical = 0, hlc_skewNanos = 0\<rparr>"

text \<open>Go's integer division truncates toward zero, as \<open>sdiv\<close> does.\<close>

definition HLC_wallPhysical :: "HLC \<Rightarrow> int \<Rightarrow> int" where
  "HLC_wallPhysical h unixNano = i64 (unixNano + hlc_skewNanos h) sdiv 1000000"

definition encode :: "int \<Rightarrow> int \<Rightarrow> int" where
  "encode physical logical = i64 (push_bit logicalBits physical) OR (logical AND logicalMask)"

text \<open>The loop \<open>for h.logical > logicalMask\<close>, which both methods run: physical and logical part.\<close>

function carry_loop :: "int \<Rightarrow> int \<Rightarrow> int \<times> int" where
  "carry_loop physical logical =
     (if logical > logicalMask then carry_loop (i64 (physical + 1)) (i64 (logical - (logicalMask + 1)))
      else (physical, logical))"
  by pat_completeness auto

lemma mask_num: "logicalMask = 65535"
  by (simp add: logicalMask_def logicalBits_def)

text \<open>
  An \<open>int64\<close> above the mask loses 65536 in each round without wrapping; the measure covers the
  (impossible) larger integers through \<open>i64\<close>, whose results are below \<open>2 ^ 63\<close>.
\<close>

lemma i64_le_pos: "0 \<le> x \<Longrightarrow> i64 x \<le> x"
proof -
  assume "0 \<le> x"
  then have "(x + 2 ^ 63) mod 2 ^ 64 \<le> x + 2 ^ 63"
    by (intro zmod_le_nonneg_dividend) simp
  then show ?thesis by (simp add: i64_def)
qed

termination carry_loop
proof (relation "measure (\<lambda>(p, l). nat l)")
  fix physical logical :: int
  assume "logicalMask < logical"
  then have big: "65535 < logical" by (simp add: mask_num)
  then have "i64 (logical - (logicalMask + 1)) \<le> logical - (logicalMask + 1)"
    by (intro i64_le_pos) (simp add: mask_num)
  with big show "((i64 (physical + 1), i64 (logical - (logicalMask + 1))), (physical, logical))
      \<in> measure (\<lambda>(p, l). nat l)"
    by (simp add: mask_num)
qed simp

declare carry_loop.simps [simp del]

definition HLC_Now :: "HLC \<Rightarrow> int \<Rightarrow> HLC \<times> int" where
  "HLC_Now h unixNano =
     (let wall = HLC_wallPhysical h unixNano;
          h' = (if wall > hlc_lastPhysical h then h\<lparr>hlc_lastPhysical := wall, hlc_logical := 0\<rparr>
                else (let (p, l) = carry_loop (hlc_lastPhysical h) (i64 (hlc_logical h + 1))
                      in h\<lparr>hlc_lastPhysical := p, hlc_logical := l\<rparr>))
      in (h', encode (hlc_lastPhysical h') (hlc_logical h')))"

definition HLC_Update :: "HLC \<Rightarrow> int \<Rightarrow> int \<Rightarrow> HLC \<times> int" where
  "HLC_Update h unixNano remote =
     (let remotePhysical = drop_bit logicalBits remote;
          remoteLogical = remote AND logicalMask;
          wall = HLC_wallPhysical h unixNano;
          newPhysical0 = hlc_lastPhysical h;
          newPhysical1 = (if wall > newPhysical0 then wall else newPhysical0);
          newPhysical = (if remotePhysical > newPhysical1 then remotePhysical else newPhysical1);
          logical = (if newPhysical = hlc_lastPhysical h \<and> newPhysical = remotePhysical
                     then i64 ((if remoteLogical > hlc_logical h then remoteLogical else hlc_logical h) + 1)
                     else if newPhysical = hlc_lastPhysical h then i64 (hlc_logical h + 1)
                     else if newPhysical = remotePhysical then i64 (remoteLogical + 1)
                     else 0);
          (p, l) = carry_loop newPhysical logical;
          h' = h\<lparr>hlc_lastPhysical := p, hlc_logical := l\<rparr>
      in (h', encode p l))"

definition HLC_SetSkewMillis :: "HLC \<Rightarrow> int \<Rightarrow> HLC" where
  "HLC_SetSkewMillis h ms = h\<lparr>hlc_skewNanos := i64 (ms * 1000000)\<rparr>"

definition PhysicalMillis :: "int \<Rightarrow> int" where
  "PhysicalMillis ts = drop_bit logicalBits ts"

definition Logical :: "int \<Rightarrow> int" where
  "Logical ts = ts AND logicalMask"

section \<open>The encoding\<close>

lemma mask_mod: "x AND logicalMask = x mod 65536" for x :: int
  using take_bit_eq_mask [of 16 x] by (simp add: mask_num take_bit_eq_mod mask_eq_exp_minus_1)

lemma drop_div: "drop_bit logicalBits x = x div 65536" for x :: int
  by (simp add: logicalBits_def drop_bit_eq_div)

definition physical_ok :: "int \<Rightarrow> bool" where
  "physical_ok p \<longleftrightarrow> - (2 ^ 47) \<le> p \<and> p < 2 ^ 47"

lemma encode_num:
  assumes "physical_ok p"
  shows "encode p l = p * 65536 + l mod 65536"
proof -
  have "i64 (push_bit logicalBits p) = push_bit 16 p"
    using assms by (subst i64_id) (auto simp: logicalBits_def push_bit_eq_mult physical_ok_def)
  moreover have "push_bit 16 p OR take_bit 16 l = push_bit 16 p + take_bit 16 l"
    using concat_bit_eq [of 16 l p] by (simp add: concat_bit_def or.commute add.commute)
  ultimately show ?thesis
    using mask_mod [of l] by (simp add: encode_def push_bit_eq_mult take_bit_eq_mod)
qed

section \<open>One call\<close>

text \<open>The timestamp a clock state stands for, and the states the clock passes through.\<close>

definition hlc_ts :: "HLC \<Rightarrow> int" where
  "hlc_ts h = hlc_lastPhysical h * 65536 + hlc_logical h"

definition hlc_inv :: "HLC \<Rightarrow> bool" where
  "hlc_inv h \<longleftrightarrow> physical_ok (hlc_lastPhysical h) \<and> 0 \<le> hlc_logical h \<and> hlc_logical h \<le> logicalMask"

lemma carry_loop_one:
  "0 \<le> l \<Longrightarrow> l \<le> 65536 \<Longrightarrow>
   carry_loop p l = (if l = 65536 then (i64 (p + 1), 0) else (p, l))"
  by (simp add: carry_loop.simps [of p l] mask_num carry_loop.simps [of "i64 (p + 1)" 0] i64_id)

text \<open>A wall reading never leaves the range of the 48-bit physical component, whatever the skew.\<close>

lemma wall_ok: "physical_ok (HLC_wallPhysical h w)" "\<bar>HLC_wallPhysical h w\<bar> \<le> 9223372036854"
proof -
  define n where "n = i64 (w + hlc_skewNanos h)"
  have "\<bar>n\<bar> \<le> 2 ^ 63" using i64_range [of "w + hlc_skewNanos h"] by (simp add: n_def)
  then have "\<bar>n\<bar> div 1000000 \<le> 9223372036854" by simp
  moreover have "HLC_wallPhysical h w = sgn n * (\<bar>n\<bar> div 1000000)"
    by (simp add: HLC_wallPhysical_def n_def signed_divide_int_def)
  moreover have "0 \<le> \<bar>n\<bar> div 1000000" by simp
  ultimately show abs: "\<bar>HLC_wallPhysical h w\<bar> \<le> 9223372036854"
    by (simp add: abs_mult abs_sgn_eq)
  then show "physical_ok (HLC_wallPhysical h w)" by (simp add: physical_ok_def abs_le_iff)
qed

lemma emit_carry:
  assumes "physical_ok p" and "0 \<le> l" and "l \<le> 65536" and "p * 65536 + l < 2 ^ 63"
  obtains p' l' where "carry_loop p l = (p', l')" and "physical_ok p'" and "0 \<le> l'" and "l' \<le> 65535"
    and "p' * 65536 + l' = p * 65536 + l" and "encode p' l' = p * 65536 + l"
proof (cases "l = 65536")
  case True
  then have "physical_ok (p + 1)" using assms by (simp add: physical_ok_def)
  moreover have "i64 (p + 1) = p + 1"
    using assms(1) by (intro i64_id) (simp_all add: physical_ok_def)
  ultimately show ?thesis
    using True by (intro that [of "p + 1" 0]) (simp_all add: carry_loop_one encode_num)
next
  case False
  then show ?thesis
    using assms by (intro that [of p l]) (simp_all add: carry_loop_one encode_num)
qed

lemma Now_spec:
  assumes "hlc_inv h" and "hlc_ts h < 2 ^ 63 - 1"
  obtains h' where "HLC_Now h w = (h', hlc_ts h')" and "hlc_inv h'"
    and "hlc_ts h' = (if HLC_wallPhysical h w > hlc_lastPhysical h
                      then HLC_wallPhysical h w * 65536 else hlc_ts h + 1)"
proof (cases "HLC_wallPhysical h w > hlc_lastPhysical h")
  case True
  define h' where "h' = h\<lparr>hlc_lastPhysical := HLC_wallPhysical h w, hlc_logical := 0\<rparr>"
  have "HLC_Now h w = (h', hlc_ts h')" "hlc_inv h'"
    using True wall_ok(1) [of h w]
    by (simp_all add: HLC_Now_def Let_def h'_def encode_num hlc_ts_def hlc_inv_def mask_num)
  then show ?thesis using True by (intro that [of h']) (simp_all add: h'_def hlc_ts_def)
next
  case False
  have l: "physical_ok (hlc_lastPhysical h)" "0 \<le> hlc_logical h + 1" "hlc_logical h + 1 \<le> 65536"
    "hlc_lastPhysical h * 65536 + (hlc_logical h + 1) < 2 ^ 63"
    using assms by (simp_all add: hlc_inv_def hlc_ts_def mask_num)
  then obtain p' l' where c: "carry_loop (hlc_lastPhysical h) (hlc_logical h + 1) = (p', l')"
    "physical_ok p'" "0 \<le> l'" "l' \<le> 65535" "p' * 65536 + l' = hlc_lastPhysical h * 65536 + (hlc_logical h + 1)"
    "encode p' l' = hlc_lastPhysical h * 65536 + (hlc_logical h + 1)"
    by (rule emit_carry)
  show ?thesis
    using False c l(2,3)
    by (intro that [of "h\<lparr>hlc_lastPhysical := p', hlc_logical := l'\<rparr>"])
       (simp_all add: HLC_Now_def Let_def hlc_ts_def hlc_inv_def mask_num i64_id)
qed

lemma Update_spec:
  assumes "hlc_inv h" and "hlc_ts h < 2 ^ 63 - 1" and "- (2 ^ 63) \<le> r" and "r < 2 ^ 63 - 1"
  obtains h' where "HLC_Update h w r = (h', hlc_ts h')" and "hlc_inv h'"
    and "hlc_ts h' = (if HLC_wallPhysical h w > max (hlc_lastPhysical h) (r div 65536)
                      then HLC_wallPhysical h w * 65536 else max (hlc_ts h) r + 1)"
proof -
  define rp rl W lp ll where "rp = r div 65536" and "rl = r mod 65536" and "W = HLC_wallPhysical h w"
    and "lp = hlc_lastPhysical h" and "ll = hlc_logical h"
  note d = rp_def rl_def W_def lp_def ll_def
  have r: "r = rp * 65536 + rl" "0 \<le> rl" "rl \<le> 65535" by (simp_all add: d)
  have rp: "physical_ok rp" using assms(3,4) by (auto simp: physical_ok_def d)
  have lp: "physical_ok lp" "0 \<le> ll" "ll \<le> 65535" "lp * 65536 + ll < 2 ^ 63 - 1"
    using assms(1,2) by (simp_all add: hlc_inv_def d mask_num hlc_ts_def)
  have W: "physical_ok W" "\<bar>W\<bar> \<le> 9223372036854" using wall_ok [of h w] by (simp_all add: d)
  define np where "np = max (max W lp) rp"
  define nl where "nl = (if np = lp \<and> np = rp then max rl ll + 1 else if np = lp then ll + 1
    else if np = rp then rl + 1 else 0)"
  have val: "np * 65536 + nl = (if W > max lp rp then W * 65536 else max (lp * 65536 + ll) r + 1)"
    using r lp by (auto simp: np_def nl_def max_def split: if_splits)
  have nl: "physical_ok np" "0 \<le> nl" "nl \<le> 65536"
    using rp lp W r by (auto simp: np_def nl_def max_def)
  moreover have "np * 65536 + nl < 2 ^ 63" using val assms(4) lp W by (auto simp: max_def)
  ultimately obtain p' l' where c: "carry_loop np nl = (p', l')" "physical_ok p'" "0 \<le> l'" "l' \<le> 65535"
    "p' * 65536 + l' = np * 65536 + nl" "encode p' l' = np * 65536 + nl"
    by (rule emit_carry)
  have run: "HLC_Update h w r = (h\<lparr>hlc_lastPhysical := p', hlc_logical := l'\<rparr>, encode p' l')"
  proof -
    have phys: "(if rp > (if W > lp then W else lp) then rp else (if W > lp then W else lp)) = np"
      by (auto simp: np_def max_def)
    have i: "i64 ((if rl > ll then rl else ll) + 1) = max rl ll + 1" "i64 (ll + 1) = ll + 1" "i64 (rl + 1) = rl + 1"
      using r lp by (auto simp: max_def intro!: i64_id)
    show ?thesis
      unfolding HLC_Update_def Let_def mask_mod drop_div d [symmetric] phys i nl_def [symmetric] c(1) by simp
  qed
  show ?thesis
    by (rule that [of "h\<lparr>hlc_lastPhysical := p', hlc_logical := l'\<rparr>"])
       (use run c val in \<open>simp_all add: hlc_ts_def hlc_inv_def mask_num d\<close>)
qed

text \<open>What a caller needs: each call moves past the clock's last timestamp and past the one it merges, by at
  most one beyond a common bound on the timestamps in use.\<close>

lemma Now_bound:
  assumes "hlc_inv h" and "hlc_ts h \<le> B" and "B < 2 ^ 63 - 1" and "9223372036854 * 65536 \<le> B"
  obtains h' where "HLC_Now h w = (h', hlc_ts h')" "hlc_inv h'" "hlc_ts h < hlc_ts h'" "hlc_ts h' \<le> B + 1"
proof -
  have lt: "hlc_ts h < 2 ^ 63 - 1" using assms(2,3) by simp
  obtain h' where h': "HLC_Now h w = (h', hlc_ts h')" "hlc_inv h'"
    "hlc_ts h' = (if HLC_wallPhysical h w > hlc_lastPhysical h then HLC_wallPhysical h w * 65536 else hlc_ts h + 1)"
    using Now_spec [OF assms(1) lt] by blast
  have "hlc_ts h < hlc_ts h'" "hlc_ts h' \<le> B + 1"
    using h'(3) assms(1,2,4) wall_ok(2) [of h w] by (auto simp: hlc_ts_def hlc_inv_def mask_num)
  then show thesis using that h' by blast
qed

lemma Update_bound:
  assumes "hlc_inv h" and "hlc_ts h \<le> B" and "B < 2 ^ 63 - 1" and "9223372036854 * 65536 \<le> B" and "- (2 ^ 63) \<le> r" and "r \<le> B"
  obtains h' where "HLC_Update h w r = (h', hlc_ts h')" "hlc_inv h'" "hlc_ts h < hlc_ts h'" "hlc_ts h' \<le> B + 1" "r < hlc_ts h'"
proof -
  have lt: "hlc_ts h < 2 ^ 63 - 1" "r < 2 ^ 63 - 1" using assms(2,3,6) by simp_all
  obtain h' where h': "HLC_Update h w r = (h', hlc_ts h')" "hlc_inv h'"
    "hlc_ts h' = (if HLC_wallPhysical h w > max (hlc_lastPhysical h) (r div 65536)
       then HLC_wallPhysical h w * 65536 else max (hlc_ts h) r + 1)"
    using Update_spec [OF assms(1) lt(1) assms(5) lt(2)] by blast
  have "hlc_ts h < hlc_ts h'" "hlc_ts h' \<le> B + 1" "r < hlc_ts h'"
    using h'(3) assms(1,2,4,6) wall_ok(2) [of h w] by (auto simp: hlc_ts_def hlc_inv_def mask_num split: if_splits)
  then show thesis using that h' by blast
qed

lemma hlc_ts_range: "hlc_inv h \<Longrightarrow> - (2 ^ 63) \<le> hlc_ts h"
  by (simp add: hlc_inv_def physical_ok_def hlc_ts_def)

lemma hlc_inv_New: "hlc_inv NewHLC" "hlc_ts NewHLC = 0"
  by (simp_all add: hlc_inv_def NewHLC_def physical_ok_def mask_num hlc_ts_def)

lemma hlc_SetSkew [simp]: "hlc_inv (HLC_SetSkewMillis h ms) = hlc_inv h" "hlc_ts (HLC_SetSkewMillis h ms) = hlc_ts h"
  by (simp_all add: HLC_SetSkewMillis_def hlc_inv_def hlc_ts_def)

section \<open>Properties\<close>

text \<open>
  The calls of one clock, each with the wall reading it meets, and the trace of a run: what remote
  timestamp a call merged (if any) and the timestamp it returned.
\<close>

datatype HLCCall = HNow int | HUpdate int int | HSkew int

fun hlc_run :: "HLCCall list \<Rightarrow> HLC \<Rightarrow> (int option \<times> int) list" where
  "hlc_run [] h = []"
| "hlc_run (HNow w # cs) h = (let (h', t) = HLC_Now h w in (None, t) # hlc_run cs h')"
| "hlc_run (HUpdate w r # cs) h = (let (h', t) = HLC_Update h w r in (Some r, t) # hlc_run cs h')"
| "hlc_run (HSkew ms # cs) h = hlc_run cs (HLC_SetSkewMillis h ms)"

lemma run_above:
  assumes "hlc_inv h" and "hlc_ts h \<le> B" and "B + int (length cs) < 2 ^ 63" and "9223372036854 * 65536 \<le> B"
    and "\<forall>w r. HUpdate w r \<in> set cs \<longrightarrow> - (2 ^ 63) \<le> r \<and> r \<le> B"
  shows "sorted_wrt (<) (hlc_ts h # map snd (hlc_run cs h)) \<and>
         (\<forall>r t. (Some r, t) \<in> set (hlc_run cs h) \<longrightarrow> r < t)"
  using assms
proof (induction cs arbitrary: h B)
  case (Cons c cs)
  have step: "sorted_wrt (<) (hlc_ts h' # map snd (hlc_run cs h')) \<and>
      (\<forall>r t. (Some r, t) \<in> set (hlc_run cs h') \<longrightarrow> r < t)"
    if "hlc_inv h'" "hlc_ts h' \<le> B + 1" for h'
    using that Cons.IH [of h' "B + 1"] Cons.prems(3-5) by fastforce
  have B: "B < 2 ^ 63 - 1" using Cons.prems(3) by simp
  show ?case
  proof (cases c)
    case (HNow w)
    obtain h' where h': "HLC_Now h w = (h', hlc_ts h')" "hlc_inv h'" "hlc_ts h < hlc_ts h'" "hlc_ts h' \<le> B + 1"
      using Now_bound [OF Cons.prems(1,2) B Cons.prems(4)] by blast
    then show ?thesis using step [of h'] HNow by fastforce
  next
    case (HUpdate w r)
    have r: "- (2 ^ 63) \<le> r" "r \<le> B" using Cons.prems(5) HUpdate by auto
    obtain h' where h': "HLC_Update h w r = (h', hlc_ts h')" "hlc_inv h'" "hlc_ts h < hlc_ts h'" "hlc_ts h' \<le> B + 1" "r < hlc_ts h'"
      using Update_bound [OF Cons.prems(1,2) B Cons.prems(4) r] by blast
    then show ?thesis using step [of h'] HUpdate by fastforce
  next
    case (HSkew ms)
    then show ?thesis using step [of "HLC_SetSkewMillis h ms"] Cons.prems(1,2) by simp
  qed
qed simp

text \<open>
  C19. The hybrid clock is strictly monotone and respects causality: over any sequence of \<open>Now\<close>,
  \<open>Update\<close> and \<open>SetSkewMillis\<close> calls, whatever the wall clock reads (it may stand still or run
  backwards) and whatever the skew, the returned timestamps strictly increase and each \<open>Update\<close>
  returns more than the remote timestamp it merged. The 64-bit arithmetic does not wrap as long as
  remote timestamps stay below \<open>2 ^ 62\<close> and there are fewer than \<open>2 ^ 62\<close> calls.
\<close>

theorem hlc_strictly_monotone:
  assumes "\<forall>w r. HUpdate w r \<in> set cs \<longrightarrow> - (2 ^ 63) \<le> r \<and> r < 2 ^ 62" and "length cs < 2 ^ 62"
  shows "sorted_wrt (<) (map snd (hlc_run cs NewHLC)) \<and>
         (\<forall>r t. (Some r, t) \<in> set (hlc_run cs NewHLC) \<longrightarrow> r < t)"
proof -
  have "hlc_inv NewHLC" "hlc_ts NewHLC \<le> 2 ^ 62" by (simp_all add: hlc_inv_New)
  moreover have "(2::int) ^ 62 + int (length cs) < 2 ^ 63"
    using assms(2) by simp
  moreover have "\<forall>w r. HUpdate w r \<in> set cs \<longrightarrow> - (2 ^ 63) \<le> r \<and> r \<le> 2 ^ 62"
    using assms(1) by (auto intro: order_less_imp_le)
  ultimately show ?thesis
    using run_above [of NewHLC "2 ^ 62" cs] by simp
qed

theorem hlc_strictly_monotone_witness:
  "map snd (hlc_run [HNow 5000000, HNow 1000000, HUpdate 0 655360, HSkew 20, HNow 1000000] NewHLC)
     = [327680, 327681, 655361, 1376256] \<and>
   sorted_wrt (<) (map snd (hlc_run [HNow 5000000, HNow 1000000, HUpdate 0 655360, HSkew 20, HNow 1000000] NewHLC))"
proof
  show "sorted_wrt (<) (map snd (hlc_run [HNow 5000000, HNow 1000000, HUpdate 0 655360, HSkew 20, HNow 1000000] NewHLC))"
    by (rule conjunct1 [OF hlc_strictly_monotone]) simp_all
qed code_simp

text \<open>
  C35. The timestamp layout is a round trip and keeps order: for a 48-bit physical part and a 16-bit
  logical part, \<open>PhysicalMillis\<close> and \<open>Logical\<close> recover what \<open>encode\<close> packed, and comparing encoded
  timestamps compares the pairs lexicographically.
\<close>

theorem encode_round_trip:
  assumes "physical_ok p" and "0 \<le> l" and "l \<le> logicalMask"
    and "physical_ok p'" and "0 \<le> l'" and "l' \<le> logicalMask"
  shows "PhysicalMillis (encode p l) = p \<and> Logical (encode p l) = l \<and>
         (encode p l < encode p' l' \<longleftrightarrow> p < p' \<or> p = p' \<and> l < l')"
  using assms unfolding PhysicalMillis_def Logical_def drop_div mask_mod
  by (auto simp: encode_num mask_num)

theorem encode_round_trip_witness:
  "PhysicalMillis (encode (- 7) 65535) = - 7 \<and> Logical (encode (- 7) 65535) = 65535 \<and>
   encode (- 7) 65535 < encode (- 6) 0"
  using encode_round_trip [of "- 7" 65535 "- 6" 0] by (simp add: physical_ok_def mask_num)

end
