(* ===== verification/Quorum.thy ===== *)
theory Quorum
  imports Complex_Main Go_Prelude
begin

text \<open>
  Quorum arithmetic, \<open>internal/quorum/calculator.go\<close>. The configuration fields are Go \<open>int\<close>s; they
  are \<open>int\<close> here (the code only compares and adds small counts), so that negative inputs of
  \<open>IsValid\<close> are covered. The estimate \<open>StaleReadProbability\<close> works in \<open>float64\<close>; it is modelled over the
  reals, that is, up to rounding. The locale \<open>quorum_system\<close> is what the replication protocols use:
  two families of sets that always meet.
\<close>

record QuorumConfig =
  qc_N :: int
  qc_W :: int
  qc_R :: int

datatype QuorumPreset = PresetStrongConsistency | PresetQuorumConsistency | PresetHighAvailability
  | PresetWriteOptimized | PresetReadOptimized | PresetOther string

text \<open>\<open>n/2\<close> truncates toward zero; for the negative inputs that \<open>IsValid\<close> refuses the floor of \<open>div\<close>
  could differ, so the truncation is written out.\<close>

definition half :: "int \<Rightarrow> int" where
  "half n = (if n < 0 then - ((- n) div 2) else n div 2)"

definition Preset :: "QuorumPreset \<Rightarrow> int \<Rightarrow> QuorumConfig" where
  "Preset p n =
     (case p of
        PresetStrongConsistency \<Rightarrow> \<lparr>qc_N = n, qc_W = n, qc_R = 1\<rparr>
      | PresetQuorumConsistency \<Rightarrow> (let q = half n + 1 in \<lparr>qc_N = n, qc_W = q, qc_R = q\<rparr>)
      | PresetHighAvailability \<Rightarrow> \<lparr>qc_N = n, qc_W = 1, qc_R = 1\<rparr>
      | PresetWriteOptimized \<Rightarrow> \<lparr>qc_N = n, qc_W = 1, qc_R = n\<rparr>
      | PresetReadOptimized \<Rightarrow> \<lparr>qc_N = n, qc_W = n, qc_R = 1\<rparr>
      | PresetOther _ \<Rightarrow> (let q = half n + 1 in \<lparr>qc_N = n, qc_W = q, qc_R = q\<rparr>))"

text \<open>The three errors of \<open>IsValid\<close>; \<open>None\<close> is the nil error.\<close>

datatype QuorumError = BadN int | BadW int int | BadR int int

definition QuorumConfig_IsValid :: "QuorumConfig \<Rightarrow> QuorumError option" where
  "QuorumConfig_IsValid q =
     (if qc_N q \<le> 0 then Some (BadN (qc_N q))
      else if qc_W q \<le> 0 \<or> qc_W q > qc_N q then Some (BadW (qc_N q) (qc_W q))
      else if qc_R q \<le> 0 \<or> qc_R q > qc_N q then Some (BadR (qc_N q) (qc_R q))
      else None)"

definition QuorumConfig_IsStronglyConsistent :: "QuorumConfig \<Rightarrow> bool" where
  "QuorumConfig_IsStronglyConsistent q = (qc_W q + qc_R q > qc_N q)"

text \<open>The loop of \<open>choose\<close>: \<open>i\<close> counts up to \<open>k\<close>.\<close>

function choose_loop :: "nat \<Rightarrow> nat \<Rightarrow> nat \<Rightarrow> real \<Rightarrow> real" where
  "choose_loop n k i result =
     (if i < k then choose_loop n k (i + 1) (result * real (n - i) / real (i + 1)) else result)"
  by pat_completeness auto
termination
  by (relation "measure (\<lambda>(n, k, i, r). k - i)") auto

declare choose_loop.simps [simp del]

definition go_choose :: "int \<Rightarrow> int \<Rightarrow> real" where
  "go_choose n k =
     (if k < 0 \<or> k > n then 0
      else if k = 0 \<or> k = n then 1
      else (let k' = (if k > n - k then n - k else k) in choose_loop (nat n) (nat k') 0 1))"

definition QuorumConfig_StaleReadProbability :: "QuorumConfig \<Rightarrow> real" where
  "QuorumConfig_StaleReadProbability q =
     (if QuorumConfig_IsStronglyConsistent q then 0
      else (let nonWritten = qc_N q - qc_W q in
        if nonWritten \<le> 0 then 0
        else (let denom = go_choose (qc_N q) (qc_R q) in
          if denom = 0 then 0 else go_choose nonWritten (qc_R q) / denom)))"

definition QuorumConfig_WriteNodes :: "QuorumConfig \<Rightarrow> int" where
  "QuorumConfig_WriteNodes q = qc_W q"

definition QuorumConfig_ReadNodes :: "QuorumConfig \<Rightarrow> int" where
  "QuorumConfig_ReadNodes q = qc_R q"

definition QuorumConfig_TotalNodes :: "QuorumConfig \<Rightarrow> int" where
  "QuorumConfig_TotalNodes q = qc_N q"

definition QuorumConfig_OverlapCount :: "QuorumConfig \<Rightarrow> int" where
  "QuorumConfig_OverlapCount q =
     (let overlap = qc_W q + qc_R q - qc_N q in if overlap < 0 then 0 else overlap)"

section \<open>Quorum systems\<close>

text \<open>
  What a protocol relies on: a node set, write quorums and read quorums among its subsets, and a
  common node of any write and any read quorum.
\<close>

locale quorum_system =
  fixes nodes :: "'n set" and wq rq :: "'n set \<Rightarrow> bool"
  assumes fin: "finite nodes"
    and meet: "wq A \<Longrightarrow> rq B \<Longrightarrow> A \<subseteq> nodes \<Longrightarrow> B \<subseteq> nodes \<Longrightarrow> A \<inter> B \<noteq> {}"
begin

text \<open>
  A read quorum holds a copy of the newest value some write quorum acknowledged: if every node of a
  write quorum is at stamp \<open>t\<close> or above, so is the maximum over any read quorum.
\<close>

lemma read_sees_write:
  fixes stamp :: "'n \<Rightarrow> 'v::linorder"
  assumes "wq A" "rq B" "A \<subseteq> nodes" "B \<subseteq> nodes" and "\<forall>x \<in> A. t \<le> stamp x"
  shows "t \<le> Max (stamp ` B)"
proof -
  obtain x where "x \<in> A" "x \<in> B" using meet assms(1-4) by blast
  moreover have "finite B" using fin assms(4) finite_subset by blast
  ultimately show ?thesis using assms(5) by (meson Max_ge finite_imageI image_eqI order_trans)
qed

lemma no_two_decisions:
  assumes "wq A" "rq B" "A \<subseteq> nodes" "B \<subseteq> nodes" "\<forall>x \<in> A. f x = a" "\<forall>x \<in> B. f x = b"
  shows "a = b"
  using meet [OF assms(1-4)] assms(5,6) by auto

end

lemma overlap_card:
  assumes "finite nodes" "A \<subseteq> nodes" "B \<subseteq> nodes"
  shows "int (card A) + int (card B) - int (card nodes) \<le> int (card (A \<inter> B))"
proof -
  have "card A + card B = card (A \<union> B) + card (A \<inter> B)"
    using assms by (intro card_Un_Int) (auto intro: finite_subset)
  moreover have "card (A \<union> B) \<le> card nodes"
    using assms by (intro card_mono) auto
  ultimately show ?thesis by linarith
qed

text \<open>
  The quorums of a strongly consistent configuration on at most \<open>N\<close> nodes: any \<open>W\<close> nodes, any \<open>R\<close>
  nodes.
\<close>

definition strong_wq :: "QuorumConfig \<Rightarrow> 'n fset \<Rightarrow> 'n set \<Rightarrow> bool" where
  "strong_wq q ns A \<longleftrightarrow> QuorumConfig_IsStronglyConsistent q \<and> int (fcard ns) \<le> qc_N q \<and>
     QuorumConfig_WriteNodes q \<le> int (card A)"

definition strong_rq :: "QuorumConfig \<Rightarrow> 'n fset \<Rightarrow> 'n set \<Rightarrow> bool" where
  "strong_rq q ns B \<longleftrightarrow> QuorumConfig_ReadNodes q \<le> int (card B)"

interpretation strong: quorum_system "fset ns" "strong_wq q ns" "strong_rq q ns" for q ns
proof
  fix A B
  assume "strong_wq q ns A" "strong_rq q ns B" "A \<subseteq> fset ns" "B \<subseteq> fset ns"
  then have "0 < int (card (A \<inter> B))"
    using overlap_card [of "fset ns" A B]
    by (simp add: strong_wq_def strong_rq_def QuorumConfig_IsStronglyConsistent_def fcard.rep_eq
        QuorumConfig_WriteNodes_def QuorumConfig_ReadNodes_def)
  then show "A \<inter> B \<noteq> {}" by auto
qed simp

section \<open>The binomial loop\<close>

lemma choose_loop_binomial:
  assumes "i \<le> k" and "k \<le> n"
  shows "choose_loop n k i (real (n choose i)) = real (n choose k)"
  using assms
proof (induction "k - i" arbitrary: i)
  case 0
  then show ?case by (simp add: choose_loop.simps [of n i i])
next
  case (Suc d)
  have "real (n choose i) * real (n - i) = real (i + 1) * real (n choose (i + 1))"
    using binomial_absorb_comp [of n i] binomial_absorption [of i n] Suc
    by (metis Suc_eq_plus1 mult.commute of_nat_mult)
  then have "real (n choose i) * real (n - i) / real (i + 1) = real (n choose (i + 1))"
    by (simp add: field_simps)
  then show ?case
    using Suc by (simp add: choose_loop.simps [of n k i])
qed

lemma go_choose_binomial: "0 \<le> k \<Longrightarrow> k \<le> n \<Longrightarrow> go_choose n k = real (nat n choose nat k)"
proof -
  assume k: "0 \<le> k" "k \<le> n"
  have sym: "nat n choose nat (n - k) = nat n choose nat k"
    using k binomial_symmetric [of "nat k" "nat n"] by (simp add: nat_diff_distrib)
  have loop: "choose_loop (nat n) (nat j) 0 1 = real (nat n choose nat j)" if "0 \<le> j" "j \<le> n" for j
    using choose_loop_binomial [of 0 "nat j" "nat n"] that by simp
  show ?thesis
    using k sym loop [of k] loop [of "n - k"] by (auto simp: go_choose_def Let_def)
qed

section \<open>Properties\<close>

lemma valid_bounds:
  "QuorumConfig_IsValid q = None \<longleftrightarrow> 0 < qc_N q \<and> 0 < qc_W q \<and> qc_W q \<le> qc_N q \<and> 0 < qc_R q \<and> qc_R q \<le> qc_N q"
  by (auto simp: QuorumConfig_IsValid_def)

text \<open>
  C36. \<open>IsStronglyConsistent\<close> is exactly quorum overlap: for a valid configuration on \<open>N\<close> nodes, every
  write quorum (any \<open>W\<close> nodes) meets every read quorum (any \<open>R\<close> nodes) if and only if the test says
  so; and any two quorums share at least \<open>OverlapCount\<close> nodes.
\<close>

theorem strong_consistency_is_overlap:
  assumes "QuorumConfig_IsValid q = None" and "finite nodes" and "int (card nodes) = qc_N q"
  shows "(QuorumConfig_IsStronglyConsistent q \<longleftrightarrow>
            (\<forall>A \<subseteq> nodes. \<forall>B \<subseteq> nodes. int (card A) = qc_W q \<longrightarrow> int (card B) = qc_R q \<longrightarrow> A \<inter> B \<noteq> {})) \<and>
         (\<forall>A \<subseteq> nodes. \<forall>B \<subseteq> nodes. int (card A) = qc_W q \<longrightarrow> int (card B) = qc_R q \<longrightarrow>
            QuorumConfig_OverlapCount q \<le> int (card (A \<inter> B)))"
proof (intro conjI iffI allI impI)
  fix A B
  assume AB: "A \<subseteq> nodes" "B \<subseteq> nodes" "int (card A) = qc_W q" "int (card B) = qc_R q"
  note over = overlap_card [OF assms(2) AB(1,2)]
  show "QuorumConfig_OverlapCount q \<le> int (card (A \<inter> B))"
    using over AB assms(3) by (simp add: QuorumConfig_OverlapCount_def Let_def)
  assume "QuorumConfig_IsStronglyConsistent q"
  then have "0 < int (card (A \<inter> B))"
    using over AB assms(3) by (simp add: QuorumConfig_IsStronglyConsistent_def)
  then show "A \<inter> B \<noteq> {}" by auto
next
  assume meet: "\<forall>A \<subseteq> nodes. \<forall>B \<subseteq> nodes. int (card A) = qc_W q \<longrightarrow> int (card B) = qc_R q \<longrightarrow> A \<inter> B \<noteq> {}"
  show "QuorumConfig_IsStronglyConsistent q"
  proof (rule ccontr)
    assume "\<not> ?thesis"
    then have le: "nat (qc_W q) + nat (qc_R q) \<le> card nodes"
      using assms(1,3) unfolding QuorumConfig_IsStronglyConsistent_def valid_bounds by linarith
    obtain A where A: "A \<subseteq> nodes" "card A = nat (qc_W q)"
      using obtain_subset_with_card_n [of "nat (qc_W q)" nodes] le by auto
    have "nat (qc_R q) \<le> card (nodes - A)"
      using A le assms(2) by (simp add: card_Diff_subset finite_subset)
    then obtain B where B: "B \<subseteq> nodes - A" "card B = nat (qc_R q)"
      using obtain_subset_with_card_n by metis
    have "int (card A) = qc_W q" "int (card B) = qc_R q" "B \<subseteq> nodes"
      using A B assms(1) by (auto simp: valid_bounds)
    then have "A \<inter> B \<noteq> {}" using meet A(1) by blast
    then show False using B(1) by blast
  qed
qed

theorem strong_consistency_is_overlap_witness:
  "QuorumConfig_IsStronglyConsistent (Preset PresetQuorumConsistency 3) \<and>
   {0::nat, 1} \<inter> {1, 2} \<noteq> {} \<and>
   QuorumConfig_OverlapCount (Preset PresetQuorumConsistency 3) \<le> int (card ({0::nat, 1} \<inter> {1, 2}))"
proof -
  have "QuorumConfig_IsValid (Preset PresetQuorumConsistency 3) = None"
    "QuorumConfig_IsStronglyConsistent (Preset PresetQuorumConsistency 3)"
    "qc_N (Preset PresetQuorumConsistency 3) = 3" "qc_W (Preset PresetQuorumConsistency 3) = 2"
    "qc_R (Preset PresetQuorumConsistency 3) = 2"
    by code_simp+
  moreover have "{0::nat, 1} \<subseteq> {0, 1, 2}" "{1::nat, 2} \<subseteq> {0, 1, 2}" "int (card {0::nat, 1}) = 2"
    "int (card {1::nat, 2}) = 2" "finite {0::nat, 1, 2}" "int (card {0::nat, 1, 2}) = 3" by simp_all
  ultimately show ?thesis
    using strong_consistency_is_overlap [of "Preset PresetQuorumConsistency 3" "{0::nat, 1, 2}"] by metis
qed

text \<open>The stale-read estimate is the probability it claims to be (over the reals): for a valid
  configuration and any acknowledged write quorum \<open>A\<close>, it is the share of the read quorums of size
  \<open>R\<close> that miss \<open>A\<close> entirely; in particular it is 0 when the configuration is strongly consistent.
\<close>

theorem stale_read_probability_exact:
  assumes "QuorumConfig_IsValid q = None" and "finite nodes" and "int (card nodes) = qc_N q"
    and "A \<subseteq> nodes" and "int (card A) = qc_W q"
  shows "QuorumConfig_StaleReadProbability q =
    real (card {B. B \<subseteq> nodes \<and> card B = nat (qc_R q) \<and> A \<inter> B = {}}) /
    real (card {B. B \<subseteq> nodes \<and> card B = nat (qc_R q)})"
proof -
  define n w r where "n = card nodes" and "w = card A" and "r = nat (qc_R q)"
  have q: "qc_N q = int n" "qc_W q = int w" "qc_R q = int r"
    using assms(1,3,5) by (simp_all add: n_def w_def r_def valid_bounds)
  have le: "0 < w" "w \<le> n" "0 < r" "r \<le> n" using assms(1) by (simp_all add: valid_bounds q)
  have all: "card {B. B \<subseteq> nodes \<and> card B = r} = n choose r"
    using n_subsets [OF assms(2)] by (simp add: n_def)
  have "{B. B \<subseteq> nodes \<and> card B = r \<and> A \<inter> B = {}} = {B. B \<subseteq> nodes - A \<and> card B = r}"
    by auto
  moreover have "card (nodes - A) = n - w"
    using assms(2,4) by (simp add: card_Diff_subset finite_subset n_def w_def)
  ultimately have miss: "card {B. B \<subseteq> nodes \<and> card B = r \<and> A \<inter> B = {}} = (n - w) choose r"
    using n_subsets [of "nodes - A" r] assms(2) by simp
  have c: "go_choose (int n) (int r) = real (n choose r)"
    using go_choose_binomial [of "int r" "int n"] le by simp
  have "QuorumConfig_StaleReadProbability q = real ((n - w) choose r) / real (n choose r)"
  proof (cases "n < w + r")
    case True
    then have "(n - w) choose r = 0" using le by (intro binomial_eq_0) linarith
    then show ?thesis using q True by (simp add: QuorumConfig_StaleReadProbability_def
          QuorumConfig_IsStronglyConsistent_def)
  next
    case False
    have sub: "int n - int w = int (n - w)" using le by simp
    have "go_choose (int n - int w) (int r) = real (nat (int (n - w)) choose nat (int r))"
      unfolding sub using le False by (intro go_choose_binomial) linarith+
    then have "go_choose (int n - int w) (int r) = real ((n - w) choose r)"
      unfolding nat_int .
    then show ?thesis
      using q False le c by (auto simp: QuorumConfig_StaleReadProbability_def Let_def of_nat_diff
          QuorumConfig_IsStronglyConsistent_def)
  qed
  then show ?thesis unfolding r_def [symmetric] all miss .
qed

theorem stale_read_probability_exact_witness:
  "QuorumConfig_StaleReadProbability (Preset PresetHighAvailability 3) =
    real (card {B. B \<subseteq> {0::nat, 1, 2} \<and> card B = 1 \<and> {0} \<inter> B = {}}) /
    real (card {B. B \<subseteq> {0::nat, 1, 2} \<and> card B = 1}) \<and>
   QuorumConfig_StaleReadProbability (Preset PresetHighAvailability 3) = 2 / 3"
proof
  have "QuorumConfig_IsValid (Preset PresetHighAvailability 3) = None"
    "qc_N (Preset PresetHighAvailability 3) = 3" "qc_W (Preset PresetHighAvailability 3) = 1"
    "qc_R (Preset PresetHighAvailability 3) = 1"
    by code_simp+
  then show "QuorumConfig_StaleReadProbability (Preset PresetHighAvailability 3) =
    real (card {B. B \<subseteq> {0::nat, 1, 2} \<and> card B = 1 \<and> {0} \<inter> B = {}}) /
    real (card {B. B \<subseteq> {0::nat, 1, 2} \<and> card B = 1})"
    using stale_read_probability_exact [of "Preset PresetHighAvailability 3" "{0::nat, 1, 2}" "{0}"] by simp
qed code_simp

end
