(* ===== verification/Consistency.thy ===== *)
theory Consistency
  imports VClock "HOL-Library.Signed_Division"
begin

text \<open>
  The session guarantees of \<open>internal/consistency\<close>: read-your-writes, monotonic reads, causal,
  consistent prefix and bounded staleness. Each object keeps a requirement per client and key (or
  per key), checks a proposed read against it and advances it on reads or writes. A violation is a
  value: \<open>ValidateRead\<close> returns \<open>None\<close> for the nil error, or the two clocks the message prints.

  The four clock-based guarantees share one shape, stated as the locale \<open>session_guarantee\<close>: what
  was recorded is joined into a requirement, and a read passes when it dominates the requirement.
  The locale proves once that a read passes exactly when it dominates every recorded entry.
\<close>

section \<open>The objects\<close>

text \<open>\<open>map[string]map[string]VectorClock\<close>; an absent inner map is the nil map.\<close>

type_synonym session_map = "(string, (string, vclock) fmap) fmap"

datatype Violation = Violation vclock "vclock option" | StaleViolation int

text \<open>
  The body the three per-client objects share, line for line: create the inner map, start from a new
  clock when none is stored, store \<open>cur.Clone().Merge(entry.VClock)\<close>. Reading a nil clock ranges
  over the empty map.
\<close>

definition session_merge :: "session_map \<Rightarrow> string \<Rightarrow> KVEntry \<Rightarrow> session_map" where
  "session_merge m clientID entry =
     (let inner = (case fmlookup m clientID of None \<Rightarrow> fmempty | Some keys \<Rightarrow> keys);
          cur = (case fmlookup inner (kv_Key entry) of None \<Rightarrow> NewVectorClock | Some c \<Rightarrow> c)
      in fmupd clientID
           (fmupd (kv_Key entry) (VectorClock_Merge (VectorClock_Clone cur) (vc_of (kv_VClock entry))) inner) m)"

definition session_validate :: "session_map \<Rightarrow> string \<Rightarrow> KVEntry \<Rightarrow> Violation option" where
  "session_validate m clientID proposed =
     (case fmlookup m clientID of None \<Rightarrow> None
      | Some keys \<Rightarrow> (case fmlookup keys (kv_Key proposed) of None \<Rightarrow> None
         | Some required \<Rightarrow>
             if \<not> VectorClock_Dominates (vc_of (kv_VClock proposed)) required
             then Some (Violation required (kv_VClock proposed)) else None))"

definition ReadYourWrites_ValidateRead :: "session_map \<Rightarrow> string \<Rightarrow> KVEntry \<Rightarrow> Violation option" where
  "ReadYourWrites_ValidateRead r clientID proposed = session_validate r clientID proposed"

definition ReadYourWrites_RecordRead :: "session_map \<Rightarrow> string \<Rightarrow> KVEntry \<Rightarrow> session_map" where
  "ReadYourWrites_RecordRead r clientID entry = r"

definition ReadYourWrites_RecordWrite :: "session_map \<Rightarrow> string \<Rightarrow> KVEntry \<Rightarrow> session_map" where
  "ReadYourWrites_RecordWrite r clientID entry = session_merge r clientID entry"

definition MonotonicReads_ValidateRead :: "session_map \<Rightarrow> string \<Rightarrow> KVEntry \<Rightarrow> Violation option" where
  "MonotonicReads_ValidateRead m clientID proposed = session_validate m clientID proposed"

definition MonotonicReads_RecordRead :: "session_map \<Rightarrow> string \<Rightarrow> KVEntry \<Rightarrow> session_map" where
  "MonotonicReads_RecordRead m clientID entry = session_merge m clientID entry"

definition MonotonicReads_RecordWrite :: "session_map \<Rightarrow> string \<Rightarrow> KVEntry \<Rightarrow> session_map" where
  "MonotonicReads_RecordWrite m clientID entry = m"

definition CausalConsistency_ValidateRead :: "session_map \<Rightarrow> string \<Rightarrow> KVEntry \<Rightarrow> Violation option" where
  "CausalConsistency_ValidateRead c clientID proposed = session_validate c clientID proposed"

text \<open>\<open>record\<close> of the causal object ignores a nil entry (the \<open>None\<close> argument) and a nil clock.\<close>

definition CausalConsistency_record :: "session_map \<Rightarrow> string \<Rightarrow> KVEntry option \<Rightarrow> session_map" where
  "CausalConsistency_record c clientID entry =
     (case entry of None \<Rightarrow> c
      | Some e \<Rightarrow> (if kv_VClock e = None then c else session_merge c clientID e))"

definition CausalConsistency_RecordRead :: "session_map \<Rightarrow> string \<Rightarrow> KVEntry option \<Rightarrow> session_map" where
  "CausalConsistency_RecordRead c clientID entry = CausalConsistency_record c clientID entry"

definition CausalConsistency_RecordWrite :: "session_map \<Rightarrow> string \<Rightarrow> KVEntry option \<Rightarrow> session_map" where
  "CausalConsistency_RecordWrite c clientID entry = CausalConsistency_record c clientID entry"

type_synonym frontier_map = "(string, vclock) fmap"

definition ConsistentPrefix_ValidateRead :: "frontier_map \<Rightarrow> string \<Rightarrow> KVEntry \<Rightarrow> Violation option" where
  "ConsistentPrefix_ValidateRead c clientID proposed =
     (case fmlookup c (kv_Key proposed) of None \<Rightarrow> None
      | Some seen \<Rightarrow>
          if \<not> VectorClock_Dominates (vc_of (kv_VClock proposed)) seen
          then Some (Violation seen (kv_VClock proposed)) else None)"

definition ConsistentPrefix_advance :: "frontier_map \<Rightarrow> KVEntry \<Rightarrow> frontier_map" where
  "ConsistentPrefix_advance c entry =
     (let cur = (case fmlookup c (kv_Key entry) of None \<Rightarrow> NewVectorClock | Some v \<Rightarrow> v)
      in fmupd (kv_Key entry) (VectorClock_Merge (VectorClock_Clone cur) (vc_of (kv_VClock entry))) c)"

definition ConsistentPrefix_RecordRead :: "frontier_map \<Rightarrow> string \<Rightarrow> KVEntry \<Rightarrow> frontier_map" where
  "ConsistentPrefix_RecordRead c clientID entry = ConsistentPrefix_advance c entry"

definition ConsistentPrefix_RecordWrite :: "frontier_map \<Rightarrow> string \<Rightarrow> KVEntry \<Rightarrow> frontier_map" where
  "ConsistentPrefix_RecordWrite c clientID entry = ConsistentPrefix_advance c entry"

record BoundedStaleness =
  bs_MaxLagMillis :: int
  bs_freshest :: "(string, int) fmap"

definition NewBoundedStaleness :: "int \<Rightarrow> BoundedStaleness" where
  "NewBoundedStaleness maxLagMillis =
     \<lparr>bs_MaxLagMillis = (if maxLagMillis \<le> 0 then 1000 else maxLagMillis), bs_freshest = fmempty\<rparr>"

definition BoundedStaleness_ValidateRead :: "BoundedStaleness \<Rightarrow> string \<Rightarrow> KVEntry \<Rightarrow> Violation option" where
  "BoundedStaleness_ValidateRead b clientID proposed =
     (case fmlookup (bs_freshest b) (kv_Key proposed) of None \<Rightarrow> None
      | Some newest \<Rightarrow>
          (let lagMs = (newest - kv_Timestamp proposed) sdiv 1000000
           in if lagMs > bs_MaxLagMillis b then Some (StaleViolation lagMs) else None))"

definition BoundedStaleness_RecordWrite :: "BoundedStaleness \<Rightarrow> string \<Rightarrow> KVEntry option \<Rightarrow> BoundedStaleness" where
  "BoundedStaleness_RecordWrite b clientID entry =
     (case entry of None \<Rightarrow> b
      | Some e \<Rightarrow>
          if kv_Timestamp e > zget (bs_freshest b) (kv_Key e)
          then b\<lparr>bs_freshest := fmupd (kv_Key e) (kv_Timestamp e) (bs_freshest b)\<rparr> else b)"

section \<open>The contract of the clock-based guarantees\<close>

text \<open>The events of a history, and the causal order of entries.\<close>

datatype SessionEvent = ReadEv (ev_client: string) (ev_entry: KVEntry)
  | WriteEv (ev_client: string) (ev_entry: KVEntry)

definition entry_dominates :: "KVEntry \<Rightarrow> KVEntry \<Rightarrow> bool" where
  "entry_dominates p e \<longleftrightarrow> VectorClock_Dominates (vc_of (kv_VClock p)) (vc_of (kv_VClock e))"

text \<open>
  A guarantee has a state, a step per event, a test for a proposed read of a client, and a notion of
  which events bind which client. One step adds exactly one requirement.
\<close>

locale session_guarantee =
  fixes init :: 's and step :: "SessionEvent \<Rightarrow> 's \<Rightarrow> 's" and validate :: "'s \<Rightarrow> string \<Rightarrow> KVEntry \<Rightarrow> Violation option"
    and binds :: "string \<Rightarrow> SessionEvent \<Rightarrow> bool"
  assumes validate_init: "validate init c p = None"
    and validate_step: "validate (step ev s) c p = None \<longleftrightarrow>
      validate s c p = None \<and> (binds c ev \<and> kv_Key (ev_entry ev) = kv_Key p \<longrightarrow> entry_dominates p (ev_entry ev))"
begin

lemma validate_fold:
  "validate (fold step evs s) c p = None \<longleftrightarrow> validate s c p = None \<and>
     (\<forall>ev \<in> set evs. binds c ev \<and> kv_Key (ev_entry ev) = kv_Key p \<longrightarrow> entry_dominates p (ev_entry ev))"
  by (induction evs arbitrary: s) (auto simp: validate_step)

lemma validate_exact:
  "validate (fold step evs init) c p = None \<longleftrightarrow>
     (\<forall>ev \<in> set evs. binds c ev \<and> kv_Key (ev_entry ev) = kv_Key p \<longrightarrow> entry_dominates p (ev_entry ev))"
  by (simp add: validate_fold validate_init)

end

lemma Dominates_Merge: "VectorClock_Dominates c (VectorClock_Merge a b) \<longleftrightarrow>
    VectorClock_Dominates c a \<and> VectorClock_Dominates c b"
  using vc.join_le_iff .

lemma Dominates_New [simp]: "VectorClock_Dominates c fmempty" "VectorClock_Dominates c NewVectorClock"
  by (simp_all add: Dominates_iff NewVectorClock_def)

lemma session_validate_merge:
  "session_validate (session_merge m c' e) c p = None \<longleftrightarrow>
     session_validate m c p = None \<and> (c' = c \<and> kv_Key e = kv_Key p \<longrightarrow> entry_dominates p e)"
  by (auto simp: session_validate_def session_merge_def Let_def Dominates_Merge entry_dominates_def
      split: option.splits if_splits)

lemma session_validate_empty [simp]: "session_validate fmempty c p = None"
  by (simp add: session_validate_def)

lemma causal_validate_record:
  "session_validate (CausalConsistency_record m c' (Some e)) c p = None \<longleftrightarrow>
     session_validate m c p = None \<and> (c' = c \<and> kv_Key e = kv_Key p \<longrightarrow> entry_dominates p e)"
  using session_validate_merge [of m c' e c p]
  by (auto simp: CausalConsistency_record_def entry_dominates_def)

lemma prefix_validate_advance:
  "ConsistentPrefix_ValidateRead (ConsistentPrefix_advance m e) c p = None \<longleftrightarrow>
     ConsistentPrefix_ValidateRead m c p = None \<and> (kv_Key e = kv_Key p \<longrightarrow> entry_dominates p e)"
  by (auto simp: ConsistentPrefix_ValidateRead_def ConsistentPrefix_advance_def Let_def Dominates_Merge
      entry_dominates_def split: option.splits if_splits)

fun ryw_step :: "SessionEvent \<Rightarrow> session_map \<Rightarrow> session_map" where
  "ryw_step (ReadEv c e) s = ReadYourWrites_RecordRead s c e"
| "ryw_step (WriteEv c e) s = ReadYourWrites_RecordWrite s c e"

fun mono_step :: "SessionEvent \<Rightarrow> session_map \<Rightarrow> session_map" where
  "mono_step (ReadEv c e) s = MonotonicReads_RecordRead s c e"
| "mono_step (WriteEv c e) s = MonotonicReads_RecordWrite s c e"

fun causal_step :: "SessionEvent \<Rightarrow> session_map \<Rightarrow> session_map" where
  "causal_step (ReadEv c e) s = CausalConsistency_RecordRead s c (Some e)"
| "causal_step (WriteEv c e) s = CausalConsistency_RecordWrite s c (Some e)"

fun prefix_step :: "SessionEvent \<Rightarrow> frontier_map \<Rightarrow> frontier_map" where
  "prefix_step (ReadEv c e) s = ConsistentPrefix_RecordRead s c e"
| "prefix_step (WriteEv c e) s = ConsistentPrefix_RecordWrite s c e"

fun is_write :: "SessionEvent \<Rightarrow> bool" where
  "is_write (ReadEv c e) = False"
| "is_write (WriteEv c e) = True"

interpretation ryw: session_guarantee fmempty ryw_step ReadYourWrites_ValidateRead
  "\<lambda>c ev. ev_client ev = c \<and> is_write ev"
proof
  show "ReadYourWrites_ValidateRead (ryw_step ev s) c p = None \<longleftrightarrow> ReadYourWrites_ValidateRead s c p = None \<and>
      ((ev_client ev = c \<and> is_write ev) \<and> kv_Key (ev_entry ev) = kv_Key p \<longrightarrow> entry_dominates p (ev_entry ev))"
    for ev s c p
    by (cases ev) (simp_all add: ReadYourWrites_ValidateRead_def ReadYourWrites_RecordRead_def
        ReadYourWrites_RecordWrite_def session_validate_merge)
qed (simp add: ReadYourWrites_ValidateRead_def)

interpretation mono: session_guarantee fmempty mono_step MonotonicReads_ValidateRead
  "\<lambda>c ev. ev_client ev = c \<and> \<not> is_write ev"
proof
  show "MonotonicReads_ValidateRead (mono_step ev s) c p = None \<longleftrightarrow> MonotonicReads_ValidateRead s c p = None \<and>
      ((ev_client ev = c \<and> \<not> is_write ev) \<and> kv_Key (ev_entry ev) = kv_Key p \<longrightarrow> entry_dominates p (ev_entry ev))"
    for ev s c p
    by (cases ev) (simp_all add: MonotonicReads_ValidateRead_def MonotonicReads_RecordRead_def
        MonotonicReads_RecordWrite_def session_validate_merge)
qed (simp add: MonotonicReads_ValidateRead_def)

interpretation causal: session_guarantee fmempty causal_step CausalConsistency_ValidateRead
  "\<lambda>c ev. ev_client ev = c"
proof
  show "CausalConsistency_ValidateRead (causal_step ev s) c p = None \<longleftrightarrow> CausalConsistency_ValidateRead s c p = None \<and>
      (ev_client ev = c \<and> kv_Key (ev_entry ev) = kv_Key p \<longrightarrow> entry_dominates p (ev_entry ev))"
    for ev s c p
    by (cases ev) (simp_all add: CausalConsistency_ValidateRead_def CausalConsistency_RecordRead_def
        CausalConsistency_RecordWrite_def causal_validate_record)
qed (simp add: CausalConsistency_ValidateRead_def)

interpretation prefix: session_guarantee fmempty prefix_step ConsistentPrefix_ValidateRead "\<lambda>c ev. True"
proof
  show "ConsistentPrefix_ValidateRead (prefix_step ev s) c p = None \<longleftrightarrow> ConsistentPrefix_ValidateRead s c p = None \<and>
      (True \<and> kv_Key (ev_entry ev) = kv_Key p \<longrightarrow> entry_dominates p (ev_entry ev))"
    for ev s c p
    by (cases ev) (simp_all add: ConsistentPrefix_RecordRead_def ConsistentPrefix_RecordWrite_def
        prefix_validate_advance)
qed (simp add: ConsistentPrefix_ValidateRead_def)

section \<open>Properties\<close>



text \<open>
  A client session under one guarantee: each proposed read is validated, and recorded when it
  passes; the result lists the reads the client saw.
\<close>

fun mono_session :: "string \<Rightarrow> KVEntry list \<Rightarrow> session_map \<Rightarrow> KVEntry list" where
  "mono_session c [] s = []"
| "mono_session c (p # ps) s =
     (if MonotonicReads_ValidateRead s c p = None
      then p # mono_session c ps (MonotonicReads_RecordRead s c p)
      else mono_session c ps s)"

lemma mono_session_chain:
  "sorted_wrt (\<lambda>a b. kv_Key a = kv_Key b \<longrightarrow> entry_dominates b a) (mono_session c ps s) \<and>
   (\<forall>p \<in> set (mono_session c ps s). MonotonicReads_ValidateRead s c p = None)"
proof (induction ps arbitrary: s)
  case (Cons p ps)
  have step: "MonotonicReads_ValidateRead (MonotonicReads_RecordRead s c p) c q = None \<longleftrightarrow>
      MonotonicReads_ValidateRead s c q = None \<and> (kv_Key p = kv_Key q \<longrightarrow> entry_dominates q p)" for q
    using mono.validate_step [of "ReadEv c p" s c q] by simp
  show ?case using Cons.IH [of s] Cons.IH [of "MonotonicReads_RecordRead s c p"] by (auto simp: step)
qed simp

text \<open>
  Monotonic reads: whatever versions replicas propose to a client, the reads it accepts on one
  key form a causally non-decreasing chain.
\<close>

theorem monotonic_reads_chain:
  "sorted_wrt (\<lambda>a b. kv_Key a = kv_Key b \<longrightarrow> entry_dominates b a) (mono_session c ps fmempty)"
  using mono_session_chain by blast

theorem monotonic_reads_chain_witness:
  "let e = \<lambda>n. \<lparr>kv_Key = ''k'', kv_Value = Some ''v'', kv_VClock = Some (fmap_of_list [(''a'', n)]),
                kv_Timestamp = 0, kv_NodeID = ''a'', kv_Tombstone = False, kv_Version = 0\<rparr>
   in mono_session ''c'' [e 2, e 1, e 4] fmempty = [e 2, e 4] \<and> entry_dominates (e 4) (e 2)"
proof -
  define e :: "u64 \<Rightarrow> KVEntry" where
    "e = (\<lambda>n. \<lparr>kv_Key = ''k'', kv_Value = Some ''v'', kv_VClock = Some (fmap_of_list [(''a'', n)]),
                kv_Timestamp = 0, kv_NodeID = ''a'', kv_Tombstone = False, kv_Version = 0\<rparr>)"
  have run: "mono_session ''c'' [e 2, e 1, e 4] fmempty = [e 2, e 4]"
    unfolding e_def by code_simp
  have "kv_Key (e 2) = kv_Key (e 4)" by (simp add: e_def)
  then have "mono_session ''c'' [e 2, e 1, e 4] fmempty = [e 2, e 4] \<and> entry_dominates (e 4) (e 2)"
    using run monotonic_reads_chain [of "''c''" "[e 2, e 1, e 4]"] by simp
  then show ?thesis unfolding Let_def e_def .
qed

section \<open>Bounded staleness\<close>

lemma sdiv_gt_iff:
  assumes "0 \<le> m"
  shows "(x::int) sdiv 1000000 > m \<longleftrightarrow> x \<ge> (m + 1) * 1000000"
proof (cases "0 \<le> x")
  case True
  then have "x sdiv 1000000 = x div 1000000" by (auto simp: signed_divide_int_def sgn_if)
  then show ?thesis using zdiv_mono1 [of "(m + 1) * 1000000" x 1000000] by auto
next
  case False
  then have "x sdiv 1000000 = - ((- x) div 1000000)" by (simp add: signed_divide_int_def sgn_if)
  moreover have "0 \<le> (- x) div 1000000" using False by simp
  ultimately show ?thesis using False assms by auto
qed

text \<open>Within the bound: less than one whole millisecond beyond it, since the code compares whole milliseconds.\<close>

definition within_bound :: "BoundedStaleness \<Rightarrow> KVEntry \<Rightarrow> KVEntry \<Rightarrow> bool" where
  "within_bound b e p \<longleftrightarrow> kv_Timestamp e - kv_Timestamp p < (bs_MaxLagMillis b + 1) * 1000000"

lemma staleness_step:
  assumes "0 < kv_Timestamp e" and "0 \<le> bs_MaxLagMillis b"
  shows "BoundedStaleness_ValidateRead (BoundedStaleness_RecordWrite b c' (Some e)) c p = None \<longleftrightarrow>
     BoundedStaleness_ValidateRead b c p = None \<and> (kv_Key e = kv_Key p \<longrightarrow> within_bound b e p)"
  using assms
  by (auto simp: BoundedStaleness_ValidateRead_def BoundedStaleness_RecordWrite_def Let_def within_bound_def
      zget_def sdiv_gt_iff not_less split: option.splits if_splits)

lemma staleness_fold:
  "\<forall>e \<in> set es. 0 < kv_Timestamp e \<Longrightarrow> 0 \<le> bs_MaxLagMillis b \<Longrightarrow>
   BoundedStaleness_ValidateRead (fold (\<lambda>e b. BoundedStaleness_RecordWrite b c' (Some e)) es b) c p = None \<longleftrightarrow>
   BoundedStaleness_ValidateRead b c p = None \<and> (\<forall>e \<in> set es. kv_Key e = kv_Key p \<longrightarrow> within_bound b e p)"
proof (induction es arbitrary: b)
  case (Cons e es)
  have "bs_MaxLagMillis (BoundedStaleness_RecordWrite b c' (Some e)) = bs_MaxLagMillis b"
    by (simp add: BoundedStaleness_RecordWrite_def)
  then show ?case
    using Cons staleness_step [of e b c' c p] by (auto simp: within_bound_def)
qed simp

text \<open>Bounded staleness: after any writes with positive timestamps, a read is accepted exactly when,
  for every recorded write to its key, its value lags that write by less than one millisecond more
  than the bound.
\<close>

theorem bounded_staleness_exact:
  assumes "\<forall>e \<in> set es. 0 < kv_Timestamp e"
  shows "BoundedStaleness_ValidateRead
           (fold (\<lambda>e b. BoundedStaleness_RecordWrite b c' (Some e)) es (NewBoundedStaleness lag)) c p = None \<longleftrightarrow>
         (\<forall>e \<in> set es. kv_Key e = kv_Key p \<longrightarrow> within_bound (NewBoundedStaleness lag) e p)"
  using staleness_fold [OF assms, of "NewBoundedStaleness lag"]
  by (simp add: NewBoundedStaleness_def BoundedStaleness_ValidateRead_def)

theorem bounded_staleness_exact_witness:
  "let e = \<lambda>t. \<lparr>kv_Key = ''k'', kv_Value = Some ''v'', kv_VClock = None,
                kv_Timestamp = t, kv_NodeID = ''a'', kv_Tombstone = False, kv_Version = 0\<rparr>
   in BoundedStaleness_ValidateRead
        (fold (\<lambda>e b. BoundedStaleness_RecordWrite b ''w'' (Some e)) [e 1000000000] (NewBoundedStaleness 100)) ''c''
        (e 899000001) = None"
proof -
  define e :: "int \<Rightarrow> KVEntry" where
    "e = (\<lambda>t. \<lparr>kv_Key = ''k'', kv_Value = Some ''v'', kv_VClock = None,
                kv_Timestamp = t, kv_NodeID = ''a'', kv_Tombstone = False, kv_Version = 0\<rparr>)"
  have "\<forall>x \<in> set [e 1000000000]. 0 < kv_Timestamp x" by (simp add: e_def)
  moreover have "within_bound (NewBoundedStaleness 100) (e 1000000000) (e 899000001)"
    by (simp add: within_bound_def NewBoundedStaleness_def e_def)
  ultimately have "BoundedStaleness_ValidateRead
        (fold (\<lambda>e b. BoundedStaleness_RecordWrite b ''w'' (Some e)) [e 1000000000] (NewBoundedStaleness 100)) ''c''
        (e 899000001) = None"
    using bounded_staleness_exact [of "[e 1000000000]" "''w''" 100 "''c''" "e 899000001"] by simp
  then show ?thesis unfolding Let_def e_def .
qed

end
