(* ===== verification/CRDT.thy ===== *)
theory CRDT
  imports VClock
begin

text \<open>
  The state-based replicated data types of \<open>internal/conflict/crdt.go\<close> and \<open>crdt_types.go\<close>: the
  last-write-wins register, grow-only and positive-negative counters, the observed-remove set and
  the last-write-wins map. Each \<open>Merge\<close> is interpreted as the locale \<open>merge_crdt\<close> on the states the
  program builds, which gives strong eventual consistency of every type from one proof.
\<close>

definition GCounterType :: string where "GCounterType = ''gcounter''"
definition PNCounterType :: string where "PNCounterType = ''pncounter''"
definition ORSetType :: string where "ORSetType = ''orset''"
definition LWWMapType :: string where "LWWMapType = ''lwwmap''"

section \<open>Last-write-wins register\<close>

record LWWRegister =
  lr_Value :: bytes
  lr_Timestamp :: int
  lr_NodeID :: node_id

text \<open>
  The method returns one of its two pointers; the type is left open to extensions of the record, so
  that a caller can tell the pointers apart.
\<close>

definition LWWRegister_Merge :: "'p LWWRegister_scheme \<Rightarrow> 'p LWWRegister_scheme \<Rightarrow> 'p LWWRegister_scheme" where
  "LWWRegister_Merge r other =
     (if lr_Timestamp other > lr_Timestamp r then other
      else if lr_Timestamp other = lr_Timestamp r \<and> lr_NodeID other > lr_NodeID r then other
      else r)"

section \<open>Counters\<close>

record GCounter =
  gc_Type :: string
  gc_Counts :: "(node_id, u64) fmap"

definition NewGCounter :: GCounter where
  "NewGCounter = \<lparr>gc_Type = GCounterType, gc_Counts = fmempty\<rparr>"

definition GCounter_Increment :: "GCounter \<Rightarrow> node_id \<Rightarrow> GCounter" where
  "GCounter_Increment g nodeID = g\<lparr>gc_Counts := fmupd nodeID (zget (gc_Counts g) nodeID + 1) (gc_Counts g)\<rparr>"

definition GCounter_Value :: "GCounter \<Rightarrow> u64" where
  "GCounter_Value g = go_range (\<lambda>k v sum. sum + v) (gc_Counts g) 0"

definition GCounter_Merge :: "GCounter \<Rightarrow> GCounter \<Rightarrow> GCounter" where
  "GCounter_Merge g other =
     (let result = go_range (\<lambda>k v m. fmupd k v m) (gc_Counts g) fmempty
      in \<lparr>gc_Type = GCounterType,
          gc_Counts = go_range (\<lambda>k v m. if v > zget m k then fmupd k v m else m) (gc_Counts other) result\<rparr>)"

record PNCounter =
  pn_Type :: string
  pn_P :: "(node_id, u64) fmap"
  pn_N :: "(node_id, u64) fmap"

text \<open>\<open>int64(v)\<close> reinterprets the bits of a \<open>uint64\<close>.\<close>

definition PNCounter_Value :: "PNCounter \<Rightarrow> int" where
  "PNCounter_Value a =
     (let sum = go_range (\<lambda>k v sum. i64 (sum + i64 (uint v))) (pn_P a) 0
      in go_range (\<lambda>k v sum. i64 (sum - i64 (uint v))) (pn_N a) sum)"

definition PNCounter_Merge :: "PNCounter \<Rightarrow> PNCounter \<Rightarrow> PNCounter" where
  "PNCounter_Merge a b =
     (let grow = (\<lambda>k v m. if v > zget m k then fmupd k v m else m)
      in \<lparr>pn_Type = PNCounterType,
          pn_P = fold (\<lambda>src m. go_range grow src m) [pn_P a, pn_P b] fmempty,
          pn_N = fold (\<lambda>src m. go_range grow src m) [pn_N a, pn_N b] fmempty\<rparr>)"

section \<open>Observed-remove set\<close>

record ORSet =
  os_Type :: string
  os_Adds :: "(string, string list) fmap"
  os_Removes :: "(string, bool) fmap"

definition ORSet_Elements :: "ORSet \<Rightarrow> string list" where
  "ORSet_Elements a =
     sort (go_range (\<lambda>el tags out. if list_ex (\<lambda>t. \<not> bget (os_Removes a) t) tags then out @ [el] else out)
             (os_Adds a) [])"

text \<open>
  The local closure \<open>add\<close>: the state is the pair of \<open>seen\<close> and \<open>out.Adds\<close>; a nil inner map reads as
  empty.
\<close>

type_synonym seen_map = "(string, (string, bool) fmap) fmap"

definition seen_get :: "seen_map \<Rightarrow> string \<Rightarrow> (string, bool) fmap" where
  "seen_get seen el = (case fmlookup seen el of None \<Rightarrow> fmempty | Some m \<Rightarrow> m)"

definition tags_get :: "(string, string list) fmap \<Rightarrow> string \<Rightarrow> string list" where
  "tags_get adds el = (case fmlookup adds el of None \<Rightarrow> [] | Some ts \<Rightarrow> ts)"

definition ORSet_addTag :: "string \<Rightarrow> string \<Rightarrow> seen_map \<times> (string, string list) fmap \<Rightarrow>
    seen_map \<times> (string, string list) fmap" where
  "ORSet_addTag el t st =
     (case st of (seen, adds) \<Rightarrow>
        if \<not> bget (seen_get seen el) t
        then (fmupd el (fmupd t True (seen_get seen el)) seen, fmupd el (tags_get adds el @ [t]) adds)
        else (seen, adds))"

definition ORSet_add :: "(string, string list) fmap \<Rightarrow> seen_map \<times> (string, string list) fmap \<Rightarrow>
    seen_map \<times> (string, string list) fmap" where
  "ORSet_add src st =
     go_range (\<lambda>el tags st.
        let st' = (case st of (seen, adds) \<Rightarrow>
              if fmlookup seen el = None then (fmupd el fmempty seen, adds) else (seen, adds))
        in fold (\<lambda>t st. ORSet_addTag el t st) tags st') src st"

definition ORSet_Merge :: "ORSet \<Rightarrow> ORSet \<Rightarrow> ORSet" where
  "ORSet_Merge a b =
     (let st = ORSet_add (os_Adds b) (ORSet_add (os_Adds a) (fmempty, fmempty));
          removes = fold (\<lambda>src m. go_range (\<lambda>t v m. fmupd t True m) src m) [os_Removes a, os_Removes b] fmempty;
          adds = go_range (\<lambda>el tags m. fmupd el (sort (tags_get m el)) m) (snd st) (snd st)
      in \<lparr>os_Type = ORSetType, os_Adds = adds, os_Removes = removes\<rparr>)"

section \<open>Last-write-wins map\<close>

record LWWMapEntry =
  lm_Value :: string
  lm_Timestamp :: int
  lm_NodeID :: node_id

record LWWMap =
  lw_Type :: string
  lw_Entries :: "(string, LWWMapEntry) fmap"

definition lwwMapEntryWins :: "LWWMapEntry \<Rightarrow> LWWMapEntry \<Rightarrow> bool" where
  "lwwMapEntryWins x y =
     (if lm_Timestamp x \<noteq> lm_Timestamp y then lm_Timestamp x > lm_Timestamp y
      else if lm_NodeID x \<noteq> lm_NodeID y then lm_NodeID x > lm_NodeID y
      else lm_Value x > lm_Value y)"

definition LWWMap_Merge :: "LWWMap \<Rightarrow> LWWMap \<Rightarrow> LWWMap" where
  "LWWMap_Merge a b =
     (let out = go_range (\<lambda>k v m. fmupd k v m) (lw_Entries a) fmempty
      in \<lparr>lw_Type = LWWMapType,
          lw_Entries = go_range (\<lambda>k v m.
            case fmlookup m k of None \<Rightarrow> fmupd k v m
            | Some cur \<Rightarrow> if lwwMapEntryWins v cur then fmupd k v m else m) (lw_Entries b) out\<rparr>)"

section \<open>Convergence of the counters\<close>

text \<open>A node stamps each of its writes with its own timestamp, so the stamp determines the value.\<close>

definition register_ok :: "(int \<Rightarrow> node_id \<Rightarrow> bytes) \<Rightarrow> LWWRegister \<Rightarrow> bool" where
  "register_ok written r \<longleftrightarrow> lr_Value r = written (lr_Timestamp r) (lr_NodeID r)"

interpretation register: merge_crdt LWWRegister_Merge "register_ok written" for written
  by unfold_locales (auto simp: LWWRegister_Merge_def register_ok_def)

lemma Merge_comm_wf: "vc_wf a \<Longrightarrow> vc_wf b \<Longrightarrow> VectorClock_Merge a b = VectorClock_Merge b a"
  by (rule vc_wf_ext) (simp_all add: vc_wf_Merge max.commute)

interpretation clocks: merge_crdt VectorClock_Merge vc_wf
proof
  fix a b c
  assume wf: "vc_wf a" "vc_wf b" "vc_wf c"
  show "vc_wf (VectorClock_Merge a b)" using wf by (simp add: vc_wf_Merge)
  show "VectorClock_Merge a b = VectorClock_Merge b a" using wf by (simp add: Merge_comm_wf)
  show "VectorClock_Merge (VectorClock_Merge a b) c = VectorClock_Merge a (VectorClock_Merge b c)"
    using wf by (intro vc_wf_ext) (simp_all add: vc_wf_Merge max.assoc)
  show "VectorClock_Merge a a = a" using wf by (intro vc_wf_ext) (simp_all add: vc_wf_Merge)
qed

lemma GCounter_Merge_eq:
  "GCounter_Merge g h = \<lparr>gc_Type = GCounterType, gc_Counts = VectorClock_Merge (gc_Counts g) (gc_Counts h)\<rparr>"
  using Clone_id [of "gc_Counts g", unfolded VectorClock_Clone_def]
  unfolding GCounter_Merge_def VectorClock_Merge_def Let_def by argo

definition gcounter_ok :: "GCounter \<Rightarrow> bool" where
  "gcounter_ok g \<longleftrightarrow> gc_Type g = GCounterType \<and> vc_wf (gc_Counts g)"

interpretation gcounter: merge_crdt GCounter_Merge gcounter_ok
  by unfold_locales
     (auto simp: GCounter_Merge_eq gcounter_ok_def clocks.merge_ok clocks.merge_assoc clocks.merge_idem
       intro: clocks.merge_comm)

lemma PNCounter_Merge_eq:
  "PNCounter_Merge a b = \<lparr>pn_Type = PNCounterType,
     pn_P = VectorClock_Merge (VectorClock_Merge fmempty (pn_P a)) (pn_P b),
     pn_N = VectorClock_Merge (VectorClock_Merge fmempty (pn_N a)) (pn_N b)\<rparr>"
  by (simp add: PNCounter_Merge_def VectorClock_Merge_def Let_def)

lemma Merge_empty_wf [simp]: "vc_wf a \<Longrightarrow> VectorClock_Merge fmempty a = a"
  using vc_wf_Merge [of fmempty a] by (intro vc_wf_ext) (simp_all add: vc_wf_def)

definition pncounter_ok :: "PNCounter \<Rightarrow> bool" where
  "pncounter_ok a \<longleftrightarrow> pn_Type a = PNCounterType \<and> vc_wf (pn_P a) \<and> vc_wf (pn_N a)"

interpretation pncounter: merge_crdt PNCounter_Merge pncounter_ok
  by unfold_locales
     (auto simp: PNCounter_Merge_eq pncounter_ok_def clocks.merge_ok clocks.merge_assoc clocks.merge_idem
       intro: clocks.merge_comm)

section \<open>Convergence of the observed-remove set\<close>

definition tagset :: "ORSet \<Rightarrow> string \<Rightarrow> string set" where
  "tagset a el = set (tags_get (os_Adds a) el)"

definition removed :: "ORSet \<Rightarrow> string set" where
  "removed a = fmdom' (os_Removes a)"

text \<open>The pair the closure works on: \<open>seen\<close> mirrors the tags already copied.\<close>

definition seen_inv :: "seen_map \<times> (string, string list) fmap \<Rightarrow> bool" where
  "seen_inv st \<longleftrightarrow> (\<forall>el t. bget (seen_get (fst st) el) t \<longleftrightarrow> t \<in> set (tags_get (snd st) el)) \<and>
     (\<forall>el. distinct (tags_get (snd st) el) \<and> fmlookup (snd st) el \<noteq> Some [])"

lemma get_upd [simp]:
  "tags_get (fmupd el ts adds) el' = (if el' = el then ts else tags_get adds el')"
  "seen_get (fmupd el m seen) el' = (if el' = el then m else seen_get seen el')"
  by (simp_all add: tags_get_def seen_get_def)

lemma addTag_spec:
  assumes "seen_inv st"
  shows "seen_inv (ORSet_addTag el t st)"
    and "set (tags_get (snd (ORSet_addTag el t st)) el') = (if el' = el then {t} else {}) \<union> set (tags_get (snd st) el')"
  using assms by (auto simp: ORSet_addTag_def seen_inv_def split: prod.splits)

lemma addTags_spec:
  "seen_inv st \<Longrightarrow> seen_inv (fold (ORSet_addTag el) ts st) \<and>
   set (tags_get (snd (fold (ORSet_addTag el) ts st)) el') = (if el' = el then set ts else {}) \<union> set (tags_get (snd st) el')"
  by (induction ts arbitrary: st) (auto simp: addTag_spec)

lemma seen_inv_touch:
  "seen_inv (seen, adds) \<Longrightarrow> fmlookup seen el = None \<Longrightarrow> seen_inv (fmupd el fmempty seen, adds)"
proof -
  assume "fmlookup seen el = None"
  then have "seen_get (fmupd el fmempty seen) = seen_get seen"
    by (intro ext) (auto simp: seen_get_def)
  moreover assume "seen_inv (seen, adds)"
  ultimately show ?thesis by (simp add: seen_inv_def)
qed

lemma ORSet_add_spec:
  assumes "seen_inv st"
  shows "seen_inv (ORSet_add src st) \<and>
    set (tags_get (snd (ORSet_add src st)) el) = set (tags_get src el) \<union> set (tags_get (snd st) el)"
proof -
  define body where "body = (\<lambda>(el, tags) st.
      let st' = (case st of (seen, adds) \<Rightarrow>
            if fmlookup seen el = None then (fmupd el fmempty seen, adds) else (seen, adds :: (string, string list) fmap))
      in fold (\<lambda>t st. ORSet_addTag el t st) tags st')"
  have step: "seen_inv (body (el', ts) st) \<and>
      set (tags_get (snd (body (el', ts) st)) el) = (if el = el' then set ts else {}) \<union> set (tags_get (snd st) el)"
    if "seen_inv st" for el' ts st
  proof -
    obtain seen adds where st: "st = (seen, adds)" by (cases st)
    define st' where "st' = (if fmlookup seen el' = None then (fmupd el' fmempty seen, adds) else (seen, adds))"
    have "seen_inv st'" "snd st' = snd st"
      using that seen_inv_touch by (auto simp: st st'_def)
    moreover have "body (el', ts) st = fold (ORSet_addTag el') ts st'"
      by (simp add: body_def st st'_def)
    ultimately show ?thesis using addTags_spec [of st' el' ts el] by simp
  qed
  have "seen_inv (fold body xs st) \<and> set (tags_get (snd (fold body xs st)) el) =
      \<Union>{set ts | ts. (el, ts) \<in> set xs} \<union> set (tags_get (snd st) el)" if "seen_inv st" for xs st
    using that
  proof (induction xs arbitrary: st)
    case (Cons x xs)
    obtain el' ts where x: "x = (el', ts)" by (cases x)
    note st = step [OF Cons.prems, of el' ts]
    then show ?case using Cons.IH [of "body x st"] by (auto simp: x)
  qed simp
  from this [OF assms, of "sorted_list_of_fmap src"]
  have "seen_inv (ORSet_add src st) \<and> set (tags_get (snd (ORSet_add src st)) el) =
      \<Union>{set ts | ts. (el, ts) \<in> set (sorted_list_of_fmap src)} \<union> set (tags_get (snd st) el)"
    by (simp only: ORSet_add_def go_range_def body_def)
  moreover have "\<Union>{set ts | ts. (el, ts) \<in> set (sorted_list_of_fmap src)} = set (tags_get src el)"
    by (cases "fmlookup src el") (auto simp: tags_get_def)
  ultimately show ?thesis by simp
qed

interpretation sort_body:
  slot_body "\<lambda>el (tags :: string list) m. fmupd el (sort (tags_get m el)) m"
    "\<lambda>el tags cur. Some (sort (case cur of None \<Rightarrow> [] | Some ts \<Rightarrow> ts))"
  by unfold_locales (simp add: tags_get_def)

interpretation mark_body: slot_body "\<lambda>t (v :: bool) m. fmupd t True m" "\<lambda>t v cur. Some True"
  by unfold_locales simp

lemma lookup_Adds_Merge:
  "fmlookup (os_Adds (ORSet_Merge a b)) el =
     (if tagset a el \<union> tagset b el = {} then None
      else Some (sorted_list_of_set (tagset a el \<union> tagset b el)))"
proof -
  define st where "st = ORSet_add (os_Adds b) (ORSet_add (os_Adds a) (fmempty, fmempty))"
  have init: "seen_inv (fmempty, fmempty)"
    by (simp add: seen_inv_def seen_get_def tags_get_def)
  note one = ORSet_add_spec [OF init, of "os_Adds a" el]
  note two = ORSet_add_spec [OF conjunct1 [OF one], of "os_Adds b" el]
  have inv: "seen_inv st" and tags: "set (tags_get (snd st) el) = tagset a el \<union> tagset b el"
    using one two by (auto simp: st_def tagset_def tags_get_def [of fmempty])
  have "fmlookup (os_Adds (ORSet_Merge a b)) el =
      (case fmlookup (snd st) el of None \<Rightarrow> None | Some ts \<Rightarrow> Some (sort ts))"
    by (simp add: ORSet_Merge_def Let_def st_def [symmetric] sort_body.range_lookup split: option.splits)
  moreover have "sort (tags_get (snd st) el) = sorted_list_of_set (set (tags_get (snd st) el))"
    using inv by (metis seen_inv_def sorted_list_of_set_sort_remdups distinct_remdups_id)
  moreover have "fmlookup (snd st) el \<noteq> Some []" using inv by (simp add: seen_inv_def)
  ultimately show ?thesis
    using tags by (cases "fmlookup (snd st) el") (auto simp: tags_get_def)
qed

lemma lookup_Removes_Merge:
  "fmlookup (os_Removes (ORSet_Merge a b)) t = (if t \<in> removed a \<union> removed b then Some True else None)"
  by (auto simp: ORSet_Merge_def Let_def mark_body.range_lookup removed_def fmlookup_dom'_iff split: option.splits)

text \<open>States as the merge leaves them: sorted duplicate-free tag lists, no empty one, only true marks.\<close>

definition orset_ok :: "ORSet \<Rightarrow> bool" where
  "orset_ok a \<longleftrightarrow> os_Type a = ORSetType \<and>
     (\<forall>el ts. fmlookup (os_Adds a) el = Some ts \<longrightarrow> ts \<noteq> [] \<and> sorted ts \<and> distinct ts) \<and>
     (\<forall>t v. fmlookup (os_Removes a) t = Some v \<longrightarrow> v)"

lemma finite_tagset [simp]: "finite (tagset a el)"
  by (simp add: tagset_def)

lemma orset_ok_Merge: "orset_ok (ORSet_Merge a b)"
  by (auto simp: orset_ok_def lookup_Adds_Merge lookup_Removes_Merge) (simp add: ORSet_Merge_def Let_def)

lemma tagset_Merge [simp]: "tagset (ORSet_Merge a b) el = tagset a el \<union> tagset b el"
  unfolding tagset_def [of "ORSet_Merge a b"] tags_get_def lookup_Adds_Merge by auto

lemma removed_Merge [simp]: "removed (ORSet_Merge a b) = removed a \<union> removed b"
  unfolding removed_def [of "ORSet_Merge a b"] by (auto simp: fmlookup_dom'_iff lookup_Removes_Merge split: if_splits)

lemma orset_ext:
  assumes "orset_ok a" "orset_ok b" "\<And>el. tagset a el = tagset b el" "removed a = removed b"
  shows "a = b"
proof -
  have lookup: "fmlookup (os_Adds x) el = (if tagset x el = {} then None else Some (sorted_list_of_set (tagset x el)))"
    if "orset_ok x" for x el
    using that by (cases "fmlookup (os_Adds x) el")
      (auto simp: orset_ok_def tagset_def tags_get_def sorted_list_of_set.idem_if_sorted_distinct)
  have "os_Adds a = os_Adds b"
    using assms(3) lookup [OF assms(1)] lookup [OF assms(2)] by (intro fmap_ext) simp
  moreover have "fmlookup (os_Removes x) t = (if t \<in> removed x then Some True else None)" if "orset_ok x" for x t
    using that by (cases "fmlookup (os_Removes x) t") (auto simp: orset_ok_def removed_def fmlookup_dom'_iff)
  then have "os_Removes a = os_Removes b" using assms(1,2,4) by (intro fmap_ext) simp
  ultimately show ?thesis using assms(1,2) by (simp add: orset_ok_def)
qed

interpretation orset: merge_crdt ORSet_Merge orset_ok
  by unfold_locales (auto simp: orset_ok_Merge intro!: orset_ext)

section \<open>Convergence of the last-write-wins map\<close>

interpretation lww_body:
  slot_body "\<lambda>k v (m :: (string, LWWMapEntry) fmap).
      case fmlookup m k of None \<Rightarrow> fmupd k v m | Some cur \<Rightarrow> if lwwMapEntryWins v cur then fmupd k v m else m"
    "\<lambda>k v cur. case cur of None \<Rightarrow> Some v | Some c \<Rightarrow> if lwwMapEntryWins v c then Some v else Some c"
  by unfold_locales (auto split: option.splits)

lemma wins_linear:
  "\<not> lwwMapEntryWins x x"
  "lwwMapEntryWins x y \<Longrightarrow> lwwMapEntryWins y z \<Longrightarrow> lwwMapEntryWins x z"
  "x \<noteq> y \<Longrightarrow> \<not> lwwMapEntryWins x y \<longleftrightarrow> lwwMapEntryWins y x"
  by (cases x; cases y; auto simp: lwwMapEntryWins_def not_less split: if_splits)+

definition lww_pick :: "LWWMapEntry option \<Rightarrow> LWWMapEntry option \<Rightarrow> LWWMapEntry option" where
  "lww_pick x y = (case y of None \<Rightarrow> x | Some v \<Rightarrow>
     (case x of None \<Rightarrow> Some v | Some c \<Rightarrow> if lwwMapEntryWins v c then Some v else Some c))"

lemma lookup_LWWMap_Merge:
  "fmlookup (lw_Entries (LWWMap_Merge a b)) k = lww_pick (fmlookup (lw_Entries a) k) (fmlookup (lw_Entries b) k)"
proof -
  have "go_range (\<lambda>k v m. fmupd k v m) (lw_Entries a) fmempty = lw_Entries a"
    by (rule fmap_ext) (simp add: clone_body.range_lookup split: option.splits)
  then show ?thesis
    by (simp add: LWWMap_Merge_def lww_body.range_lookup lww_pick_def split: option.splits)
qed

lemma lww_pick_laws:
  "lww_pick x y = lww_pick y x" "lww_pick (lww_pick x y) z = lww_pick x (lww_pick y z)" "lww_pick x x = x"
  unfolding lww_pick_def by (cases x; cases y; cases z; use wins_linear in \<open>auto split: if_splits\<close>; metis wins_linear)+

definition lwwmap_ok :: "LWWMap \<Rightarrow> bool" where
  "lwwmap_ok a \<longleftrightarrow> lw_Type a = LWWMapType"

lemma lwwmap_ext:
  "lwwmap_ok a \<Longrightarrow> lwwmap_ok b \<Longrightarrow> (\<And>k. fmlookup (lw_Entries a) k = fmlookup (lw_Entries b) k) \<Longrightarrow> a = b"
  by (simp add: lwwmap_ok_def fmap_ext)

lemma lwwmap_ok_Merge [simp]: "lwwmap_ok (LWWMap_Merge a b)"
  by (simp add: lwwmap_ok_def LWWMap_Merge_def Let_def)

interpretation lwwmap: merge_crdt LWWMap_Merge lwwmap_ok
  by unfold_locales
     (auto simp: lookup_LWWMap_Merge lww_pick_laws(2,3) intro!: lwwmap_ext intro: lww_pick_laws(1))

section \<open>What the values mean\<close>

lemma fold_snd_sum: "fold (\<lambda>(k, v) sum. sum + v) xs acc = acc + sum_list (map snd xs)" for acc :: "'a::comm_monoid_add"
  by (induction xs arbitrary: acc) (auto simp: add_ac)

lemma GCounter_Value_sum: "GCounter_Value g = (\<Sum>k \<in> fmdom' (gc_Counts g). zget (gc_Counts g) k)"
proof -
  define xs where "xs = sorted_list_of_fmap (gc_Counts g)"
  have eq: "map snd xs = map (zget (gc_Counts g)) (map fst xs)"
    by (auto simp: xs_def)
  have "GCounter_Value g = sum_list (map snd xs)"
    by (simp add: GCounter_Value_def go_range_def fold_snd_sum xs_def)
  also have "\<dots> = sum_list (map (zget (gc_Counts g)) (map fst xs))"
    by (simp only: eq)
  also have "\<dots> = (\<Sum>k \<in> set (map fst xs). zget (gc_Counts g) k)"
    by (rule sum_list_distinct_conv_sum_set) (simp add: xs_def)
  also have "set (map fst xs) = fmdom' (gc_Counts g)"
    using set_go_keys [of "gc_Counts g"] by (simp only: go_keys_def xs_def)
  finally show ?thesis .
qed

text \<open>
  A group of replicas, each holding a counter: a replica increments its own slot, or merges the state
  another replica sent.
\<close>

datatype GcOp = GcInc node_id | GcMerge node_id node_id

fun gc_op :: "GcOp \<Rightarrow> (node_id \<Rightarrow> GCounter) \<Rightarrow> (node_id \<Rightarrow> GCounter)" where
  "gc_op (GcInc n) w = w(n := GCounter_Increment (w n) n)"
| "gc_op (GcMerge n m) w = w(n := GCounter_Merge (w n) (w m))"

definition gc_run :: "GcOp list \<Rightarrow> node_id \<Rightarrow> GCounter" where
  "gc_run ops = fold gc_op ops (\<lambda>_. NewGCounter)"

definition incs :: "GcOp list \<Rightarrow> node_id \<Rightarrow> nat" where
  "incs ops n = count_list ops (GcInc n)"

lemma zget_GCounter_Merge [simp]:
  "zget (gc_Counts (GCounter_Merge g h)) k = max (zget (gc_Counts g) k) (zget (gc_Counts h) k)"
  by (simp add: GCounter_Merge_eq)

lemma gc_run_snoc [simp]: "gc_run (ops @ [op]) = gc_op op (gc_run ops)"
  by (simp add: gc_run_def)

lemma incs_snoc [simp]: "incs (ops @ [op]) n = incs ops n + (if op = GcInc n then 1 else 0)"
  by (simp add: incs_def)

lemma incs_le_length: "incs ops n \<le> length ops"
  by (simp add: incs_def count_le_length)

lemma gc_run_inv:
  "length ops < 2 ^ 64 \<Longrightarrow>
   unat (zget (gc_Counts (gc_run ops n)) k) \<le> incs ops k \<and>
   unat (zget (gc_Counts (gc_run ops k)) k) = incs ops k"
proof (induction ops arbitrary: n k rule: rev_induct)
  case (snoc op ops)
  have IH: "unat (zget (gc_Counts (gc_run ops n)) k) \<le> incs ops k"
    "unat (zget (gc_Counts (gc_run ops k)) k) = incs ops k" for n k
    using snoc by simp_all
  have inc: "unat (zget (gc_Counts (gc_run ops k)) k + 1) = incs ops k + 1" for k
    using IH(2) [of k] incs_le_length [of ops k] snoc.prems by (subst unat_add_lem [THEN iffD1]) auto
  have mx: "unat (max a b) = max (unat a) (unat b)" for a b :: u64
    by (simp add: max_def word_le_nat_alt)
  show ?case
    using IH inc by (cases op) (auto simp: GCounter_Increment_def mx le_Suc_eq)
qed (simp add: gc_run_def NewGCounter_def incs_def)

lemma fold_merge_zget:
  "zget (gc_Counts (fold (\<lambda>m acc. GCounter_Merge acc (w m)) ns g)) k =
     fold max (map (\<lambda>m. zget (gc_Counts (w m)) k) ns) (zget (gc_Counts g) k)"
  by (induction ns arbitrary: g) (simp_all add: max.commute)

lemma fold_max_eq:
  assumes "\<And>x. x \<in> set xs \<Longrightarrow> x \<le> (hi :: u64)" and "hi \<in> set xs" and "s \<le> hi"
  shows "fold max xs s = hi"
  using assms
proof (induction xs arbitrary: s)
  case (Cons x xs)
  show ?case
  proof (cases "hi \<in> set xs")
    case False
    then have "x = hi" using Cons.prems by simp
    have "fold max ys hi = hi" if "\<forall>y \<in> set ys. y \<le> hi" for ys
      using that by (induction ys) (auto simp: max_def)
    moreover have "\<forall>y \<in> set xs. y \<le> hi" using Cons.prems(1) by simp
    ultimately show ?thesis using Cons.prems(3) \<open>x = hi\<close> by (simp add: max_absorb1)
  qed (use Cons in simp)
qed simp

lemma dom_gc_merge: "fmdom' (gc_Counts (fold (\<lambda>m acc. GCounter_Merge acc (w m)) ns g)) \<subseteq>
    fmdom' (gc_Counts g) \<union> (\<Union>m \<in> set ns. fmdom' (gc_Counts (w m)))"
proof (induction ns arbitrary: g)
  case (Cons m ns)
  have "fmdom' (gc_Counts (GCounter_Merge g (w m))) \<subseteq> fmdom' (gc_Counts g) \<union> fmdom' (gc_Counts (w m))"
    by (auto simp: GCounter_Merge_eq fmlookup_dom'_iff lookup_Merge split: option.splits if_splits)
  then show ?case using Cons.IH [of "GCounter_Merge g (w m)"] by auto
qed simp

lemma gc_run_dom: "k \<in> fmdom' (gc_Counts (gc_run ops n)) \<Longrightarrow> 0 < incs ops k"
proof (induction ops arbitrary: n rule: rev_induct)
  case (snoc op ops)
  show ?case
    using snoc by (cases op)
      (auto simp: GCounter_Increment_def GCounter_Merge_eq fmlookup_dom'_iff lookup_Merge
        split: if_splits option.splits)
qed (simp add: gc_run_def NewGCounter_def)

section \<open>Properties\<close>

text \<open>
  C17. Strong eventual consistency of the counters, the observed-remove set and the last-write-wins
  map: two replicas that start from well-formed states and have merged the same set of states (their
  own initial one included), in any order and with any repetition, are in the same state.
\<close>

theorem crdt_convergence:
  "((\<forall>x \<in> set (s1 # xs1). gcounter_ok x) \<and> set (s1 # xs1) = set (t1 # ys1) \<longrightarrow>
      fold (\<lambda>x acc. GCounter_Merge acc x) xs1 s1 = fold (\<lambda>x acc. GCounter_Merge acc x) ys1 t1) \<and>
   ((\<forall>x \<in> set (s2 # xs2). pncounter_ok x) \<and> set (s2 # xs2) = set (t2 # ys2) \<longrightarrow>
      fold (\<lambda>x acc. PNCounter_Merge acc x) xs2 s2 = fold (\<lambda>x acc. PNCounter_Merge acc x) ys2 t2) \<and>
   ((\<forall>x \<in> set (s3 # xs3). orset_ok x) \<and> set (s3 # xs3) = set (t3 # ys3) \<longrightarrow>
      fold (\<lambda>x acc. ORSet_Merge acc x) xs3 s3 = fold (\<lambda>x acc. ORSet_Merge acc x) ys3 t3) \<and>
   ((\<forall>x \<in> set (s4 # xs4). lwwmap_ok x) \<and> set (s4 # xs4) = set (t4 # ys4) \<longrightarrow>
      fold (\<lambda>x acc. LWWMap_Merge acc x) xs4 s4 = fold (\<lambda>x acc. LWWMap_Merge acc x) ys4 t4)"
  using gcounter.convergence [of s1 xs1 t1 ys1, unfolded gcounter.receive_def]
    pncounter.convergence [of s2 xs2 t2 ys2, unfolded pncounter.receive_def]
    orset.convergence [of s3 xs3 t3 ys3, unfolded orset.receive_def]
    lwwmap.convergence [of s4 xs4 t4 ys4, unfolded lwwmap.receive_def]
  by (intro conjI impI) simp_all

theorem crdt_convergence_witness:
  "let s = \<lambda>el t. \<lparr>os_Type = ORSetType, os_Adds = fmap_of_list [(el, [t])], os_Removes = fmempty\<rparr>;
       a = s ''x'' ''n1:1''; b = s ''x'' ''n2:1''; c = s ''y'' ''n2:2''
   in fold (\<lambda>x acc. ORSet_Merge acc x) [b, c, b] a = fold (\<lambda>x acc. ORSet_Merge acc x) [a, b] c"
proof -
  define s :: "string \<Rightarrow> string \<Rightarrow> ORSet" where
    "s = (\<lambda>el t. \<lparr>os_Type = ORSetType, os_Adds = fmap_of_list [(el, [t])], os_Removes = fmempty\<rparr>)"
  have ok: "orset_ok (s el t)" for el t
    by (simp add: s_def orset_ok_def)
  define a b c where "a = s ''x'' ''n1:1''" and "b = s ''x'' ''n2:1''" and "c = s ''y'' ''n2:2''"
  have "fold (\<lambda>x acc. ORSet_Merge acc x) [b, c, b] a = fold (\<lambda>x acc. ORSet_Merge acc x) [a, b] c"
    by (rule crdt_convergence [THEN conjunct2, THEN conjunct2, THEN conjunct1, rule_format])
       (auto simp: ok a_def b_def c_def)
  then show ?thesis unfolding Let_def a_def b_def c_def s_def .
qed

text \<open>The observed-remove set keeps an element after a merge exactly when one side holds an add-tag
  for it that neither side has removed: a concurrent add wins over a remove, and a removed tag never
  comes back. The listing is sorted and without repetition.
\<close>

theorem orset_add_wins:
  "(el \<in> set (ORSet_Elements (ORSet_Merge a b)) \<longleftrightarrow>
      (\<exists>t \<in> set (tags_get (os_Adds a) el) \<union> set (tags_get (os_Adds b) el).
         t \<notin> fmdom' (os_Removes a) \<and> t \<notin> fmdom' (os_Removes b))) \<and>
   sorted (ORSet_Elements (ORSet_Merge a b)) \<and> distinct (ORSet_Elements (ORSet_Merge a b))"
proof -
  define m where "m = ORSet_Merge a b"
  define P where "P = (\<lambda>tags. list_ex (\<lambda>t. \<not> bget (os_Removes m) t) tags)"
  have fold_eq: "fold (\<lambda>(el, tags) out. if P tags then out @ [el] else out) xs acc = acc @ map fst (filter (P \<circ> snd) xs)"
    for xs :: "(string \<times> string list) list" and acc
    by (induction xs arbitrary: acc) auto
  have els: "ORSet_Elements m = sort (map fst (filter (P \<circ> snd) (sorted_list_of_fmap (os_Adds m))))"
    using fold_eq [of "sorted_list_of_fmap (os_Adds m)" "[]"]
    unfolding ORSet_Elements_def go_range_def P_def by simp
  have rem: "bget (os_Removes m) t \<longleftrightarrow> t \<in> removed a \<union> removed b" for t
    by (simp add: m_def bget_def lookup_Removes_Merge)
  have "el \<in> set (ORSet_Elements m) \<longleftrightarrow> (\<exists>ts. fmlookup (os_Adds m) el = Some ts \<and> P ts)"
    by (force simp: els)
  also have "\<dots> \<longleftrightarrow> (\<exists>t \<in> tagset m el. t \<notin> removed a \<union> removed b)"
    by (cases "fmlookup (os_Adds m) el") (auto simp: P_def list_ex_iff rem tagset_def tags_get_def)
  also have "tagset m el = tagset a el \<union> tagset b el" by (simp add: m_def)
  finally have "el \<in> set (ORSet_Elements m) \<longleftrightarrow> (\<exists>t \<in> tagset a el \<union> tagset b el. t \<notin> removed a \<union> removed b)" .
  moreover have "distinct (ORSet_Elements m)"
    unfolding els distinct_sort by (rule distinct_map_filter) simp
  ultimately show ?thesis
    by (simp add: m_def [symmetric] els tagset_def removed_def)
qed

text \<open>The grow-only counter neither loses nor double-counts: let replicas increment their own slot
  and merge each other's states in any interleaving (fewer than \<open>2 ^ 64\<close> operations). No replica ever
  counts more increments of a node than it made, and a replica that merges the states of all nodes
  reads exactly the total number of increments.
\<close>

theorem gcounter_counts_increments:
  assumes "length ops < 2 ^ 64" and "\<forall>n. GcInc n \<in> set ops \<longrightarrow> n \<in> set ns"
  shows "unat (zget (gc_Counts (gc_run ops n)) k) \<le> incs ops k \<and>
    unat (GCounter_Value (fold (\<lambda>m acc. GCounter_Merge acc (gc_run ops m)) ns NewGCounter)) =
      length (filter (\<lambda>op. case op of GcInc _ \<Rightarrow> True | GcMerge _ _ \<Rightarrow> False) ops)"
proof
  note inv = gc_run_inv [OF assms(1)]
  show "unat (zget (gc_Counts (gc_run ops n)) k) \<le> incs ops k" using inv by blast
  define R where "R = fold (\<lambda>m acc. GCounter_Merge acc (gc_run ops m)) ns NewGCounter"
  have in_ns: "k \<in> set ns" if "0 < incs ops k" for k
    using assms(2) that count_list_0_iff [of ops "GcInc k"] by (auto simp: incs_def)
  have slot: "zget (gc_Counts R) k = of_nat (incs ops k)" if "k \<in> set ns" for k
  proof -
    have own: "zget (gc_Counts (gc_run ops k)) k = of_nat (incs ops k)"
      using inv [of k k] by (metis of_nat_unat ucast_id)
    have "fold max (map (\<lambda>m. zget (gc_Counts (gc_run ops m)) k) ns) 0 = zget (gc_Counts (gc_run ops k)) k"
      using inv that by (intro fold_max_eq) (auto simp: word_le_nat_alt)
    then show ?thesis by (simp add: R_def fold_merge_zget NewGCounter_def own)
  qed
  have dom: "fmdom' (gc_Counts R) \<subseteq> set ns"
    using dom_gc_merge [of "gc_run ops" ns NewGCounter] gc_run_dom in_ns by (fastforce simp: R_def NewGCounter_def)
  have "GCounter_Value R = (\<Sum>k \<in> set ns. zget (gc_Counts R) k)"
    unfolding GCounter_Value_sum using dom by (intro sum.mono_neutral_left) (auto simp: fmlookup_dom'_iff zget_def split: option.splits)
  also have "\<dots> = of_nat (\<Sum>k \<in> set ns. incs ops k)" by (simp add: slot)
  also have "(\<Sum>k \<in> set ns. incs ops k) = length (filter (\<lambda>op. case op of GcInc _ \<Rightarrow> True | GcMerge _ _ \<Rightarrow> False) ops)"
    using assms(2) unfolding incs_def
  proof (induction ops)
    case (Cons op ops)
    have "(\<Sum>k \<in> set ns. count_list (op # ops) (GcInc k)) =
        (\<Sum>k \<in> set ns. if op = GcInc k then 1 else 0) + (\<Sum>k \<in> set ns. count_list ops (GcInc k))"
      unfolding sum.distrib [symmetric] by (intro sum.cong) auto
    moreover have "(\<Sum>k \<in> set ns. if op = GcInc k then 1 else 0) =
        (case op of GcInc _ \<Rightarrow> 1 | GcMerge _ _ \<Rightarrow> (0::nat))"
      using Cons.prems by (cases op) auto
    ultimately show ?case using Cons by (cases op) auto
  qed simp
  finally show "unat (GCounter_Value R) = length (filter (\<lambda>op. case op of GcInc _ \<Rightarrow> True | GcMerge _ _ \<Rightarrow> False) ops)"
    using le_less_trans [OF length_filter_le assms(1)] by (simp add: unat_of_nat)
qed

theorem gcounter_counts_increments_witness:
  "unat (GCounter_Value (fold (\<lambda>m acc. GCounter_Merge acc
      (gc_run [GcInc ''a'', GcInc ''b'', GcMerge ''a'' ''b'', GcInc ''a''] m)) [''a'', ''b''] NewGCounter)) = 3"
  using gcounter_counts_increments [of "[GcInc ''a'', GcInc ''b'', GcMerge ''a'' ''b'', GcInc ''a'']" "[''a'', ''b'']"]
  by simp

end
