(* ===== verification/RGA.thy ===== *)
theory RGA
  imports CRDT
begin

text \<open>
  The replicated growable array of \<open>internal/conflict/rga.go\<close>: the depth-first walk that turns the
  insert-after links into a sequence, the visible value, and the merge by element id.

  The recursive closure \<open>walk\<close> visits the children of an anchor one by one and recurses before it
  goes on to the next; \<open>rga_walk\<close> keeps what is left to visit on an explicit stack, which is the call
  stack of the closure written out. It terminates because every step either marks an id or shortens
  the stack. Sibling groups are sorted by descending id; ids are unique in the states the merge
  builds, so the sorting order is determined.
\<close>

definition RGAType :: string where "RGAType = ''rga''"

record RGAElem =
  re_ID :: string
  re_Value :: string
  re_After :: string
  re_Deleted :: bool

record RGA =
  ra_Type :: string
  ra_Elems :: "RGAElem list"

definition sort_ID_desc :: "RGAElem list \<Rightarrow> RGAElem list" where
  "sort_ID_desc es = rev (sort_key re_ID es)"

text \<open>\<open>children[anchor]\<close> after grouping and sorting.\<close>

definition RGA_children :: "RGAElem list \<Rightarrow> string \<Rightarrow> RGAElem list" where
  "RGA_children elems anchor = sort_ID_desc (filter (\<lambda>e. re_After e = anchor) elems)"

function rga_walk :: "RGAElem list \<Rightarrow> RGAElem list \<Rightarrow> string list \<Rightarrow> RGAElem list \<Rightarrow> string list \<times> RGAElem list" where
  "rga_walk elems [] visited out = (visited, out)"
| "rga_walk elems (e # stack) visited out =
     (if re_ID e \<in> set visited then rga_walk elems stack visited out
      else rga_walk elems (RGA_children elems (re_ID e) @ stack) (re_ID e # visited) (out @ [e]))"
  by pat_completeness auto

lemma set_sort_ID_desc [simp]: "set (sort_ID_desc es) = set es"
  by (simp add: sort_ID_desc_def)

lemma set_RGA_children: "set (RGA_children elems a) = {e \<in> set elems. re_After e = a}"
  by (simp add: RGA_children_def)

definition unvisited :: "RGAElem list \<Rightarrow> RGAElem list \<Rightarrow> string list \<Rightarrow> nat" where
  "unvisited elems stack visited = card (re_ID ` (set elems \<union> set stack) - set visited)"

termination rga_walk
proof (relation "measures [\<lambda>(elems, stack, visited, out). unvisited elems stack visited,
                           \<lambda>(elems, stack, visited, out). length stack]")
  fix elems stack visited and e :: RGAElem and out :: "RGAElem list"
  have "unvisited elems stack visited \<le> unvisited elems (e # stack) visited"
    unfolding unvisited_def by (intro card_mono) auto
  then show "((elems, stack, visited, out), elems, e # stack, visited, out)
      \<in> measures [\<lambda>(elems, stack, visited, out :: RGAElem list). unvisited elems stack visited,
                  \<lambda>(elems, stack, visited, out). length stack]"
    by auto
next
  fix elems stack visited and e :: RGAElem and out :: "RGAElem list"
  assume new: "re_ID e \<notin> set visited"
  have "unvisited elems (RGA_children elems (re_ID e) @ stack) (re_ID e # visited) < unvisited elems (e # stack) visited"
    unfolding unvisited_def using new
    by (intro psubset_card_mono) (auto simp: set_RGA_children)
  then show "((elems, RGA_children elems (re_ID e) @ stack, re_ID e # visited, out @ [e]), elems, e # stack, visited, out)
      \<in> measures [\<lambda>(elems, stack, visited, out). unvisited elems stack visited,
                  \<lambda>(elems, stack, visited, out). length stack]"
    by auto
qed simp

text \<open>The loop over the elements the walk did not reach.\<close>

fun rga_rest :: "RGAElem list \<Rightarrow> string list \<Rightarrow> RGAElem list" where
  "rga_rest [] visited = []"
| "rga_rest (e # es) visited =
     (if re_ID e \<notin> set visited then e # rga_rest es (re_ID e # visited) else rga_rest es visited)"

definition RGA_order :: "RGA \<Rightarrow> RGAElem list" where
  "RGA_order a =
     (case rga_walk (ra_Elems a) (RGA_children (ra_Elems a) []) [] [] of (visited, out) \<Rightarrow>
        if length out \<noteq> length (ra_Elems a)
        then out @ sort_ID_desc (rga_rest (ra_Elems a) visited) else out)"

definition RGA_Value :: "RGA \<Rightarrow> string" where
  "RGA_Value a = concat (map re_Value (filter (\<lambda>e. \<not> re_Deleted e) (RGA_order a)))"

definition RGA_Merge :: "RGA \<Rightarrow> RGA \<Rightarrow> RGA" where
  "RGA_Merge a b =
     (let byID = fold (\<lambda>src byID. fold (\<lambda>e byID.
            case fmlookup byID (re_ID e) of
              Some cur \<Rightarrow> fmupd (re_ID e) (cur\<lparr>re_Deleted := re_Deleted cur \<or> re_Deleted e\<rparr>) byID
            | None \<Rightarrow> fmupd (re_ID e) e byID) src byID) [ra_Elems a, ra_Elems b] fmempty;
          elems = go_range (\<lambda>k e out. out @ [e]) byID []
      in \<lparr>ra_Type = RGAType, ra_Elems = sort_key re_ID elems\<rparr>)"

section \<open>The walk\<close>

text \<open>An element is anchored when its chain of insert-after links leads to the head.\<close>

inductive anchored :: "RGAElem list \<Rightarrow> RGAElem \<Rightarrow> bool" for elems where
  head: "e \<in> set elems \<Longrightarrow> re_After e = [] \<Longrightarrow> anchored elems e"
| link: "anchored elems p \<Longrightarrow> e \<in> set elems \<Longrightarrow> re_After e = re_ID p \<Longrightarrow> anchored elems e"

definition parent_first :: "RGAElem list \<Rightarrow> bool" where
  "parent_first out \<longleftrightarrow>
     (\<forall>i < length out. re_After (out ! i) = [] \<or> (\<exists>j < i. re_ID (out ! j) = re_After (out ! i)))"

lemma parent_first_snoc:
  assumes "parent_first out" and "re_After e = [] \<or> re_After e \<in> re_ID ` set out"
  shows "parent_first (out @ [e])"
proof -
  have "re_After ((out @ [e]) ! i) = [] \<or> (\<exists>j < i. re_ID ((out @ [e]) ! j) = re_After ((out @ [e]) ! i))"
    if i: "i \<le> length out" for i
  proof (cases "i = length out")
    case True
    have "\<exists>j < length out. re_ID (out ! j) = re_After e" if "re_After e \<noteq> []"
      using assms(2) that by (metis imageE in_set_conv_nth)
    then show ?thesis
      unfolding True nth_append_length by (metis nth_append_left)
  next
    case False
    then have lt: "i < length out" using i by simp
    then have "re_After (out ! i) = [] \<or> (\<exists>j < i. re_ID (out ! j) = re_After (out ! i))"
      using assms(1) unfolding parent_first_def by blast
    then show ?thesis
      using lt by (metis nth_append_left order.strict_trans)
  qed
  then show ?thesis unfolding parent_first_def by simp
qed

text \<open>
  What holds at every step: the output lists the visited ids once, parents first; the stack holds
  only elements whose anchor is the head or visited; and a child of a visited element is visited or
  on the stack.
\<close>

definition walk_inv :: "RGAElem list \<Rightarrow> RGAElem list \<Rightarrow> string list \<Rightarrow> RGAElem list \<Rightarrow> bool" where
  "walk_inv elems stack visited out \<longleftrightarrow>
     set visited = re_ID ` set out \<and> distinct (map re_ID out) \<and> set out \<subseteq> set elems \<and> set stack \<subseteq> set elems \<and>
     parent_first out \<and> (\<forall>e \<in> set stack. re_After e = [] \<or> re_After e \<in> set visited) \<and>
     (\<forall>e \<in> set elems. re_After e = [] \<or> re_After e \<in> set visited \<longrightarrow> re_ID e \<in> set visited \<or> e \<in> set stack)"

lemma walk_inv_skip: "walk_inv elems (e # stack) visited out \<Longrightarrow> re_ID e \<in> set visited \<Longrightarrow> walk_inv elems stack visited out"
  unfolding walk_inv_def by auto

lemma walk_inv_visit:
  assumes inv: "walk_inv elems (e # stack) visited out" and new: "re_ID e \<notin> set visited"
  shows "walk_inv elems (RGA_children elems (re_ID e) @ stack) (re_ID e # visited) (out @ [e])"
proof -
  note d = inv [unfolded walk_inv_def]
  have vis: "set visited = re_ID ` set out" using d by (elim conjE)
  have st: "re_After x = [] \<or> re_After x \<in> set visited" if "x \<in> set (e # stack)" for x
    using d that by (elim conjE) (rule bspec)
  have cl: "re_ID x \<in> set visited \<or> x \<in> set (e # stack)"
    if "x \<in> set elems" "re_After x = [] \<or> re_After x \<in> set visited" for x
    using d that by (elim conjE) blast
  have sub: "set out \<subseteq> set elems" "set (e # stack) \<subseteq> set elems" "parent_first out" "distinct (map re_ID out)"
    using d by blast+
  show ?thesis
    unfolding walk_inv_def
  proof (intro conjI ballI impI)
    show "parent_first (out @ [e])"
      using sub(3) st [of e] by (intro parent_first_snoc) (simp_all add: vis)
    show "distinct (map re_ID (out @ [e]))" using sub(4) new vis by simp
    show "set (re_ID e # visited) = re_ID ` set (out @ [e])" by (simp add: vis)
    show "set (out @ [e]) \<subseteq> set elems" "set (RGA_children elems (re_ID e) @ stack) \<subseteq> set elems"
      using sub(1,2) by (auto simp: set_RGA_children)
  next
    fix x
    assume "x \<in> set (RGA_children elems (re_ID e) @ stack)"
    then show "re_After x = [] \<or> re_After x \<in> set (re_ID e # visited)"
      using st [of x] by (auto simp: set_RGA_children)
  next
    fix x
    assume "x \<in> set elems" "re_After x = [] \<or> re_After x \<in> set (re_ID e # visited)"
    then show "re_ID x \<in> set (re_ID e # visited) \<or> x \<in> set (RGA_children elems (re_ID e) @ stack)"
      using cl [of x] by (auto simp: set_RGA_children)
  qed
qed

lemma rga_walk_inv:
  "walk_inv elems stack visited out \<Longrightarrow> rga_walk elems stack visited out = (visited', out') \<Longrightarrow>
   walk_inv elems [] visited' out'"
proof (induction elems stack visited out rule: rga_walk.induct)
  case (2 elems e stack visited out)
  show ?case
  proof (cases "re_ID e \<in> set visited")
    case True
    have "rga_walk elems stack visited out = (visited', out')" using "2.prems"(2) True by simp
    then show ?thesis by (rule "2.IH"(1) [OF True walk_inv_skip [OF "2.prems"(1) True]])
  next
    case False
    have "rga_walk elems (RGA_children elems (re_ID e) @ stack) (re_ID e # visited) (out @ [e]) = (visited', out')"
      using "2.prems"(2) False by simp
    then show ?thesis by (rule "2.IH"(2) [OF False walk_inv_visit [OF "2.prems"(1) False]])
  qed
qed simp

lemma rga_walk_head:
  assumes "rga_walk elems (RGA_children elems []) [] [] = (visited, out)"
  shows "walk_inv elems [] visited out"
proof (rule rga_walk_inv [OF _ assms])
  show "walk_inv elems (RGA_children elems []) [] []"
    by (auto simp: walk_inv_def set_RGA_children parent_first_def)
qed

lemma anchored_visited: "anchored elems e \<Longrightarrow> walk_inv elems [] visited out \<Longrightarrow> re_ID e \<in> set visited"
  by (induction rule: anchored.induct) (auto simp: walk_inv_def)

lemma rga_rest_filter:
  "distinct (map re_ID es) \<Longrightarrow> rga_rest es visited = filter (\<lambda>e. re_ID e \<notin> set visited) es"
proof (induction es arbitrary: visited)
  case (Cons e es)
  have d: "distinct (map re_ID es)" using Cons.prems by simp
  have "filter (\<lambda>x. re_ID x \<notin> set (re_ID e # visited)) es = filter (\<lambda>x. re_ID x \<notin> set visited) es"
  proof (rule filter_cong [OF refl])
    fix x
    assume "x \<in> set es"
    then have "re_ID x \<in> re_ID ` set es" by (rule imageI)
    then have "re_ID x \<noteq> re_ID e" using Cons.prems by auto
    then show "re_ID x \<notin> set (re_ID e # visited) \<longleftrightarrow> re_ID x \<notin> set visited" by simp
  qed
  then have "rga_rest es (re_ID e # visited) = filter (\<lambda>x. re_ID x \<notin> set visited) es"
    by (rule trans [OF Cons.IH [OF d]])
  with Cons.IH [OF d, of visited] show ?case by simp
qed simp

lemma walk_inv_full:
  assumes inv: "walk_inv elems [] visited out" and "distinct (map re_ID elems)" and "length out = length elems"
  shows "set elems = set out"
proof -
  have "distinct (map re_ID out)" "set out \<subseteq> set elems" using inv unfolding walk_inv_def by blast+
  then have "distinct out" "set out \<subseteq> set elems" by (simp_all add: distinct_map)
  moreover have "distinct elems" using assms(2) by (simp add: distinct_map)
  ultimately have "card (set out) = card (set elems)" "set out \<subseteq> set elems"
    using assms(3) by (simp_all add: distinct_card)
  then show ?thesis using card_subset_eq [of "set elems" "set out"] by simp
qed

lemma rga_order_split:
  assumes "distinct (map re_ID (ra_Elems a))"
  obtains visited out where "walk_inv (ra_Elems a) [] visited out"
    and "RGA_order a = out @ sort_ID_desc (filter (\<lambda>e. re_ID e \<notin> set visited) (ra_Elems a))"
proof -
  obtain visited out where w: "rga_walk (ra_Elems a) (RGA_children (ra_Elems a) []) [] [] = (visited, out)"
    by (rule prod.exhaust)
  note inv = rga_walk_head [OF w]
  have vis: "set visited = re_ID ` set out" using inv unfolding walk_inv_def by blast
  have "filter (\<lambda>e. re_ID e \<notin> set visited) (ra_Elems a) = []" if "length out = length (ra_Elems a)"
    using walk_inv_full [OF inv assms that] by (simp add: vis filter_empty_conv)
  then have "RGA_order a = out @ sort_ID_desc (filter (\<lambda>e. re_ID e \<notin> set visited) (ra_Elems a))"
    unfolding RGA_order_def w rga_rest_filter [OF assms] by (simp add: sort_ID_desc_def)
  with inv show ?thesis by (rule that)
qed

section \<open>The merge\<close>

definition rga_ids :: "RGA \<Rightarrow> string set" where
  "rga_ids a = re_ID ` set (ra_Elems a)"

definition rga_dels :: "RGA \<Rightarrow> string set" where
  "rga_dels a = re_ID ` {e \<in> set (ra_Elems a). re_Deleted e}"

text \<open>
  States as the merge leaves them: elements stored by ascending id, each id once; an id determines
  the payload and the anchor it was inserted with (\<open>inserted\<close>).
\<close>

definition rga_ok :: "(string \<Rightarrow> string \<times> string) \<Rightarrow> RGA \<Rightarrow> bool" where
  "rga_ok inserted a \<longleftrightarrow> ra_Type a = RGAType \<and> sorted (map re_ID (ra_Elems a)) \<and> distinct (map re_ID (ra_Elems a)) \<and>
     (\<forall>e \<in> set (ra_Elems a). inserted (re_ID e) = (re_Value e, re_After e))"

definition mk_elem :: "(string \<Rightarrow> string \<times> string) \<Rightarrow> string set \<Rightarrow> string \<Rightarrow> RGAElem" where
  "mk_elem inserted dels i = \<lparr>re_ID = i, re_Value = fst (inserted i), re_After = snd (inserted i), re_Deleted = (i \<in> dels)\<rparr>"

lemma rga_elems:
  assumes "rga_ok inserted a"
  shows "ra_Elems a = map (mk_elem inserted (rga_dels a)) (sorted_list_of_set (rga_ids a))"
proof -
  have ids: "map re_ID (ra_Elems a) = sorted_list_of_set (rga_ids a)"
    using assms by (simp add: rga_ok_def rga_ids_def sorted_list_of_set.idem_if_sorted_distinct flip: set_map)
  have "mk_elem inserted (rga_dels a) (re_ID e) = e" if e: "e \<in> set (ra_Elems a)" for e
  proof -
    have "inj_on re_ID (set (ra_Elems a))" using assms by (simp add: rga_ok_def distinct_map)
    then have "re_ID e \<in> rga_dels a \<longleftrightarrow> re_Deleted e"
      using e by (auto simp: rga_dels_def inj_on_def)
    moreover have "inserted (re_ID e) = (re_Value e, re_After e)" using assms e by (simp add: rga_ok_def)
    ultimately show ?thesis by (simp add: mk_elem_def)
  qed
  then have "map (mk_elem inserted (rga_dels a)) (map re_ID (ra_Elems a)) = ra_Elems a"
    by (simp add: map_idI)
  then show ?thesis by (simp only: ids)
qed

lemma rga_ext:
  assumes a: "rga_ok inserted a" and b: "rga_ok inserted b" and "rga_ids a = rga_ids b" "rga_dels a = rga_dels b"
  shows "a = b"
proof -
  have "ra_Elems a = ra_Elems b" unfolding rga_elems [OF a] rga_elems [OF b] assms(3,4) ..
  moreover have "ra_Type a = ra_Type b" using a b by (simp add: rga_ok_def)
  ultimately show ?thesis by simp
qed

text \<open>The map \<open>byID\<close> while the elements of both sides are folded in.\<close>

definition byid_inv :: "(string \<Rightarrow> string \<times> string) \<Rightarrow> (string, RGAElem) fmap \<Rightarrow> bool" where
  "byid_inv inserted m \<longleftrightarrow> (\<forall>i e. fmlookup m i = Some e \<longrightarrow> re_ID e = i \<and> inserted i = (re_Value e, re_After e))"

definition byid_dels :: "(string, RGAElem) fmap \<Rightarrow> string set" where
  "byid_dels m = {i. \<exists>e. fmlookup m i = Some e \<and> re_Deleted e}"

definition byid_add :: "RGAElem \<Rightarrow> (string, RGAElem) fmap \<Rightarrow> (string, RGAElem) fmap" where
  "byid_add e byID = (case fmlookup byID (re_ID e) of
              Some cur \<Rightarrow> fmupd (re_ID e) (cur\<lparr>re_Deleted := re_Deleted cur \<or> re_Deleted e\<rparr>) byID
            | None \<Rightarrow> fmupd (re_ID e) e byID)"

lemma byid_add_spec:
  assumes "byid_inv inserted m" and "inserted (re_ID e) = (re_Value e, re_After e)"
  shows "byid_inv inserted (byid_add e m)" and "fmdom' (byid_add e m) = insert (re_ID e) (fmdom' m)"
    and "byid_dels (byid_add e m) = (if re_Deleted e then {re_ID e} else {}) \<union> byid_dels m"
  using assms by (auto simp: byid_add_def byid_inv_def byid_dels_def fmlookup_dom'_iff split: option.splits)

lemma byid_fold_spec:
  "byid_inv inserted m \<Longrightarrow> \<forall>e \<in> set es. inserted (re_ID e) = (re_Value e, re_After e) \<Longrightarrow>
   byid_inv inserted (fold byid_add es m) \<and> fmdom' (fold byid_add es m) = re_ID ` set es \<union> fmdom' m \<and>
   byid_dels (fold byid_add es m) = re_ID ` {e \<in> set es. re_Deleted e} \<union> byid_dels m"
proof (induction es arbitrary: m)
  case (Cons e es)
  note step = byid_add_spec [OF Cons.prems(1), of e]
  have "byid_inv inserted (fold byid_add es (byid_add e m)) \<and>
      fmdom' (fold byid_add es (byid_add e m)) = re_ID ` set es \<union> fmdom' (byid_add e m) \<and>
      byid_dels (fold byid_add es (byid_add e m)) = re_ID ` {e \<in> set es. re_Deleted e} \<union> byid_dels (byid_add e m)"
    using Cons.prems step by (intro Cons.IH) simp_all
  then show ?case using Cons.prems step by auto
qed simp

lemma RGA_Merge_eq:
  "RGA_Merge a b = \<lparr>ra_Type = RGAType,
     ra_Elems = sort_key re_ID (map snd (sorted_list_of_fmap (fold byid_add (ra_Elems a @ ra_Elems b) fmempty)))\<rparr>"
proof -
  have "fold (\<lambda>(k, e) out. out @ [e]) xs acc = acc @ map snd xs" for xs :: "(string \<times> RGAElem) list" and acc
    by (induction xs arbitrary: acc) auto
  then show ?thesis
    by (simp add: RGA_Merge_def byid_add_def [abs_def] go_range_def)
qed

lemma RGA_Merge_spec:
  assumes "rga_ok inserted a" and "rga_ok inserted b"
  shows "rga_ok inserted (RGA_Merge a b)" and "rga_ids (RGA_Merge a b) = rga_ids a \<union> rga_ids b"
    and "rga_dels (RGA_Merge a b) = rga_dels a \<union> rga_dels b"
proof -
  define m where "m = fold byid_add (ra_Elems a @ ra_Elems b) fmempty"
  have "byid_inv inserted fmempty" by (simp add: byid_inv_def)
  moreover have "\<forall>e \<in> set (ra_Elems a @ ra_Elems b). inserted (re_ID e) = (re_Value e, re_After e)"
    using assms unfolding rga_ok_def by auto
  moreover have "byid_dels fmempty = {}" by (simp add: byid_dels_def)
  moreover have "{e \<in> set (ra_Elems a @ ra_Elems b). re_Deleted e} =
      {e \<in> set (ra_Elems a). re_Deleted e} \<union> {e \<in> set (ra_Elems b). re_Deleted e}" by auto
  ultimately have spec: "byid_inv inserted m" "fmdom' m = rga_ids a \<union> rga_ids b" "byid_dels m = rga_dels a \<union> rga_dels b"
    using byid_fold_spec [of inserted fmempty "ra_Elems a @ ra_Elems b"]
    by (simp_all only: m_def rga_ids_def rga_dels_def set_append image_Un fmdom'_empty Un_empty_right)
  define es where "es = map snd (sorted_list_of_fmap m)"
  have inES: "e \<in> set es \<longleftrightarrow> fmlookup m (re_ID e) = Some e" for e
    using spec(1) by (force simp: es_def byid_inv_def image_iff)
  have "map re_ID es = go_keys m"
    using spec(1) by (auto simp: es_def go_keys_def byid_inv_def)
  then have keys: "sorted (map re_ID es)" "distinct (map re_ID es)" "re_ID ` set es = fmdom' m"
    by (simp_all flip: set_map)
  have el: "ra_Elems (RGA_Merge a b) = es" "ra_Type (RGA_Merge a b) = RGAType"
    unfolding RGA_Merge_eq m_def [symmetric] es_def [symmetric] by (simp_all add: sort_key_id_if_sorted keys(1))
  show "rga_ok inserted (RGA_Merge a b)"
    unfolding rga_ok_def el
  proof (intro conjI ballI)
    fix e
    assume "e \<in> set es"
    then show "inserted (re_ID e) = (re_Value e, re_After e)" using inES spec(1) unfolding byid_inv_def by blast
  qed (simp_all add: keys(1,2))
  show "rga_ids (RGA_Merge a b) = rga_ids a \<union> rga_ids b"
    using keys(3) spec(2) by (simp add: rga_ids_def el)
  have "re_ID ` {e \<in> set es. re_Deleted e} = byid_dels m"
  proof (intro equalityI subsetI)
    fix i
    assume "i \<in> byid_dels m"
    then obtain e where "fmlookup m i = Some e" "re_Deleted e" by (auto simp: byid_dels_def)
    moreover from this have "re_ID e = i" using spec(1) unfolding byid_inv_def by blast
    ultimately show "i \<in> re_ID ` {e \<in> set es. re_Deleted e}" using inES [of e] by auto
  qed (auto simp: byid_dels_def inES)
  then show "rga_dels (RGA_Merge a b) = rga_dels a \<union> rga_dels b"
    using spec(3) by (simp add: rga_dels_def el)
qed

interpretation rga: merge_crdt RGA_Merge "rga_ok inserted" for inserted
  by unfold_locales (auto simp: RGA_Merge_spec [of inserted] intro!: rga_ext [of inserted])

section \<open>Properties\<close>

text \<open>
  C33. The sequence the array shows is a total order of its elements: when ids are unique, \<open>order\<close>
  lists every element exactly once, whatever the links (cycles and missing anchors included), and
  every element whose chain of anchors leads to the head comes after the element it was inserted
  after.
\<close>

theorem rga_order_complete:
  assumes "distinct (map re_ID (ra_Elems a))"
  shows "mset (RGA_order a) = mset (ra_Elems a) \<and>
    (\<forall>i < length (RGA_order a). anchored (ra_Elems a) (RGA_order a ! i) \<longrightarrow>
       re_After (RGA_order a ! i) = [] \<or> (\<exists>j < i. re_ID (RGA_order a ! j) = re_After (RGA_order a ! i)))"
proof -
  obtain visited out where inv: "walk_inv (ra_Elems a) [] visited out"
    and ord: "RGA_order a = out @ sort_ID_desc (filter (\<lambda>e. re_ID e \<notin> set visited) (ra_Elems a))"
    using rga_order_split [OF assms] .
  have vis: "set visited = re_ID ` set out" and out: "distinct (map re_ID out)" "set out \<subseteq> set (ra_Elems a)"
    and pf: "parent_first out" using inv unfolding walk_inv_def by blast+
  have inj: "inj_on re_ID (set (ra_Elems a))" and dist: "distinct (ra_Elems a)"
    using assms by (simp_all add: distinct_map)
  define rest where "rest = filter (\<lambda>e. re_ID e \<notin> set visited) (ra_Elems a)"
  have "e \<in> set out" if "e \<in> set (ra_Elems a)" "re_ID e \<in> set visited" for e
    using that inj out(2) unfolding vis inj_on_def by blast
  then have "set (ra_Elems a) = set out \<union> set rest" "set out \<inter> set rest = {}"
    using out(2) by (auto simp: rest_def vis)
  moreover have "distinct out" "distinct rest" using out(1) dist by (simp_all add: distinct_map rest_def)
  ultimately have "distinct (out @ rest)" "set (out @ rest) = set (ra_Elems a)" by simp_all
  then have perm: "mset (out @ rest) = mset (ra_Elems a)"
    using dist set_eq_iff_mset_eq_distinct by blast
  have "i < length out" if "i < length (RGA_order a)" "anchored (ra_Elems a) (RGA_order a ! i)" for i
  proof (rule ccontr)
    assume "\<not> i < length out"
    then have "RGA_order a ! i \<in> set rest"
      using that(1) nth_mem [of "i - length out" "sort_ID_desc rest"]
      by (simp add: ord rest_def nth_append)
    then show False using anchored_visited [OF that(2) inv] by (simp add: rest_def)
  qed
  moreover have "RGA_order a ! i = out ! i" if "i < length out" for i
    using that by (simp add: ord nth_append)
  ultimately have "re_After (RGA_order a ! i) = [] \<or> (\<exists>j < i. re_ID (RGA_order a ! j) = re_After (RGA_order a ! i))"
    if "i < length (RGA_order a)" "anchored (ra_Elems a) (RGA_order a ! i)" for i
    using that pf unfolding parent_first_def by (metis less_trans)
  then show ?thesis using perm by (simp add: ord rest_def sort_ID_desc_def)
qed

theorem rga_order_complete_witness:
  "let e = \<lambda>i v a. \<lparr>re_ID = i, re_Value = v, re_After = a, re_Deleted = False\<rparr>;
       r = \<lparr>ra_Type = RGAType, ra_Elems = [e ''a:1'' ''h'' [], e ''a:2'' ''i'' ''a:1'', e ''b:1'' ''!'' ''a:1'', e ''z'' ''?'' ''gone'']\<rparr>
   in RGA_Value r = ''h!i?'' \<and> mset (RGA_order r) = mset (ra_Elems r)"
proof -
  define e :: "string \<Rightarrow> string \<Rightarrow> string \<Rightarrow> RGAElem" where
    "e = (\<lambda>i v a. \<lparr>re_ID = i, re_Value = v, re_After = a, re_Deleted = False\<rparr>)"
  define r where "r = \<lparr>ra_Type = RGAType,
    ra_Elems = [e ''a:1'' ''h'' [], e ''a:2'' ''i'' ''a:1'', e ''b:1'' ''!'' ''a:1'', e ''z'' ''?'' ''gone'']\<rparr>"
  have "RGA_Value r = ''h!i?''" unfolding r_def e_def by code_simp
  moreover have "distinct (map re_ID (ra_Elems r))" by (simp add: r_def e_def)
  ultimately have "RGA_Value r = ''h!i?'' \<and> mset (RGA_order r) = mset (ra_Elems r)"
    using rga_order_complete [of r] by blast
  then show ?thesis unfolding Let_def r_def e_def .
qed

text \<open>Replicated arrays converge: replicas whose elements agree on payload and anchor per id, and
  which have merged the same set of states in any order and with any repetition, hold the same
  elements and show the same text; a deletion recorded in any of the states is kept.
\<close>

theorem rga_convergence:
  assumes "\<forall>x \<in> set (s # xs). rga_ok inserted x" and "set (s # xs) = set (t # ys)"
  shows "fold (\<lambda>x acc. RGA_Merge acc x) xs s = fold (\<lambda>x acc. RGA_Merge acc x) ys t \<and>
    RGA_Value (fold (\<lambda>x acc. RGA_Merge acc x) xs s) = RGA_Value (fold (\<lambda>x acc. RGA_Merge acc x) ys t) \<and>
    (\<forall>x \<in> set (s # xs). rga_dels x \<subseteq> rga_dels (fold (\<lambda>x acc. RGA_Merge acc x) xs s))"
proof -
  have ok: "rga_ok inserted s" "\<forall>x \<in> set xs. rga_ok inserted x" using assms(1) by simp_all
  have eq: "fold (\<lambda>x acc. RGA_Merge acc x) xs s = fold (\<lambda>x acc. RGA_Merge acc x) ys t"
    using rga.convergence [OF ok, unfolded rga.receive_def] assms(2) by simp
  have "rga_dels x \<subseteq> rga_dels (fold (\<lambda>x acc. RGA_Merge acc x) xs s)" if "x \<in> set (s # xs)" for x
  proof -
    let ?f = "fold (\<lambda>x acc. RGA_Merge acc x) xs s"
    have "RGA_Merge x ?f = ?f" "rga_ok inserted x" "rga_ok inserted ?f"
      using rga.receive_upper [OF ok, of x] rga.receive_ok [OF ok] that assms(1) by (auto simp: rga.receive_def)
    then show ?thesis using RGA_Merge_spec(3) [of inserted x ?f] by auto
  qed
  with eq show ?thesis by auto
qed

theorem rga_convergence_witness:
  "let e = \<lambda>i v a d. \<lparr>re_ID = i, re_Value = v, re_After = a, re_Deleted = d\<rparr>;
       r = \<lparr>ra_Type = RGAType, ra_Elems = [e ''a:1'' ''h'' [] False, e ''a:2'' ''i'' ''a:1'' False]\<rparr>;
       q = \<lparr>ra_Type = RGAType, ra_Elems = [e ''a:1'' ''h'' [] True, e ''b:1'' ''o'' ''a:1'' False]\<rparr>
   in RGA_Merge r q = RGA_Merge q r \<and> RGA_Value (RGA_Merge r q) = ''oi''"
proof -
  define e :: "string \<Rightarrow> string \<Rightarrow> string \<Rightarrow> bool \<Rightarrow> RGAElem" where
    "e = (\<lambda>i v a d. \<lparr>re_ID = i, re_Value = v, re_After = a, re_Deleted = d\<rparr>)"
  define r where "r = \<lparr>ra_Type = RGAType, ra_Elems = [e ''a:1'' ''h'' [] False, e ''a:2'' ''i'' ''a:1'' False]\<rparr>"
  define q where "q = \<lparr>ra_Type = RGAType, ra_Elems = [e ''a:1'' ''h'' [] True, e ''b:1'' ''o'' ''a:1'' False]\<rparr>"
  define inserted where "inserted = (\<lambda>i. if i = ''a:1'' then (''h'', []) else if i = ''a:2'' then (''i'', ''a:1'')
    else (''o'', ''a:1'' :: string))"
  have "rga_ok inserted r" "rga_ok inserted q"
    unfolding rga_ok_def r_def q_def e_def inserted_def by code_simp+
  then have "RGA_Merge r q = RGA_Merge q r"
    using rga_convergence [of r "[q]" inserted q "[r]"] by auto
  moreover have "RGA_Value (RGA_Merge r q) = ''oi''" unfolding r_def q_def e_def by code_simp
  ultimately have "RGA_Merge r q = RGA_Merge q r \<and> RGA_Value (RGA_Merge r q) = ''oi''" ..
  then show ?thesis unfolding Let_def r_def q_def e_def .
qed

end
