(* ===== verification/Conflict.thy ===== *)
theory Conflict
  imports RGA
begin

text \<open>
  The conflict resolvers of \<open>internal/conflict\<close> (\<open>resolver.go\<close>, \<open>lww.go\<close>, \<open>vectorclock.go\<close> and the
  resolver part of \<open>crdt.go\<close>). A resolver is a value of the datatype \<open>ConflictResolver\<close>, whose
  constructors are the implementations of the Go interface; the vector-clock resolver carries its
  fallback. \<open>time.Now()\<close> is the argument \<open>now\<close>. Reasons are kept as data instead of formatted text.
  The JSON codec of the CRDT values is the parameter \<open>CrdtCodec\<close>: one decoder per type and one
  encoder per type.
\<close>

datatype ResolverType = ResolverLWW | ResolverVectorClock | ResolverCRDT | ResolverManual

datatype Reason = PendingManual | ManualChoice string | LocalNewer | RemoteNewer | TieRemote node_id node_id | TieLocal node_id node_id
  | LocalHasNoVClock | RemoteHasNoVClock | RemoteHappensBeforeLocal vclock vclock | LocalHappensBeforeRemote vclock vclock
  | ConcurrentFallbackTo ResolverType Reason
  | GCounterMerge | PNCounterMerge | ORSetMerge | LWWMapMerge | RGAMerge | LwwRegisterLocal | LwwRegisterRemote

record Conflict =
  cf_ID :: string
  cf_Key :: string
  cf_Local :: KVEntry
  cf_Remote :: KVEntry
  cf_DetectedAt :: int
  cf_NodeID :: node_id
  cf_ClusterID :: string

record Resolution =
  rs_ConflictID :: string
  rs_Winner :: KVEntry
  rs_ResolverType :: ResolverType
  rs_Reason :: Reason
  rs_ResolvedAt :: int

section \<open>CRDT values\<close>

text \<open>Decoders return \<open>None\<close> on a JSON error; a counter without a \<open>counts\<close> object has nil counts.\<close>

record CrdtCodec =
  cc_tag :: "bytes \<Rightarrow> string option"
  cc_gcounter :: "bytes \<Rightarrow> (string \<times> (node_id, u64) fmap option) option"
  cc_pncounter :: "bytes \<Rightarrow> PNCounter option"
  cc_orset :: "bytes \<Rightarrow> ORSet option"
  cc_lwwmap :: "bytes \<Rightarrow> LWWMap option"
  cc_rga :: "bytes \<Rightarrow> RGA option"
  cc_enc_gcounter :: "GCounter \<Rightarrow> bytes"
  cc_enc_pncounter :: "PNCounter \<Rightarrow> bytes"
  cc_enc_orset :: "ORSet \<Rightarrow> bytes"
  cc_enc_lwwmap :: "LWWMap \<Rightarrow> bytes"
  cc_enc_rga :: "RGA \<Rightarrow> bytes"

definition merge_decoded :: "('a \<Rightarrow> 'a \<Rightarrow> 'a) \<Rightarrow> ('a \<Rightarrow> bytes) \<Rightarrow> Reason \<Rightarrow> 'a option \<Rightarrow> 'a option \<Rightarrow> (bytes \<times> Reason) option" where
  "merge_decoded merge enc reason x y =
     (case x of None \<Rightarrow> None | Some a \<Rightarrow> (case y of None \<Rightarrow> None | Some b \<Rightarrow> Some (enc (merge a b), reason)))"

text \<open>A decoded grow-only counter counts only when its map is not nil.\<close>

definition decode_gcounter :: "CrdtCodec \<Rightarrow> bytes \<Rightarrow> GCounter option" where
  "decode_gcounter cc v =
     (case cc_gcounter cc v of Some (t, Some m) \<Rightarrow> Some \<lparr>gc_Type = t, gc_Counts = m\<rparr> | _ \<Rightarrow> None)"

definition mergeCRDT :: "CrdtCodec \<Rightarrow> bytes \<Rightarrow> bytes \<Rightarrow> (bytes \<times> Reason) option" where
  "mergeCRDT cc v w =
     (case cc_tag cc v of None \<Rightarrow> None
      | Some lt \<Rightarrow> (case cc_tag cc w of None \<Rightarrow> None
        | Some rt \<Rightarrow>
          if lt = [] \<or> lt \<noteq> rt then None
          else if lt = GCounterType then
            merge_decoded GCounter_Merge (cc_enc_gcounter cc) GCounterMerge (decode_gcounter cc v) (decode_gcounter cc w)
          else if lt = PNCounterType then
            merge_decoded PNCounter_Merge (cc_enc_pncounter cc) PNCounterMerge (cc_pncounter cc v) (cc_pncounter cc w)
          else if lt = ORSetType then
            merge_decoded ORSet_Merge (cc_enc_orset cc) ORSetMerge (cc_orset cc v) (cc_orset cc w)
          else if lt = LWWMapType then
            merge_decoded LWWMap_Merge (cc_enc_lwwmap cc) LWWMapMerge (cc_lwwmap cc v) (cc_lwwmap cc w)
          else if lt = RGAType then
            merge_decoded RGA_Merge (cc_enc_rga cc) RGAMerge (cc_rga cc v) (cc_rga cc w)
          else None))"

definition max64 :: "int \<Rightarrow> int \<Rightarrow> int" where
  "max64 a b = (if a > b then a else b)"

definition maxStr :: "string \<Rightarrow> string \<Rightarrow> string" where
  "maxStr a b = (if a > b then a else b)"

section \<open>Resolvers\<close>

definition mk_resolution :: "Conflict \<Rightarrow> int \<Rightarrow> ResolverType \<Rightarrow> KVEntry \<Rightarrow> Reason \<Rightarrow> Resolution" where
  "mk_resolution c now t w r = \<lparr>rs_ConflictID = cf_ID c, rs_Winner = w, rs_ResolverType = t, rs_Reason = r, rs_ResolvedAt = now\<rparr>"

definition ManualResolver_Resolve :: "int \<Rightarrow> Conflict \<Rightarrow> Resolution" where
  "ManualResolver_Resolve now c = mk_resolution c now ResolverManual (cf_Local c) PendingManual"

definition LWWResolver_Resolve :: "int \<Rightarrow> Conflict \<Rightarrow> Resolution" where
  "LWWResolver_Resolve now c =
     (let l = cf_Local c; r = cf_Remote c in
      if kv_Timestamp r > kv_Timestamp l then mk_resolution c now ResolverLWW r RemoteNewer
      else if kv_Timestamp r = kv_Timestamp l then
        (if kv_NodeID r > kv_NodeID l
         then mk_resolution c now ResolverLWW r (TieRemote (kv_NodeID r) (kv_NodeID l))
         else mk_resolution c now ResolverLWW l (TieLocal (kv_NodeID l) (kv_NodeID r)))
      else mk_resolution c now ResolverLWW l LocalNewer)"

text \<open>
  The two registers the resolver allocates, with the address that \<open>winner == remoteReg\<close> compares.
\<close>

record LWWRegisterAt = LWWRegister +
  lr_addr :: nat

text \<open>
  Merging a non-nil local clock with the remote one; \<open>c.Local.VClock.Clone()\<close> of a nil clock is a new
  empty map, so the result is never nil.
\<close>

definition CRDTResolver_Resolve :: "CrdtCodec \<Rightarrow> int \<Rightarrow> Conflict \<Rightarrow> Resolution" where
  "CRDTResolver_Resolve cc now c =
     (let l = cf_Local c; r = cf_Remote c in
      case mergeCRDT cc (kv_Value l) (kv_Value r) of
        Some (mergedBytes, reason) \<Rightarrow>
          mk_resolution c now ResolverCRDT
            \<lparr>kv_Key = kv_Key l, kv_Value = mergedBytes,
             kv_VClock = Some (VectorClock_Merge (VectorClock_Clone (vc_of (kv_VClock l))) (vc_of (kv_VClock r))),
             kv_Timestamp = max64 (kv_Timestamp l) (kv_Timestamp r), kv_NodeID = maxStr (kv_NodeID l) (kv_NodeID r),
             kv_Tombstone = False, kv_Version = 0\<rparr> reason
      | None \<Rightarrow>
          (let localReg = \<lparr>lr_Value = kv_Value l, lr_Timestamp = kv_Timestamp l, lr_NodeID = kv_NodeID l, lr_addr = 0\<rparr>;
               remoteReg = \<lparr>lr_Value = kv_Value r, lr_Timestamp = kv_Timestamp r, lr_NodeID = kv_NodeID r, lr_addr = 1\<rparr>;
               winner = LWWRegister_Merge localReg remoteReg
           in if lr_addr winner = lr_addr remoteReg
              then mk_resolution c now ResolverCRDT r LwwRegisterRemote
              else mk_resolution c now ResolverCRDT l LwwRegisterLocal))"

datatype ConflictResolver = LWWResolver | VectorClockResolver ConflictResolver | CRDTResolver | ManualResolver

text \<open>\<open>NewVectorClockResolver(nil)\<close> falls back to last-write-wins.\<close>

definition NewVectorClockResolver :: "ConflictResolver option \<Rightarrow> ConflictResolver" where
  "NewVectorClockResolver fallback =
     VectorClockResolver (case fallback of None \<Rightarrow> LWWResolver | Some f \<Rightarrow> f)"

fun Resolver_Type :: "ConflictResolver \<Rightarrow> ResolverType" where
  "Resolver_Type LWWResolver = ResolverLWW"
| "Resolver_Type (VectorClockResolver f) = ResolverVectorClock"
| "Resolver_Type CRDTResolver = ResolverCRDT"
| "Resolver_Type ManualResolver = ResolverManual"

fun Resolve :: "CrdtCodec \<Rightarrow> ConflictResolver \<Rightarrow> int \<Rightarrow> Conflict \<Rightarrow> Resolution" where
  "Resolve cc LWWResolver now c = LWWResolver_Resolve now c"
| "Resolve cc CRDTResolver now c = CRDTResolver_Resolve cc now c"
| "Resolve cc ManualResolver now c = ManualResolver_Resolve now c"
| "Resolve cc (VectorClockResolver fallback) now c =
     (let l = cf_Local c; r = cf_Remote c in
      case (kv_VClock l, kv_VClock r) of
        (None, None) \<Rightarrow> Resolve cc fallback now c
      | (None, Some _) \<Rightarrow> mk_resolution c now ResolverVectorClock r LocalHasNoVClock
      | (Some _, None) \<Rightarrow> mk_resolution c now ResolverVectorClock l RemoteHasNoVClock
      | (Some localVC, Some remoteVC) \<Rightarrow>
          if VectorClock_HappensBefore remoteVC localVC
          then mk_resolution c now ResolverVectorClock l (RemoteHappensBeforeLocal localVC remoteVC)
          else if VectorClock_HappensBefore localVC remoteVC
          then mk_resolution c now ResolverVectorClock r (LocalHappensBeforeRemote localVC remoteVC)
          else (let res = Resolve cc fallback now c
                in res\<lparr>rs_Reason := ConcurrentFallbackTo (Resolver_Type fallback) (rs_Reason res)\<rparr>))"

section \<open>Properties\<close>

text \<open>The same conflict seen from the other replica.\<close>

definition mirror :: "Conflict \<Rightarrow> Conflict" where
  "mirror c = c\<lparr>cf_Local := cf_Remote c, cf_Remote := cf_Local c\<rparr>"

text \<open>Resolvers that decide by themselves: everything but the manual one.\<close>

fun automatic :: "ConflictResolver \<Rightarrow> bool" where
  "automatic ManualResolver = False"
| "automatic (VectorClockResolver f) = automatic f"
| "automatic _ = True"

text \<open>The decoded values are states the CRDT types build (see the \<open>_ok\<close> predicates there).\<close>

definition codec_ok :: "CrdtCodec \<Rightarrow> (string \<Rightarrow> string \<times> string) \<Rightarrow> bytes \<Rightarrow> bool" where
  "codec_ok cc inserted v \<longleftrightarrow>
     (\<forall>t m. cc_gcounter cc v = Some (t, Some m) \<longrightarrow> vc_wf m) \<and>
     (\<forall>a. cc_pncounter cc v = Some a \<longrightarrow> pncounter_ok a) \<and>
     (\<forall>a. cc_orset cc v = Some a \<longrightarrow> orset_ok a) \<and>
     (\<forall>a. cc_lwwmap cc v = Some a \<longrightarrow> lwwmap_ok a) \<and>
     (\<forall>a. cc_rga cc v = Some a \<longrightarrow> rga_ok inserted a)"

lemma merge_decoded_comm:
  "(\<And>a b. x = Some a \<Longrightarrow> y = Some b \<Longrightarrow> merge a b = merge b a) \<Longrightarrow>
   merge_decoded merge enc reason x y = merge_decoded merge enc reason y x"
  by (cases x; cases y) (auto simp: merge_decoded_def intro: arg_cong [of _ _ enc])

lemma decode_gcounter_Some:
  "decode_gcounter cc v = Some g \<Longrightarrow> cc_gcounter cc v = Some (gc_Type g, Some (gc_Counts g))"
  by (auto simp: decode_gcounter_def split: option.splits prod.splits)

lemma mergeCRDT_comm:
  assumes v: "codec_ok cc inserted v" and w: "codec_ok cc inserted w"
  shows "mergeCRDT cc v w = mergeCRDT cc w v"
proof -
  have g: "merge_decoded GCounter_Merge (cc_enc_gcounter cc) GCounterMerge (decode_gcounter cc v) (decode_gcounter cc w) =
      merge_decoded GCounter_Merge (cc_enc_gcounter cc) GCounterMerge (decode_gcounter cc w) (decode_gcounter cc v)"
  proof (rule merge_decoded_comm)
    fix a b
    assume "decode_gcounter cc v = Some a" "decode_gcounter cc w = Some b"
    then have "vc_wf (gc_Counts a)" "vc_wf (gc_Counts b)"
      using v w unfolding codec_ok_def by (blast dest: decode_gcounter_Some)+
    then show "GCounter_Merge a b = GCounter_Merge b a" by (simp add: GCounter_Merge_eq Merge_comm_wf)
  qed
  have p: "merge_decoded PNCounter_Merge (cc_enc_pncounter cc) PNCounterMerge (cc_pncounter cc v) (cc_pncounter cc w) =
      merge_decoded PNCounter_Merge (cc_enc_pncounter cc) PNCounterMerge (cc_pncounter cc w) (cc_pncounter cc v)"
    using v w by (intro merge_decoded_comm pncounter.merge_comm) (simp_all add: codec_ok_def)
  have s: "merge_decoded ORSet_Merge (cc_enc_orset cc) ORSetMerge (cc_orset cc v) (cc_orset cc w) =
      merge_decoded ORSet_Merge (cc_enc_orset cc) ORSetMerge (cc_orset cc w) (cc_orset cc v)"
    using v w by (intro merge_decoded_comm orset.merge_comm) (simp_all add: codec_ok_def)
  have m: "merge_decoded LWWMap_Merge (cc_enc_lwwmap cc) LWWMapMerge (cc_lwwmap cc v) (cc_lwwmap cc w) =
      merge_decoded LWWMap_Merge (cc_enc_lwwmap cc) LWWMapMerge (cc_lwwmap cc w) (cc_lwwmap cc v)"
    using v w by (intro merge_decoded_comm lwwmap.merge_comm) (simp_all add: codec_ok_def)
  have r: "merge_decoded RGA_Merge (cc_enc_rga cc) RGAMerge (cc_rga cc v) (cc_rga cc w) =
      merge_decoded RGA_Merge (cc_enc_rga cc) RGAMerge (cc_rga cc w) (cc_rga cc v)"
    using v w by (intro merge_decoded_comm rga.merge_comm [of inserted]) (simp_all add: codec_ok_def)
  show ?thesis
    unfolding mergeCRDT_def g p s m r by (simp split: option.splits)
qed

lemma happens_before_asym: "VectorClock_HappensBefore a b \<Longrightarrow> \<not> VectorClock_HappensBefore b a"
  unfolding HappensBefore_iff by (meson not_le)

lemma winner_mk [simp]: "rs_Winner (mk_resolution c now t w r) = w"
  by (simp add: mk_resolution_def)

definition entry_clock_wf :: "KVEntry \<Rightarrow> bool" where
  "entry_clock_wf e \<longleftrightarrow> vc_wf (vc_of (kv_VClock e))"



text \<open>The vector-clock resolver respects causality: with both clocks present, a version that happens
  before the other never wins; two concurrent or equal versions are decided by the fallback.
\<close>

theorem vector_clock_resolver_causal:
  assumes "kv_VClock (cf_Local c) = Some a" and "kv_VClock (cf_Remote c) = Some b"
  shows "rs_Winner (Resolve cc (VectorClockResolver f) now c) =
     (if VectorClock_HappensBefore a b then cf_Remote c
      else if VectorClock_HappensBefore b a then cf_Local c
      else rs_Winner (Resolve cc f now c))"
  using assms happens_before_asym [of a b] by (auto simp: Let_def)

theorem vector_clock_resolver_causal_witness:
  "let e = \<lambda>n ts. \<lparr>kv_Key = ''k'', kv_Value = Some ''v'', kv_VClock = Some (fmap_of_list [(''a'', n)]), kv_Timestamp = ts,
                kv_NodeID = ''a'', kv_Tombstone = False, kv_Version = 0\<rparr>;
       c = \<lparr>cf_ID = ''c1'', cf_Key = ''k'', cf_Local = e 1 9, cf_Remote = e 2 3, cf_DetectedAt = 0,
            cf_NodeID = ''a'', cf_ClusterID = ''x''\<rparr>
   in \<forall>cc. rs_Winner (Resolve cc (VectorClockResolver LWWResolver) 0 c) = e 2 3"
proof -
  have "VectorClock_HappensBefore (fmap_of_list [(''a'', 1)]) (fmap_of_list [(''a'', 2)])" by code_simp
  then show ?thesis unfolding Let_def by (simp add: vector_clock_resolver_causal del: Resolve.simps)
qed

end
