(* ===== verification/HashRing.thy ===== *)
theory HashRing
  imports Go_Prelude
begin

unbundle bit_operations_syntax

text \<open>
  The consistent-hash ring of \<open>internal/hashring/ring.go\<close>. The hash is FNV-1a over the bytes of the
  string (\<open>hash/fnv\<close>), computed on 64-bit words; the virtual-node labels are \<open>nodeID#i\<close> with \<open>i\<close> in
  decimal. \<open>sort.Slice\<close> leaves the order of equal tokens open; the model sorts stably.
\<close>

record vnode =
  vn_token :: u64
  vn_node :: node_id

record Ring =
  rg_tokens :: "vnode list"
  rg_nodes :: "(node_id, bool) fmap"
  rg_vnodes :: nat

definition NewRing :: "int \<Rightarrow> Ring" where
  "NewRing vnodes = \<lparr>rg_tokens = [], rg_nodes = fmempty, rg_vnodes = nat (if vnodes \<le> 0 then 128 else vnodes)\<rparr>"

text \<open>FNV-1a: \<open>hash ^= byte; hash *= prime\<close> for each byte, from the offset basis.\<close>

definition hashKey :: "string \<Rightarrow> u64" where
  "hashKey s = fold (\<lambda>c h. (h XOR of_nat (of_char c)) * 1099511628211) s 14695981039346656037"

text \<open>\<open>%d\<close> of a non-negative number.\<close>

fun decimal :: "nat \<Rightarrow> string" where
  "decimal n = (if n < 10 then [char_of (48 + n)] else decimal (n div 10) @ [char_of (48 + n mod 10)])"

declare decimal.simps [simp del]

definition node_tokens :: "nat \<Rightarrow> node_id \<Rightarrow> vnode list" where
  "node_tokens vnodes nodeID =
     map (\<lambda>i. \<lparr>vn_token = hashKey (nodeID @ ''#'' @ decimal i), vn_node = nodeID\<rparr>) [0..<vnodes]"

definition Ring_Add :: "Ring \<Rightarrow> node_id \<Rightarrow> Ring" where
  "Ring_Add r nodeID =
     (if bget (rg_nodes r) nodeID then r
      else r\<lparr>rg_nodes := fmupd nodeID True (rg_nodes r),
             rg_tokens := sort_key vn_token (rg_tokens r @ node_tokens (rg_vnodes r) nodeID)\<rparr>)"

definition Ring_Remove :: "Ring \<Rightarrow> node_id \<Rightarrow> Ring" where
  "Ring_Remove r nodeID =
     (if \<not> bget (rg_nodes r) nodeID then r
      else r\<lparr>rg_nodes := fmdrop nodeID (rg_nodes r),
             rg_tokens := filter (\<lambda>v. vn_node v \<noteq> nodeID) (rg_tokens r)\<rparr>)"

definition Ring_Nodes :: "Ring \<Rightarrow> node_id list" where
  "Ring_Nodes r = sort (go_range (\<lambda>n v out. out @ [n]) (rg_nodes r) [])"

text \<open>The loop of \<open>PreferenceList\<close>: \<open>i\<close> counts the tokens visited, \<open>seen\<close> the nodes already listed.\<close>

function pref_loop :: "vnode list \<Rightarrow> nat \<Rightarrow> nat \<Rightarrow> nat \<Rightarrow> (node_id, bool) fmap \<Rightarrow> node_id list \<Rightarrow> node_id list" where
  "pref_loop tokens start n i seen result =
     (if i < length tokens then
        (let v = tokens ! ((start + i) mod length tokens) in
         if bget seen (vn_node v) then pref_loop tokens start n (i + 1) seen result
         else (let result' = result @ [vn_node v] in
               if length result' = n then result'
               else pref_loop tokens start n (i + 1) (fmupd (vn_node v) True seen) result'))
      else result)"
  by pat_completeness auto
termination
  by (relation "measure (\<lambda>(tokens, start, n, i, seen, result). length tokens - i)") auto

declare pref_loop.simps [simp del]

definition Ring_PreferenceList :: "Ring \<Rightarrow> string \<Rightarrow> int \<Rightarrow> node_id list" where
  "Ring_PreferenceList r key n =
     (if n \<le> 0 \<or> rg_tokens r = [] then []
      else (let n' = (if nat n > go_len (rg_nodes r) then go_len (rg_nodes r) else nat n);
                h = hashKey key;
                start = go_search (length (rg_tokens r)) (\<lambda>i. vn_token (rg_tokens r ! i) \<ge> h);
                start' = (if start = length (rg_tokens r) then 0 else start)
            in pref_loop (rg_tokens r) start' n' 0 fmempty []))"

section \<open>First occurrences\<close>

fun firsts :: "'a list \<Rightarrow> 'a list \<Rightarrow> 'a list" where
  "firsts seen [] = []"
| "firsts seen (x # xs) = (if x \<in> set seen then firsts seen xs else x # firsts (x # seen) xs)"

lemma set_firsts: "set (firsts seen xs) = set xs - set seen"
  by (induction xs arbitrary: seen) auto

lemma distinct_firsts: "distinct (firsts seen xs)"
  by (induction xs arbitrary: seen) (auto simp: set_firsts)

lemma firsts_cong: "set xs \<inter> set seen = set xs \<inter> set seen' \<Longrightarrow> firsts seen xs = firsts seen' xs"
proof (induction xs arbitrary: seen seen')
  case (Cons x xs)
  have "x \<in> set seen \<longleftrightarrow> x \<in> set seen'" using Cons.prems by auto
  moreover have "firsts (x # seen) xs = firsts (x # seen') xs" using Cons.prems by (intro Cons.IH) auto
  moreover have "firsts seen xs = firsts seen' xs" using Cons.prems by (intro Cons.IH) auto
  ultimately show ?case by simp
qed simp

lemma filter_firsts: "filter P (firsts seen xs) = firsts seen (filter P xs)"
proof (induction xs arbitrary: seen)
  case (Cons x xs)
  have "firsts (x # seen) (filter P xs) = firsts seen (filter P xs)" if "\<not> P x"
    using that by (intro firsts_cong) auto
  then show ?case using Cons.IH by auto
qed simp

section \<open>The walk around the ring\<close>

lemma pref_loop_firsts:
  assumes "tokens \<noteq> []" and "length result < n" and "\<And>x. bget seen x \<longleftrightarrow> x \<in> set result"
  shows "pref_loop tokens start n i seen result =
     take n (result @ firsts result (map vn_node (drop i (rotate start tokens))))"
  using assms
proof (induction tokens start n i seen result rule: pref_loop.induct)
  case (1 tokens start n i seen result)
  show ?case
  proof (cases "i < length tokens")
    case False
    then show ?thesis using "1.prems"(2) by (simp add: pref_loop.simps [of tokens start n i])
  next
    case True
    define v where "v = tokens ! ((start + i) mod length tokens)"
    define rest where "rest = map vn_node (drop (i + 1) (rotate start tokens))"
    have step: "map vn_node (drop i (rotate start tokens)) = vn_node v # rest"
      using True by (subst Cons_nth_drop_Suc [symmetric]) (simp_all add: nth_rotate v_def rest_def add.commute)
    consider "bget seen (vn_node v)" | "\<not> bget seen (vn_node v)" "length result + 1 = n"
      | "\<not> bget seen (vn_node v)" "length result + 1 < n" using "1.prems"(2) by linarith
    then show ?thesis
    proof cases
      case 1
      have "pref_loop tokens start n i seen result = pref_loop tokens start n (i + 1) seen result"
        using True 1 by (simp add: pref_loop.simps [of tokens start n i] v_def)
      moreover have "vn_node v \<in> set result" using 1 "1.prems"(3) by blast
      ultimately show ?thesis
        using "1.IH"(1) [OF True v_def 1] "1.prems" by (simp add: step rest_def)
    next
      case 2
      have "pref_loop tokens start n i seen result = result @ [vn_node v]"
        using True 2 by (simp add: pref_loop.simps [of tokens start n i] v_def)
      moreover have "vn_node v \<notin> set result" using 2 "1.prems"(3) by blast
      ultimately show ?thesis using 2(2) [symmetric] by (simp add: step)
    next
      case 3
      define seen' where "seen' = fmupd (vn_node v) True seen"
      have fresh: "vn_node v \<notin> set result" using 3 "1.prems"(3) by blast
      have "pref_loop tokens start n i seen result = pref_loop tokens start n (i + 1) seen' (result @ [vn_node v])"
        using True 3 by (simp add: pref_loop.simps [of tokens start n i] Let_def v_def seen'_def)
      also have "\<dots> = take n ((result @ [vn_node v]) @ firsts (result @ [vn_node v]) rest)"
        unfolding rest_def seen'_def
        using "1.prems" 3 by (intro "1.IH"(2) [OF True v_def 3(1) refl]) auto
      also have "firsts (result @ [vn_node v]) rest = firsts (vn_node v # result) rest"
        by (rule firsts_cong) auto
      finally show ?thesis using fresh by (simp add: step)
    qed
  qed
qed

text \<open>
  What membership changes keep: the tokens are sorted and are exactly the virtual nodes of the member
  set; every member has at least one.
\<close>

definition ring_inv :: "Ring \<Rightarrow> bool" where
  "ring_inv r \<longleftrightarrow> sorted (map vn_token (rg_tokens r)) \<and> 0 < rg_vnodes r \<and>
     (\<forall>n v. fmlookup (rg_nodes r) n = Some v \<longrightarrow> v) \<and>
     vn_node ` set (rg_tokens r) = fmdom' (rg_nodes r) \<and>
     (\<forall>n \<in> fmdom' (rg_nodes r). filter (\<lambda>v. vn_node v = n) (rg_tokens r) = sort_key vn_token (node_tokens (rg_vnodes r) n))"

lemma ring_inv_bget: "ring_inv r \<Longrightarrow> bget (rg_nodes r) n \<longleftrightarrow> n \<in> fmdom' (rg_nodes r)"
  unfolding ring_inv_def bget_def fmlookup_dom'_iff by (metis (full_types))

lemma ring_inv_New: "ring_inv (NewRing k)"
  by (simp add: ring_inv_def NewRing_def)

lemma sort_key_idem [simp]: "sort_key f (sort_key f xs) = sort_key f xs"
  by (rule sort_key_id_if_sorted) (rule sorted_sort_key)

lemma node_of_node_tokens: "v \<in> set (node_tokens k n) \<Longrightarrow> vn_node v = n"
  by (auto simp: node_tokens_def)

lemma ring_inv_Add:
  assumes inv: "ring_inv r"
  shows "ring_inv (Ring_Add r x)"
proof (cases "x \<in> fmdom' (rg_nodes r)")
  case True
  then show ?thesis using inv by (simp add: Ring_Add_def ring_inv_bget)
next
  case False
  define new where "new = node_tokens (rg_vnodes r) x"
  have add: "Ring_Add r x = r\<lparr>rg_nodes := fmupd x True (rg_nodes r),
      rg_tokens := sort_key vn_token (rg_tokens r @ new)\<rparr>"
    using False inv by (simp add: Ring_Add_def ring_inv_bget new_def)
  have own: "vn_node ` set new = {x}"
    using inv by (auto simp: ring_inv_def new_def node_tokens_def image_iff intro!: bexI [of _ 0])
  have old: "vn_node ` set (rg_tokens r) = fmdom' (rg_nodes r)" using inv unfolding ring_inv_def by blast
  have "filter (\<lambda>v. vn_node v = n) (rg_tokens r @ new) =
      (if n = x then new else filter (\<lambda>v. vn_node v = n) (rg_tokens r))" for n
  proof -
    have "filter (\<lambda>v. vn_node v = n) new = (if n = x then new else [])"
      using own by (auto simp: filter_id_conv filter_empty_conv)
    moreover have "filter (\<lambda>v. vn_node v = x) (rg_tokens r) = []"
      using False old by (auto simp: filter_empty_conv)
    ultimately show ?thesis by auto
  qed
  then have groups: "filter (\<lambda>v. vn_node v = n) (sort_key vn_token (rg_tokens r @ new)) =
      sort_key vn_token (node_tokens (rg_vnodes r) n)" if "n \<in> insert x (fmdom' (rg_nodes r))" for n
    using inv that unfolding filter_sort ring_inv_def by (auto simp: new_def)
  show ?thesis
    unfolding add ring_inv_def using inv own old groups by (auto simp: ring_inv_def)
qed

lemma ring_inv_Remove:
  assumes inv: "ring_inv r"
  shows "ring_inv (Ring_Remove r x)"
proof (cases "x \<in> fmdom' (rg_nodes r)")
  case False
  then show ?thesis using inv by (simp add: Ring_Remove_def ring_inv_bget)
next
  case True
  have rm: "Ring_Remove r x = r\<lparr>rg_nodes := fmdrop x (rg_nodes r), rg_tokens := filter (\<lambda>v. vn_node v \<noteq> x) (rg_tokens r)\<rparr>"
    using True inv by (simp add: Ring_Remove_def ring_inv_bget)
  have "filter (\<lambda>v. vn_node v = n) (filter (\<lambda>v. vn_node v \<noteq> x) (rg_tokens r)) = filter (\<lambda>v. vn_node v = n) (rg_tokens r)"
    if "n \<noteq> x" for n using that by (auto intro!: filter_cong)
  then show ?thesis
    unfolding rm ring_inv_def using inv by (auto simp: ring_inv_def sorted_filter)
qed

datatype RingCall = RAdd node_id | RRemove node_id

fun ring_call :: "RingCall \<Rightarrow> Ring \<Rightarrow> Ring" where
  "ring_call (RAdd x) r = Ring_Add r x"
| "ring_call (RRemove x) r = Ring_Remove r x"

lemma ring_inv_calls: "ring_inv r \<Longrightarrow> ring_inv (fold ring_call cs r)"
proof (induction cs arbitrary: r)
  case (Cons c cs)
  then show ?case by (cases c) (simp_all add: ring_inv_Add ring_inv_Remove)
qed simp

section \<open>Preference lists\<close>

text \<open>The nodes in the order of their first token clockwise from a position.\<close>

definition clockwise :: "vnode list \<Rightarrow> u64 \<Rightarrow> node_id list" where
  "clockwise tokens h =
     firsts [] (map vn_node (filter (\<lambda>v. h \<le> vn_token v) tokens @ filter (\<lambda>v. vn_token v < h) tokens))"

lemma set_clockwise: "set (clockwise tokens h) = vn_node ` set tokens"
proof -
  have "set tokens = {v \<in> set tokens. h \<le> vn_token v} \<union> {v \<in> set tokens. vn_token v < h}" by auto
  then show ?thesis by (auto simp: clockwise_def set_firsts)
qed

lemma distinct_clockwise: "distinct (clockwise tokens h)"
  by (simp add: clockwise_def distinct_firsts)

lemma clockwise_filter: "clockwise (filter (\<lambda>v. vn_node v \<noteq> x) tokens) h = filter (\<lambda>n. n \<noteq> x) (clockwise tokens h)"
  unfolding clockwise_def filter_firsts by (simp add: filter_map comp_def conj_commute)

lemma go_len_card: "go_len m = card (fmdom' m)"
  by (simp add: go_len_def fcard.rep_eq fmdom'_alt_def)

lemma PreferenceList_clockwise:
  assumes inv: "ring_inv r" and "0 < n"
  shows "Ring_PreferenceList r key n = take (nat n) (clockwise (rg_tokens r) (hashKey key))"
proof (cases "rg_tokens r = []")
  case True
  then show ?thesis by (simp add: Ring_PreferenceList_def clockwise_def)
next
  case False
  define h where "h = hashKey key"
  define start where "start = go_search (length (rg_tokens r)) (\<lambda>i. h \<le> vn_token (rg_tokens r ! i))"
  define start' where "start' = (if start = length (rg_tokens r) then 0 else start)"
  define m where "m = (if nat n > go_len (rg_nodes r) then go_len (rg_nodes r) else nat n)"
  have srt: "sorted (map vn_token (rg_tokens r))" and nodes: "vn_node ` set (rg_tokens r) = fmdom' (rg_nodes r)"
    using inv unfolding ring_inv_def by blast+
  have size: "length (clockwise (rg_tokens r) h) = go_len (rg_nodes r)"
    using distinct_card [OF distinct_clockwise] by (simp add: set_clockwise nodes go_len_card)
  have "start \<le> length (rg_tokens r)"
  proof -
    have "mono_below (length (rg_tokens r)) (\<lambda>i. h \<le> vn_token (rg_tokens r ! i))"
      unfolding mono_below_def using sorted_nth_mono [OF srt] by fastforce
    then show ?thesis using go_search_split unfolding start_def split_at_def by blast
  qed
  then have "rotate start' (rg_tokens r) = drop start (rg_tokens r) @ take start (rg_tokens r)"
    by (auto simp: start'_def rotate_drop_take)
  also have "\<dots> = filter (\<lambda>v. h \<le> vn_token v) (rg_tokens r) @ filter (\<lambda>v. vn_token v < h) (rg_tokens r)"
    unfolding start_def go_search_sorted [OF srt] ..
  finally have rot: "map vn_node (drop 0 (rotate start' (rg_tokens r))) =
      map vn_node (filter (\<lambda>v. h \<le> vn_token v) (rg_tokens r) @ filter (\<lambda>v. vn_token v < h) (rg_tokens r))" by simp
  have "fmdom' (rg_nodes r) \<noteq> {}" using False nodes by (metis image_is_empty set_empty)
  then have "0 < m"
    using assms(2) by (auto simp: m_def go_len_card card_gt_0_iff)
  then have "pref_loop (rg_tokens r) start' m 0 fmempty [] = take m (clockwise (rg_tokens r) h)"
    unfolding clockwise_def rot [symmetric] using pref_loop_firsts [OF False, of "[]" m fmempty start' 0] by simp
  also have "\<dots> = take (nat n) (clockwise (rg_tokens r) h)"
    using size by (auto simp: m_def)
  finally have "pref_loop (rg_tokens r) start' m 0 fmempty [] = take (nat n) (clockwise (rg_tokens r) h)" .
  then show ?thesis
    using False assms(2)
    unfolding Ring_PreferenceList_def Let_def h_def [symmetric] start_def [symmetric] start'_def [symmetric] m_def [symmetric]
    by simp
qed

section \<open>Properties\<close>

text \<open>
  C20. A preference list names distinct member nodes, as many as asked for or all there are, and is
  the order in which a clockwise walk from the key's position first meets the nodes: after any
  sequence of membership changes, and whatever tokens collide.
\<close>

theorem preference_list_spec:
  assumes "r = fold ring_call cs (NewRing k)" and "0 < n"
  shows "Ring_PreferenceList r key n = take (nat n) (clockwise (rg_tokens r) (hashKey key)) \<and>
     distinct (Ring_PreferenceList r key n) \<and> set (Ring_PreferenceList r key n) \<subseteq> set (Ring_Nodes r) \<and>
     length (Ring_PreferenceList r key n) = min (nat n) (length (Ring_Nodes r))"
proof -
  have inv: "ring_inv r" using assms(1) ring_inv_calls [OF ring_inv_New] by simp
  note pl = PreferenceList_clockwise [OF inv assms(2), of key]
  have "fold (\<lambda>(n, v) out. out @ [n]) xs acc = acc @ map fst xs" for xs :: "(node_id \<times> bool) list" and acc
    by (induction xs arbitrary: acc) auto
  then have nodes: "Ring_Nodes r = sort (go_keys (rg_nodes r))"
    by (simp add: Ring_Nodes_def go_range_def go_keys_def)
  have dom: "vn_node ` set (rg_tokens r) = fmdom' (rg_nodes r)" using inv unfolding ring_inv_def by blast
  have "length (clockwise (rg_tokens r) (hashKey key)) = go_len (rg_nodes r)"
    using distinct_card [OF distinct_clockwise, of "rg_tokens r" "hashKey key"] by (simp add: set_clockwise dom go_len_card)
  moreover have "set (take (nat n) (clockwise (rg_tokens r) (hashKey key))) \<subseteq> fmdom' (rg_nodes r)"
    using set_take_subset set_clockwise dom by metis
  ultimately show ?thesis
    unfolding pl by (simp add: nodes distinct_clockwise)
qed

theorem preference_list_spec_witness:
  "length (Ring_PreferenceList (fold ring_call [RAdd ''a'', RAdd ''b'', RAdd ''c'', RRemove ''b''] (NewRing 2)) ''key'' 3) = 2"
proof -
  define r where "r = fold ring_call [RAdd ''a'', RAdd ''b'', RAdd ''c'', RRemove ''b''] (NewRing 2)"
  have "length (Ring_Nodes r) = 2" unfolding r_def by code_simp
  moreover have "length (Ring_PreferenceList r ''key'' 3) = min (nat 3) (length (Ring_Nodes r))"
    by (rule preference_list_spec [OF r_def, THEN conjunct2, THEN conjunct2, THEN conjunct2]) simp
  ultimately show ?thesis unfolding r_def [symmetric] by simp
qed

text \<open>
  Minimal disruption: when a node leaves, the preference list of every key is the old clockwise
  order with that node struck out, so only the leaving node's place is taken over and no other pair of
  nodes changes order. The same holds read backwards when a node joins.
\<close>

theorem ring_minimal_disruption:
  assumes "r = fold ring_call cs (NewRing k)" and "0 < n"
  shows "Ring_PreferenceList (Ring_Remove r x) key n =
           take (nat n) (filter (\<lambda>m. m \<noteq> x) (clockwise (rg_tokens r) (hashKey key))) \<and>
         (x \<notin> set (Ring_PreferenceList r key n) \<longrightarrow>
            Ring_PreferenceList (Ring_Remove r x) key n = Ring_PreferenceList r key n) \<and>
         filter (\<lambda>m. m \<noteq> x) (clockwise (rg_tokens (Ring_Add r x)) (hashKey key)) =
           filter (\<lambda>m. m \<noteq> x) (clockwise (rg_tokens r) (hashKey key))"
proof -
  have inv: "ring_inv r" using assms(1) ring_inv_calls [OF ring_inv_New] by simp
  have out: "rg_tokens (Ring_Remove r x) = filter (\<lambda>v. vn_node v \<noteq> x) (rg_tokens r)"
  proof (cases "x \<in> fmdom' (rg_nodes r)")
    case False
    have "vn_node ` set (rg_tokens r) = fmdom' (rg_nodes r)" using inv unfolding ring_inv_def by blast
    then have "filter (\<lambda>v. vn_node v \<noteq> x) (rg_tokens r) = rg_tokens r"
      using False by (auto simp: filter_id_conv)
    then show ?thesis using False inv by (simp add: Ring_Remove_def ring_inv_bget)
  qed (use inv in \<open>simp add: Ring_Remove_def ring_inv_bget\<close>)
  have rm: "Ring_PreferenceList (Ring_Remove r x) key n =
      take (nat n) (filter (\<lambda>m. m \<noteq> x) (clockwise (rg_tokens r) (hashKey key)))"
    using PreferenceList_clockwise [OF ring_inv_Remove [OF inv] assms(2), of x key]
    by (simp add: out clockwise_filter)
  have "take k (filter (\<lambda>m. m \<noteq> x) ys) = take k ys" if "x \<notin> set (take k ys)" for k and ys :: "node_id list"
    using that
  proof (induction ys arbitrary: k)
    case (Cons y ys)
    then show ?case by (cases k) auto
  qed simp
  then have keep: "Ring_PreferenceList (Ring_Remove r x) key n = Ring_PreferenceList r key n"
    if "x \<notin> set (Ring_PreferenceList r key n)"
    using that unfolding rm PreferenceList_clockwise [OF inv assms(2)] by blast
  have "filter (\<lambda>v. vn_node v \<noteq> x) (rg_tokens (Ring_Add r x)) = filter (\<lambda>v. vn_node v \<noteq> x) (rg_tokens r)"
  proof (cases "bget (rg_nodes r) x")
    case False
    have "sorted (map vn_token (filter (\<lambda>v. vn_node v \<noteq> x) (rg_tokens r)))"
      using inv unfolding ring_inv_def by (simp add: sorted_filter)
    moreover have "filter (\<lambda>v. vn_node v \<noteq> x) (node_tokens (rg_vnodes r) x) = []"
      using node_of_node_tokens by (auto simp: filter_empty_conv)
    ultimately show ?thesis using False by (simp add: Ring_Add_def filter_sort sort_key_id_if_sorted)
  qed (simp add: Ring_Add_def)
  then show ?thesis using rm keep by (simp flip: clockwise_filter)
qed

theorem ring_minimal_disruption_witness:
  "Ring_PreferenceList (Ring_Remove (fold ring_call [RAdd ''a'', RAdd ''b'', RAdd ''c''] (NewRing 1)) ''b'') ''key'' 2 =
     take 2 (filter (\<lambda>m. m \<noteq> ''b'') (clockwise
       (rg_tokens (fold ring_call [RAdd ''a'', RAdd ''b'', RAdd ''c''] (NewRing 1))) (hashKey ''key'')))"
  using ring_minimal_disruption [OF refl, of 2 "[RAdd ''a'', RAdd ''b'', RAdd ''c'']" 1 "''b''" "''key''"] by simp

end
