(* ===== verification/MVCC.thy ===== *)
theory MVCC
  imports Go_Prelude
begin

text \<open>
  The multi-version store of \<open>internal/mvcc/mvcc.go\<close>: per key a chain of versions in ascending
  timestamp order, read by binary search. Every theorem is about \<open>ReadAt\<close> on the chains the
  operations build.
\<close>

record Version =
  ve_Value :: bytes
  ve_Timestamp :: int
  ve_Tombstone :: bool

type_synonym mvcc = "(string, Version list) fmap"

definition mvcc_New :: mvcc where
  "mvcc_New = fmempty"

definition chain_of :: "mvcc \<Rightarrow> string \<Rightarrow> Version list" where
  "chain_of s key = (case fmlookup s key of None \<Rightarrow> [] | Some chain \<Rightarrow> chain)"

definition mvcc_append :: "mvcc \<Rightarrow> string \<Rightarrow> Version \<Rightarrow> mvcc" where
  "mvcc_append s key v =
     (let chain = chain_of s key in
      if length chain = 0 \<or> ve_Timestamp v \<ge> ve_Timestamp (chain ! (length chain - 1))
      then fmupd key (chain @ [v]) s
      else (let i = go_search (length chain) (\<lambda>i. ve_Timestamp (chain ! i) \<ge> ve_Timestamp v)
            in fmupd key (take i chain @ [v] @ drop i chain) s))"

definition mvcc_Put :: "mvcc \<Rightarrow> string \<Rightarrow> bytes \<Rightarrow> int \<Rightarrow> mvcc" where
  "mvcc_Put s key val ts = mvcc_append s key \<lparr>ve_Value = val, ve_Timestamp = ts, ve_Tombstone = False\<rparr>"

definition mvcc_Delete :: "mvcc \<Rightarrow> string \<Rightarrow> int \<Rightarrow> mvcc" where
  "mvcc_Delete s key ts = mvcc_append s key \<lparr>ve_Value = None, ve_Timestamp = ts, ve_Tombstone = True\<rparr>"

text \<open>\<open>append([]byte(nil), v.Value...)\<close>: a copy, nil when there is nothing to append.\<close>

definition copy_bytes :: "bytes \<Rightarrow> bytes" where
  "copy_bytes b = (case b of None \<Rightarrow> None | Some s \<Rightarrow> if s = [] then None else Some s)"

text \<open>The outer \<open>option\<close> is the \<open>ok\<close> result.\<close>

definition mvcc_ReadAt :: "mvcc \<Rightarrow> string \<Rightarrow> int \<Rightarrow> bytes option" where
  "mvcc_ReadAt s key ts =
     (let chain = chain_of s key in
      if length chain = 0 then None
      else (let i = go_search (length chain) (\<lambda>i. ve_Timestamp (chain ! i) > ts) in
        if i = 0 then None
        else (let v = chain ! (i - 1) in
          if ve_Tombstone v then None else Some (copy_bytes (ve_Value v)))))"

definition mvcc_Latest :: "mvcc \<Rightarrow> string \<Rightarrow> bytes option" where
  "mvcc_Latest s key =
     (let chain = chain_of s key in
      if length chain = 0 then None
      else (let v = chain ! (length chain - 1) in
        if ve_Tombstone v then None else Some (copy_bytes (ve_Value v))))"

definition mvcc_Compact :: "mvcc \<Rightarrow> string \<Rightarrow> int \<Rightarrow> mvcc" where
  "mvcc_Compact s key beforeTs =
     (let chain = chain_of s key in
      if length chain = 0 then s
      else (let i = go_search (length chain) (\<lambda>i. ve_Timestamp (chain ! i) \<ge> beforeTs);
                keepFrom = (if i > 0 then i - 1 else i)
            in if keepFrom = 0 then s else fmupd key (drop keepFrom chain) s))"

section \<open>Sorted chains\<close>

definition mvcc_inv :: "mvcc \<Rightarrow> bool" where
  "mvcc_inv s \<longleftrightarrow> (\<forall>key. sorted (map ve_Timestamp (chain_of s key)))"

lemma mvcc_inv_sorted: "mvcc_inv s \<Longrightarrow> sorted (map ve_Timestamp (chain_of s key))"
  by (simp add: mvcc_inv_def)

lemma chain_of_fmupd [simp]: "chain_of (fmupd k c s) k' = (if k' = k then c else chain_of s k')"
  by (simp add: chain_of_def)

lemma chain_of_New [simp]: "chain_of mvcc_New k = []"
  by (simp add: chain_of_def mvcc_New_def)

lemma chain_append:
  assumes "mvcc_inv s"
  shows "\<exists>pre post. chain_of s key = pre @ post \<and> chain_of (mvcc_append s key v) key = pre @ [v] @ post \<and>
    (\<forall>x \<in> set pre. ve_Timestamp x \<le> ve_Timestamp v) \<and> (\<forall>x \<in> set post. ve_Timestamp v \<le> ve_Timestamp x)"
proof -
  let ?c = "chain_of s key"
  note srt = mvcc_inv_sorted [OF assms, of key]
  show ?thesis
  proof (cases "length ?c = 0 \<or> ve_Timestamp v \<ge> ve_Timestamp (?c ! (length ?c - 1))")
    case True
    have "ve_Timestamp x \<le> ve_Timestamp v" if x: "x \<in> set ?c" for x
    proof -
      obtain i where i: "i < length ?c" "x = ?c ! i" using x by (auto simp: in_set_conv_nth)
      then have "ve_Timestamp x \<le> ve_Timestamp (?c ! (length ?c - 1))"
        using sorted_nth_mono [OF srt, of i "length ?c - 1"] by auto
      then show ?thesis using True i by auto
    qed
    then show ?thesis using True by (intro exI [of _ ?c] exI [of _ "[]"]) (simp add: mvcc_append_def)
  next
    case False
    let ?i = "go_search (length ?c) (\<lambda>i. ve_Timestamp v \<le> ve_Timestamp (?c ! i))"
    have "set (take ?i ?c) = {x \<in> set ?c. ve_Timestamp x < ve_Timestamp v}"
      "set (drop ?i ?c) = {x \<in> set ?c. ve_Timestamp v \<le> ve_Timestamp x}"
      unfolding go_search_sorted [OF srt] by simp_all
    then show ?thesis using False
      by (intro exI [of _ "take ?i ?c"] exI [of _ "drop ?i ?c"]) (simp add: mvcc_append_def Let_def)
  qed
qed

lemma chain_append_other: "k \<noteq> key \<Longrightarrow> chain_of (mvcc_append s key v) k = chain_of s k"
  by (simp add: mvcc_append_def Let_def)

lemma mvcc_inv_append: "mvcc_inv s \<Longrightarrow> mvcc_inv (mvcc_append s key v)"
  unfolding mvcc_inv_def
proof
  fix k
  assume inv: "\<forall>key. sorted (map ve_Timestamp (chain_of s key))"
  show "sorted (map ve_Timestamp (chain_of (mvcc_append s key v) k))"
  proof (cases "k = key")
    case True
    obtain pre post where c: "chain_of s key = pre @ post" "chain_of (mvcc_append s key v) key = pre @ [v] @ post"
      "\<forall>x \<in> set pre. ve_Timestamp x \<le> ve_Timestamp v" "\<forall>x \<in> set post. ve_Timestamp v \<le> ve_Timestamp x"
      using chain_append [of s key v] inv unfolding mvcc_inv_def by blast
    moreover have "sorted (map ve_Timestamp (pre @ post))" using inv c(1) by metis
    ultimately show ?thesis using True by (auto simp: sorted_append)
  qed (use inv in \<open>simp add: chain_append_other\<close>)
qed

lemma sorted_le_last: "sorted xs \<Longrightarrow> x \<in> set xs \<Longrightarrow> x \<le> last xs"
  by (induction xs) auto

text \<open>What a snapshot read sees: the last version at or before the timestamp.\<close>

definition visible :: "Version list \<Rightarrow> int \<Rightarrow> bytes option" where
  "visible chain ts =
     (let vs = filter (\<lambda>v. ve_Timestamp v \<le> ts) chain in
      if vs = [] \<or> ve_Tombstone (last vs) then None else Some (copy_bytes (ve_Value (last vs))))"

lemma ReadAt_visible:
  assumes "mvcc_inv s"
  shows "mvcc_ReadAt s key ts = visible (chain_of s key) ts"
proof -
  let ?c = "chain_of s key"
  define i where "i = go_search (length ?c) (\<lambda>i. ve_Timestamp (?c ! i) > ts)"
  have "i = go_search (length ?c) (\<lambda>i. ts + 1 \<le> ve_Timestamp (?c ! i))"
    unfolding i_def by (rule arg_cong [of _ _ "go_search (length ?c)"]) auto
  then have "take i ?c = filter (\<lambda>v. ve_Timestamp v < ts + 1) ?c"
    using go_search_sorted(1) [OF mvcc_inv_sorted [OF assms], of key "ts + 1"] by simp
  moreover have "(\<lambda>v. ve_Timestamp v < ts + 1) = (\<lambda>v. ve_Timestamp v \<le> ts)" by auto
  ultimately have f: "filter (\<lambda>v. ve_Timestamp v \<le> ts) ?c = take i ?c" by simp
  have "i \<le> length ?c"
  proof -
    have "mono_below (length ?c) (\<lambda>i. ve_Timestamp (?c ! i) > ts)"
      unfolding mono_below_def using sorted_nth_mono [OF mvcc_inv_sorted [OF assms, of key]] by fastforce
    then show ?thesis using go_search_split unfolding i_def split_at_def by blast
  qed
  then have "last (take i ?c) = ?c ! (i - 1)" if "i \<noteq> 0" "?c \<noteq> []"
    using that by (subst last_conv_nth) (auto simp: min_def)
  then show ?thesis
    unfolding mvcc_ReadAt_def visible_def Let_def f i_def [symmetric] by auto
qed

lemma visible_insert_later:
  assumes "mvcc_inv s" and "ts < ve_Timestamp v"
  shows "visible (chain_of (mvcc_append s key v) k) ts = visible (chain_of s k) ts"
proof (cases "k = key")
  case True
  obtain pre post where "chain_of s key = pre @ post" "chain_of (mvcc_append s key v) key = pre @ [v] @ post"
    using chain_append [OF assms(1), of key v] by blast
  then show ?thesis using True assms(2) by (simp add: visible_def Let_def)
qed (simp add: chain_append_other)

lemma chain_Compact:
  assumes "mvcc_inv s"
  obtains old where "chain_of s key = old @ chain_of (mvcc_Compact s key b) key"
    and "old = [] \<or> chain_of (mvcc_Compact s key b) key \<noteq> [] \<and> ve_Timestamp (hd (chain_of (mvcc_Compact s key b) key)) < b"
    and "\<And>k. k \<noteq> key \<Longrightarrow> chain_of (mvcc_Compact s key b) k = chain_of s k"
proof -
  let ?c = "chain_of s key"
  define i where "i = go_search (length ?c) (\<lambda>i. ve_Timestamp (?c ! i) \<ge> b)"
  show ?thesis
  proof (cases "i \<le> 1")
    case True
    then have "mvcc_Compact s key b = s" by (auto simp: mvcc_Compact_def Let_def i_def [symmetric])
    then show ?thesis by (intro that [of "[]"]) simp_all
  next
    case False
    have c: "?c \<noteq> []" using False unfolding i_def by (auto simp: go_search_def search_loop.simps)
    then have eq: "mvcc_Compact s key b = fmupd key (drop (i - 1) ?c) s"
      using False by (simp add: mvcc_Compact_def Let_def i_def [symmetric])
    have "mono_below (length ?c) (\<lambda>i. ve_Timestamp (?c ! i) \<ge> b)"
      unfolding mono_below_def using sorted_nth_mono [OF mvcc_inv_sorted [OF assms, of key]] by fastforce
    then have "split_at (length ?c) (\<lambda>i. ve_Timestamp (?c ! i) \<ge> b) i" unfolding i_def by (rule go_search_split)
    then have "i \<le> length ?c" "ve_Timestamp (?c ! (i - 1)) < b" using False by (auto simp: split_at_def not_le)
    moreover from this have "i - 1 < length ?c" using False by simp
    ultimately show ?thesis
      using False by (intro that [of "take (i - 1) ?c"]) (simp_all add: eq hd_drop_conv_nth)
  qed
qed

lemma visible_Compact:
  assumes "mvcc_inv s" and "b \<le> ts"
  shows "visible (chain_of (mvcc_Compact s key b) k) ts = visible (chain_of s k) ts"
    and "mvcc_inv (mvcc_Compact s key b)"
proof -
  obtain old where old: "chain_of s key = old @ chain_of (mvcc_Compact s key b) key"
    "old = [] \<or> chain_of (mvcc_Compact s key b) key \<noteq> [] \<and> ve_Timestamp (hd (chain_of (mvcc_Compact s key b) key)) < b"
    "\<And>k. k \<noteq> key \<Longrightarrow> chain_of (mvcc_Compact s key b) k = chain_of s k"
    using chain_Compact [OF assms(1)] by blast
  define kept where "kept = chain_of (mvcc_Compact s key b) key"
  show "visible (chain_of (mvcc_Compact s key b) k) ts = visible (chain_of s k) ts"
  proof (cases "k = key \<and> old \<noteq> []")
    case True
    then have "kept \<noteq> []" "ve_Timestamp (hd kept) \<le> ts" using old(2) assms(2) by (auto simp: kept_def)
    then have "filter (\<lambda>v. ve_Timestamp v \<le> ts) kept \<noteq> []" by (cases kept) auto
    then show ?thesis using True old(1) by (simp add: visible_def Let_def kept_def [symmetric])
  next
    case False
    then have "chain_of (mvcc_Compact s key b) k = chain_of s k" using old(1,3) by (cases "k = key") auto
    then show ?thesis by simp
  qed
  have "sorted (map ve_Timestamp (chain_of (mvcc_Compact s key b) k'))" for k'
    using mvcc_inv_sorted [OF assms(1), of k'] old(1,3) by (cases "k' = key") (auto simp: sorted_append)
  then show "mvcc_inv (mvcc_Compact s key b)" by (simp add: mvcc_inv_def)
qed

section \<open>Properties\<close>

datatype MvccCall = MPut string bytes int | MDelete string int | MCompact string int

fun mvcc_call :: "MvccCall \<Rightarrow> mvcc \<Rightarrow> mvcc" where
  "mvcc_call (MPut k v ts) s = mvcc_Put s k v ts"
| "mvcc_call (MDelete k ts) s = mvcc_Delete s k ts"
| "mvcc_call (MCompact k b) s = mvcc_Compact s k b"

lemma mvcc_call_inv: "mvcc_inv s \<Longrightarrow> mvcc_inv (mvcc_call c s)"
  by (cases c) (simp_all add: mvcc_Put_def mvcc_Delete_def mvcc_inv_append visible_Compact(2) [OF _ order_refl])

lemma mvcc_calls_inv: "mvcc_inv s \<Longrightarrow> mvcc_inv (fold mvcc_call cs s)"
  by (induction cs arbitrary: s) (simp_all add: mvcc_call_inv)

lemma mvcc_inv_New [simp]: "mvcc_inv mvcc_New"
  by (simp add: mvcc_inv_def)

text \<open>Calls that a snapshot at \<open>ts\<close> must not notice: later commits, and compaction up to the snapshot.\<close>

fun beyond :: "int \<Rightarrow> MvccCall \<Rightarrow> bool" where
  "beyond ts (MPut k v t) = (ts < t)"
| "beyond ts (MDelete k t) = (ts < t)"
| "beyond ts (MCompact k b) = (b \<le> ts)"

text \<open>
  C21. Snapshot reads are stable: in any reachable store, a read at timestamp \<open>ts\<close> of any key returns
  the same result after any further commits at later timestamps, in any order, and any compactions
  whose bound does not exceed \<open>ts\<close>.
\<close>

theorem snapshot_reads_stable:
  assumes "\<forall>c \<in> set cs. beyond ts c"
  shows "mvcc_ReadAt (fold mvcc_call cs (fold mvcc_call past mvcc_New)) k ts =
         mvcc_ReadAt (fold mvcc_call past mvcc_New) k ts"
proof -
  have "visible (chain_of (fold mvcc_call cs s) k) ts = visible (chain_of s k) ts" if "mvcc_inv s" for s
    using assms that
  proof (induction cs arbitrary: s)
    case (Cons c cs)
    have "visible (chain_of (mvcc_call c s) k) ts = visible (chain_of s k) ts"
      using Cons.prems by (cases c) (simp_all add: mvcc_Put_def mvcc_Delete_def visible_insert_later visible_Compact(1))
    then show ?case using Cons mvcc_call_inv by simp
  qed simp
  then show ?thesis using ReadAt_visible mvcc_calls_inv mvcc_inv_New by simp
qed

theorem snapshot_reads_stable_witness:
  "mvcc_ReadAt (fold mvcc_call [MPut ''k'' (Some ''new'') 30, MCompact ''k'' 20, MDelete ''k'' 40]
      (fold mvcc_call [MPut ''k'' (Some ''a'') 10, MPut ''k'' (Some ''b'') 15] mvcc_New)) ''k'' 20 = Some (Some ''b'')"
proof -
  have "mvcc_ReadAt (fold mvcc_call [MPut ''k'' (Some ''a'') 10, MPut ''k'' (Some ''b'') 15] mvcc_New) ''k'' 20 = Some (Some ''b'')"
    by code_simp
  moreover have "\<forall>c \<in> set [MPut ''k'' (Some ''new'') 30, MCompact ''k'' 20, MDelete ''k'' 40]. beyond 20 c" by simp
  ultimately show ?thesis using snapshot_reads_stable by metis
qed

text \<open>Commits as data, and what one of them means to a reader.\<close>

fun commit_key :: "MvccCall \<Rightarrow> string" where
  "commit_key (MPut k v t) = k"
| "commit_key (MDelete k t) = k"
| "commit_key (MCompact k b) = k"

fun commit_version :: "MvccCall \<Rightarrow> Version option" where
  "commit_version (MPut k v t) = Some \<lparr>ve_Value = v, ve_Timestamp = t, ve_Tombstone = False\<rparr>"
| "commit_version (MDelete k t) = Some \<lparr>ve_Value = None, ve_Timestamp = t, ve_Tombstone = True\<rparr>"
| "commit_version (MCompact k b) = None"

definition commits :: "MvccCall list \<Rightarrow> string \<Rightarrow> Version list" where
  "commits cs k = List.map_filter commit_version (filter (\<lambda>c. commit_key c = k) cs)"

lemma chain_commits:
  assumes "mvcc_inv s" and "\<forall>c \<in> set cs. commit_version c \<noteq> None"
  shows "mset (chain_of (fold mvcc_call cs s) k) = mset (chain_of s k) + mset (commits cs k)"
  using assms
proof (induction cs arbitrary: s)
  case (Cons c cs)
  obtain v where v: "commit_version c = Some v" using Cons.prems(2) by auto
  then have call: "mvcc_call c s = mvcc_append s (commit_key c) v"
    by (cases c) (auto simp: mvcc_Put_def mvcc_Delete_def)
  obtain pre post where "chain_of s (commit_key c) = pre @ post"
    "chain_of (mvcc_append s (commit_key c) v) (commit_key c) = pre @ [v] @ post"
    using chain_append [OF Cons.prems(1)] by blast
  then have "mset (chain_of (mvcc_append s (commit_key c) v) k) =
      mset (chain_of s k) + (if commit_key c = k then {#v#} else {#})"
    by (cases "k = commit_key c") (auto simp: chain_append_other)
  moreover have "mset (commits (c # cs) k) = (if commit_key c = k then {#v#} else {#}) + mset (commits cs k)"
    by (simp add: commits_def map_filter_simps v)
  moreover have "mset (chain_of (fold mvcc_call cs (mvcc_call c s)) k) = mset (chain_of (mvcc_call c s) k) + mset (commits cs k)"
    using Cons.prems by (intro Cons.IH) (simp_all add: mvcc_call_inv)
  ultimately show ?case by (simp add: call)
qed (simp add: commits_def map_filter_simps)

text \<open>A snapshot read returns the newest commit at or before its timestamp: for commits with distinct
  timestamps per key, arriving in any order, \<open>ReadAt\<close> of key \<open>k\<close> at \<open>ts\<close> finds nothing when every
  commit to \<open>k\<close> is later, and otherwise yields the value of the latest one not after \<open>ts\<close> (nothing
  when that one is a deletion).
\<close>

theorem snapshot_read_newest:
  assumes "\<forall>c \<in> set cs. commit_version c \<noteq> None" and "distinct (map ve_Timestamp (commits cs k))"
  shows "((\<forall>v \<in> set (commits cs k). ts < ve_Timestamp v) \<longrightarrow> mvcc_ReadAt (fold mvcc_call cs mvcc_New) k ts = None) \<and>
     (\<forall>v \<in> set (commits cs k). ve_Timestamp v \<le> ts \<and>
        (\<forall>w \<in> set (commits cs k). ve_Timestamp w \<le> ts \<longrightarrow> ve_Timestamp w \<le> ve_Timestamp v) \<longrightarrow>
        mvcc_ReadAt (fold mvcc_call cs mvcc_New) k ts =
          (if ve_Tombstone v then None else Some (copy_bytes (ve_Value v))))"
proof -
  define chain where "chain = chain_of (fold mvcc_call cs mvcc_New) k"
  have inv: "mvcc_inv (fold mvcc_call cs mvcc_New)" by (simp add: mvcc_calls_inv)
  have "mset chain = mset (commits cs k)"
    using chain_commits [OF mvcc_inv_New assms(1), of k] by (simp add: chain_def)
  then have sets: "set chain = set (commits cs k)" and dist: "distinct (map ve_Timestamp chain)"
    using assms(2) by (auto dest: mset_eq_setD) (metis mset_map mset_eq_imp_distinct_iff)
  have srt: "sorted (map ve_Timestamp chain)" using mvcc_inv_sorted [OF inv] by (simp add: chain_def)
  have read: "mvcc_ReadAt (fold mvcc_call cs mvcc_New) k ts = visible chain ts"
    using ReadAt_visible [OF inv] by (simp add: chain_def)
  have newest: "visible chain ts = (if ve_Tombstone v then None else Some (copy_bytes (ve_Value v)))"
    if v: "v \<in> set chain" "ve_Timestamp v \<le> ts" "\<forall>w \<in> set chain. ve_Timestamp w \<le> ts \<longrightarrow> ve_Timestamp w \<le> ve_Timestamp v" for v
  proof -
    let ?vs = "filter (\<lambda>v. ve_Timestamp v \<le> ts) chain"
    have mem: "v \<in> set ?vs" using v by simp
    then have ne: "?vs \<noteq> []" by (metis empty_iff list.set(1))
    have "ve_Timestamp v \<le> ve_Timestamp (last ?vs)"
    proof -
      have "sorted (map ve_Timestamp ?vs)" using srt by (rule sorted_filter)
      then have "\<forall>t \<in> set (map ve_Timestamp ?vs). t \<le> last (map ve_Timestamp ?vs)"
        by (blast intro: sorted_le_last)
      then show ?thesis using mem by (simp add: last_map ne)
    qed
    moreover have "last ?vs \<in> set chain" "ve_Timestamp (last ?vs) \<le> ts" using last_in_set [OF ne] by auto
    ultimately have "ve_Timestamp (last ?vs) = ve_Timestamp v" using v(3) by (simp add: order_antisym)
    then have "last ?vs = v" using dist v(1) \<open>last ?vs \<in> set chain\<close> by (simp add: distinct_map inj_on_def)
    then show ?thesis using ne by (simp add: visible_def Let_def)
  qed
  have "visible chain ts = None" if "\<forall>v \<in> set chain. ts < ve_Timestamp v"
    using that by (auto simp: visible_def Let_def filter_empty_conv)
  with newest show ?thesis unfolding read sets [symmetric] by blast
qed

theorem snapshot_read_newest_witness:
  "mvcc_ReadAt (fold mvcc_call [MPut ''k'' (Some ''c'') 30, MPut ''k'' (Some ''a'') 10, MPut ''k'' (Some ''b'') 20] mvcc_New) ''k'' 25
     = Some (Some ''b'')"
proof -
  define cs where "cs = [MPut ''k'' (Some ''c'') 30, MPut ''k'' (Some ''a'') 10, MPut ''k'' (Some ''b'') 20]"
  have "\<forall>c \<in> set cs. commit_version c \<noteq> None" by (simp add: cs_def)
  moreover have com: "commits cs ''k'' = [\<lparr>ve_Value = Some ''c'', ve_Timestamp = 30, ve_Tombstone = False\<rparr>,
      \<lparr>ve_Value = Some ''a'', ve_Timestamp = 10, ve_Tombstone = False\<rparr>,
      \<lparr>ve_Value = Some ''b'', ve_Timestamp = 20, ve_Tombstone = False\<rparr>]"
    by (simp add: cs_def commits_def map_filter_simps)
  ultimately have "mvcc_ReadAt (fold mvcc_call cs mvcc_New) ''k'' 25 = Some (copy_bytes (Some ''b''))"
    using snapshot_read_newest [of cs "''k''" 25] by (simp add: com)
  then show ?thesis by (simp add: cs_def copy_bytes_def)
qed

end
