(* ===== verification/TwoPC.thy ===== *)
theory TwoPC
  imports Go_Prelude
begin

text \<open>
  Two-phase commit, \<open>internal/twopc/twopc.go\<close>. Participants are objects the coordinator holds
  pointers to: \<open>world\<close> maps an address to the state of the \<open>MemParticipant\<close> there. The coordinator's
  \<open>range\<close> over its participant map visits them in an order the language leaves open, so the order
  \<open>parts\<close> is an argument, and the theorems hold for every order. \<open>MemParticipant.Commit\<close> and \<open>Abort\<close>
  always return a nil error.
\<close>

record MemParticipant =
  mp_VoteNo :: bool
  mp_Down :: bool
  mp_committed :: "(string, string) fmap"
  mp_staged :: "(string, (string, string) fmap) fmap"
  mp_locked :: "(string, string) fmap"

definition NewMemParticipant :: MemParticipant where
  "NewMemParticipant = \<lparr>mp_VoteNo = False, mp_Down = False, mp_committed = fmempty, mp_staged = fmempty, mp_locked = fmempty\<rparr>"

text \<open>\<open>cp := make([]byte, len(v)); copy(cp, v)\<close>: never nil.\<close>

definition clone_bytes :: "bytes \<Rightarrow> string" where
  "clone_bytes v = (case v of None \<Rightarrow> [] | Some s \<Rightarrow> s)"

datatype TxError = ParticipantDown string | ErrCoordinatorCrashed

text \<open>The vote: an error, or yes or no.\<close>

definition MemParticipant_Prepare ::
  "MemParticipant \<Rightarrow> string \<Rightarrow> (string, bytes) fmap \<Rightarrow> MemParticipant \<times> (TxError + bool)" where
  "MemParticipant_Prepare p txID writes =
     (if mp_Down p then (p, Inl (ParticipantDown txID))
      else if mp_VoteNo p then (p, Inr False)
      else if go_any (\<lambda>k v. case fmlookup (mp_locked p) k of None \<Rightarrow> False | Some owner \<Rightarrow> owner \<noteq> txID) writes
      then (p, Inr False)
      else (let (staged, locked) = go_range (\<lambda>k v (staged, locked).
                  (fmupd k (clone_bytes v) staged, fmupd k txID locked)) writes (fmempty, mp_locked p)
            in (p\<lparr>mp_locked := locked, mp_staged := fmupd txID staged (mp_staged p)\<rparr>, Inr True)))"

definition releaseLocked :: "string \<Rightarrow> string \<Rightarrow> (string, string) fmap \<Rightarrow> (string, string) fmap" where
  "releaseLocked k txID locked =
     (if (case fmlookup locked k of None \<Rightarrow> [] | Some owner \<Rightarrow> owner) = txID then fmdrop k locked else locked)"

definition MemParticipant_Commit :: "MemParticipant \<Rightarrow> string \<Rightarrow> MemParticipant" where
  "MemParticipant_Commit p txID =
     (case fmlookup (mp_staged p) txID of None \<Rightarrow> p
      | Some staged \<Rightarrow>
          (let (committed, locked) = go_range (\<lambda>k v (committed, locked).
                 (fmupd k v committed, releaseLocked k txID locked)) staged (mp_committed p, mp_locked p)
           in p\<lparr>mp_committed := committed, mp_locked := locked, mp_staged := fmdrop txID (mp_staged p)\<rparr>))"

definition MemParticipant_Abort :: "MemParticipant \<Rightarrow> string \<Rightarrow> MemParticipant" where
  "MemParticipant_Abort p txID =
     (case fmlookup (mp_staged p) txID of None \<Rightarrow> p
      | Some staged \<Rightarrow>
          p\<lparr>mp_locked := go_range (\<lambda>k v locked. releaseLocked k txID locked) staged (mp_locked p),
            mp_staged := fmdrop txID (mp_staged p)\<rparr>)"

definition MemParticipant_Get :: "MemParticipant \<Rightarrow> string \<Rightarrow> string option" where
  "MemParticipant_Get p key = fmlookup (mp_committed p) key"

definition MemParticipant_IsLocked :: "MemParticipant \<Rightarrow> string \<Rightarrow> bool" where
  "MemParticipant_IsLocked p key = (fmlookup (mp_locked p) key \<noteq> None)"

section \<open>The coordinator\<close>

type_synonym world = "nat \<Rightarrow> MemParticipant"

text \<open>Phase 1: prepare in order, stop at the first error or no. The result is \<open>allYes\<close> and \<open>voteErr\<close>.\<close>

fun prepare_loop :: "string \<Rightarrow> (nat \<Rightarrow> (string, bytes) fmap) \<Rightarrow> nat list \<Rightarrow> world \<Rightarrow> world \<times> bool \<times> TxError option" where
  "prepare_loop txID writes [] w = (w, True, None)"
| "prepare_loop txID writes (p # ps) w =
     (case MemParticipant_Prepare (w p) txID (writes p) of
        (p', Inl err) \<Rightarrow> (w(p := p'), False, Some err)
      | (p', Inr False) \<Rightarrow> (w(p := p'), False, None)
      | (p', Inr True) \<Rightarrow> prepare_loop txID writes ps (w(p := p')))"

fun decide :: "string \<Rightarrow> nat list \<Rightarrow> bool \<Rightarrow> world \<Rightarrow> world" where
  "decide txID [] commit w = w"
| "decide txID (p # ps) commit w =
     decide txID ps commit (w(p := (if commit then MemParticipant_Commit (w p) txID else MemParticipant_Abort (w p) txID)))"

text \<open>The result is \<open>(committed, err)\<close>.\<close>

definition Coordinator_Execute ::
  "bool \<Rightarrow> string \<Rightarrow> nat list \<Rightarrow> (nat \<Rightarrow> (string, bytes) fmap) \<Rightarrow> world \<Rightarrow> world \<times> bool \<times> TxError option" where
  "Coordinator_Execute crashAfterPrepare txID parts writes w =
     (let (w1, allYes, voteErr) = prepare_loop txID writes parts w in
      if \<not> allYes then (decide txID parts False w1, False, voteErr)
      else if crashAfterPrepare then (w1, False, Some ErrCoordinatorCrashed)
      else (decide txID parts True w1, True, None))"

definition Coordinator_Recover :: "string \<Rightarrow> bool \<Rightarrow> nat list \<Rightarrow> world \<Rightarrow> world" where
  "Coordinator_Recover txID decision participants w = decide txID participants decision w"

section \<open>One participant\<close>

lemma fold_pair:
  "fold (\<lambda>(k, v) (a, b). (f k v a, g k v b)) xs (a, b) = (fold (\<lambda>(k, v). f k v) xs a, fold (\<lambda>(k, v). g k v) xs b)"
  by (induction xs arbitrary: a b) auto

lemma go_range_pair:
  "go_range (\<lambda>k v (a, b). (f k v a, g k v b)) m (a, b) = (go_range f m a, go_range g m b)"
  unfolding go_range_def by (rule fold_pair)

interpretation stage_body: slot_body "\<lambda>k v m. fmupd k (clone_bytes v) m" "\<lambda>k v cur. Some (clone_bytes v)"
  by unfold_locales simp

interpretation lock_body: slot_body "\<lambda>k v m. fmupd k txID m" "\<lambda>k v cur. Some txID" for txID
  by unfold_locales simp

interpretation apply_body: slot_body "\<lambda>k v m. fmupd k v m" "\<lambda>k v cur. Some v"
  by unfold_locales simp

interpretation release_body: slot_body "\<lambda>k v m. releaseLocked k txID m"
  "\<lambda>k v cur. if (case cur of None \<Rightarrow> [] | Some owner \<Rightarrow> owner) = txID then None else cur" for txID
  by unfold_locales (auto simp: releaseLocked_def split: option.splits)

text \<open>Writes as the participant stages them, and the overlay of staged writes on a state.\<close>

definition staged_of :: "(string, bytes) fmap \<Rightarrow> (string, string) fmap" where
  "staged_of writes = fmmap clone_bytes writes"

definition can_lock :: "MemParticipant \<Rightarrow> string \<Rightarrow> (string, bytes) fmap \<Rightarrow> bool" where
  "can_lock p txID writes \<longleftrightarrow> (\<forall>k \<in> fmdom' writes. fmlookup (mp_locked p) k \<in> {None, Some txID})"

definition locked_with :: "MemParticipant \<Rightarrow> string \<Rightarrow> (string, bytes) fmap \<Rightarrow> MemParticipant" where
  "locked_with p txID writes = p\<lparr>mp_locked := mp_locked p ++\<^sub>f fmmap (\<lambda>_. txID) writes,
     mp_staged := fmupd txID (staged_of writes) (mp_staged p)\<rparr>"

lemma Prepare_eq:
  "MemParticipant_Prepare p txID writes =
     (if mp_Down p then (p, Inl (ParticipantDown txID))
      else if mp_VoteNo p \<or> \<not> can_lock p txID writes then (p, Inr False)
      else (locked_with p txID writes, Inr True))"
proof -
  have any: "go_any (\<lambda>k v. case fmlookup (mp_locked p) k of None \<Rightarrow> False | Some owner \<Rightarrow> owner \<noteq> txID) writes
      \<longleftrightarrow> \<not> can_lock p txID writes"
    by (auto simp: go_simps can_lock_def fmlookup_dom'_iff split: option.splits)
  have st: "go_range (\<lambda>k v m. fmupd k (clone_bytes v) m) writes fmempty = staged_of writes"
    by (rule fmap_ext) (simp add: stage_body.range_lookup staged_of_def split: option.splits)
  have lk: "go_range (\<lambda>k v m. fmupd k txID m) writes (mp_locked p) = mp_locked p ++\<^sub>f fmmap (\<lambda>_. txID) writes"
    by (rule fmap_ext) (auto simp: lock_body.range_lookup fmlookup_dom_iff split: option.splits)
  show ?thesis
    unfolding MemParticipant_Prepare_def any go_range_pair st lk by (simp add: locked_with_def)
qed

text \<open>A transaction the participant has not seen.\<close>

definition fresh_tx :: "MemParticipant \<Rightarrow> string \<Rightarrow> bool" where
  "fresh_tx p txID \<longleftrightarrow> txID \<noteq> [] \<and> fmlookup (mp_staged p) txID = None \<and> (\<forall>k. fmlookup (mp_locked p) k \<noteq> Some txID)"

lemma Abort_fresh: "fresh_tx p txID \<Longrightarrow> MemParticipant_Abort p txID = p"
  by (simp add: MemParticipant_Abort_def fresh_tx_def)

lemma staged_lookup: "fmlookup (staged_of writes) k = map_option clone_bytes (fmlookup writes k)"
  by (simp add: staged_of_def)

lemma release_all:
  assumes "fresh_tx p txID" and "can_lock p txID writes"
  shows "go_range (\<lambda>k v m. releaseLocked k txID m) (staged_of writes) (mp_locked p ++\<^sub>f fmmap (\<lambda>_. txID) writes) = mp_locked p"
proof (rule fmap_ext)
  fix k
  show "fmlookup (go_range (\<lambda>k v m. releaseLocked k txID m) (staged_of writes) (mp_locked p ++\<^sub>f fmmap (\<lambda>_. txID) writes)) k
      = fmlookup (mp_locked p) k"
    using assms unfolding release_body.range_lookup staged_lookup fresh_tx_def can_lock_def
    by (cases "fmlookup writes k") (auto simp: fmlookup_dom_iff fmlookup_dom'_iff)
qed

lemma undo_staged:
  assumes "fresh_tx p txID" and "can_lock p txID writes"
  shows "MemParticipant_Abort (locked_with p txID writes) txID = p"
    and "MemParticipant_Commit (locked_with p txID writes) txID = p\<lparr>mp_committed := mp_committed p ++\<^sub>f staged_of writes\<rparr>"
proof -
  have drop: "fmdrop txID (fmupd txID m (mp_staged p)) = mp_staged p" for m
    using assms(1) by (intro fmap_ext) (auto simp: fresh_tx_def)
  note rel = release_all [OF assms]
  show "MemParticipant_Abort (locked_with p txID writes) txID = p"
    by (simp add: MemParticipant_Abort_def locked_with_def rel drop)
  have app: "go_range (\<lambda>k v m. fmupd k v m) (staged_of writes) (mp_committed p) = mp_committed p ++\<^sub>f staged_of writes"
    by (rule fmap_ext) (auto simp: apply_body.range_lookup fmlookup_dom_iff split: option.splits)
  show "MemParticipant_Commit (locked_with p txID writes) txID = p\<lparr>mp_committed := mp_committed p ++\<^sub>f staged_of writes\<rparr>"
    by (simp add: MemParticipant_Commit_def locked_with_def go_range_pair rel drop app)
qed

section \<open>The two phases\<close>

definition votes_yes :: "MemParticipant \<Rightarrow> string \<Rightarrow> (string, bytes) fmap \<Rightarrow> bool" where
  "votes_yes p txID writes \<longleftrightarrow> \<not> mp_Down p \<and> \<not> mp_VoteNo p \<and> can_lock p txID writes"

text \<open>The participants that voted yes before the loop stopped hold their locks; nobody else changed.\<close>

lemma prepare_loop_spec:
  assumes "distinct ps" and "prepare_loop txID W ps w = (w1, yes, err)"
  shows "(yes \<longleftrightarrow> (\<forall>p \<in> set ps. votes_yes (w p) txID (W p))) \<and> (yes \<longrightarrow> err = None) \<and>
    (\<exists>held \<subseteq> set ps. (\<forall>p \<in> held. can_lock (w p) txID (W p)) \<and> (yes \<longrightarrow> held = set ps) \<and>
       w1 = (\<lambda>p. if p \<in> held then locked_with (w p) txID (W p) else w p))"
  using assms
proof (induction ps arbitrary: w)
  case (Cons p ps)
  show ?case
  proof (cases "votes_yes (w p) txID (W p)")
    case True
    define w' where "w' = w(p := locked_with (w p) txID (W p))"
    have same: "w' q = w q" if "q \<in> set ps" for q using that Cons.prems(1) by (auto simp: w'_def)
    have "prepare_loop txID W ps w' = (w1, yes, err)"
      using Cons.prems(2) True by (simp add: Prepare_eq votes_yes_def w'_def)
    then have IH: "(yes \<longleftrightarrow> (\<forall>q \<in> set ps. votes_yes (w' q) txID (W q))) \<and> (yes \<longrightarrow> err = None) \<and>
      (\<exists>held \<subseteq> set ps. (\<forall>q \<in> held. can_lock (w' q) txID (W q)) \<and> (yes \<longrightarrow> held = set ps) \<and>
         w1 = (\<lambda>q. if q \<in> held then locked_with (w' q) txID (W q) else w' q))"
      using Cons.prems(1) by (intro Cons.IH) simp_all
    then obtain held where h: "held \<subseteq> set ps" "\<forall>q \<in> held. can_lock (w' q) txID (W q)" "yes \<longrightarrow> held = set ps"
      "w1 = (\<lambda>q. if q \<in> held then locked_with (w' q) txID (W q) else w' q)" by blast
    have "w1 = (\<lambda>q. if q \<in> insert p held then locked_with (w q) txID (W q) else w q)"
      using h(1,4) Cons.prems(1) by (auto simp: w'_def fun_eq_iff)
    moreover have "\<forall>q \<in> insert p held. can_lock (w q) txID (W q)"
      using h(1,2) same True by (metis insert_iff subsetD votes_yes_def)
    moreover have "yes \<longleftrightarrow> (\<forall>q \<in> set (p # ps). votes_yes (w q) txID (W q))" using IH same True by auto
    ultimately show ?thesis using IH h(1,3) by (intro conjI exI [of _ "insert p held"]) auto
  next
    case False
    then have "w1 = w" "\<not> yes"
      using Cons.prems(2) by (auto simp: Prepare_eq votes_yes_def split: if_splits)
    then show ?thesis using False by (intro conjI exI [of _ "{}"]) auto
  qed
qed auto

lemma decide_spec:
  "distinct ps \<Longrightarrow> decide txID ps commit w = (\<lambda>p. if p \<in> set ps then
     (if commit then MemParticipant_Commit (w p) txID else MemParticipant_Abort (w p) txID) else w p)"
proof (induction ps arbitrary: w)
  case (Cons p ps)
  then show ?case by (auto simp: fun_eq_iff)
qed simp

section \<open>Properties\<close>

text \<open>
  C4. Atomicity. For a transaction new to its participants and any order of contacting them: the
  transaction commits exactly when every participant is up, willing and has the keys free; if it
  commits, every participant's committed state is the old one overlaid with its writes; otherwise
  every participant is in exactly the state it was in before, with no staged writes and no locks
  left. Nobody outside the transaction changes.
\<close>

theorem two_phase_commit_atomic:
  assumes "distinct parts" and "\<forall>p \<in> set parts. fresh_tx (w p) txID"
    and "Coordinator_Execute False txID parts W w = (w', committed, err)"
  shows "(committed \<longleftrightarrow> (\<forall>p \<in> set parts. votes_yes (w p) txID (W p))) \<and>
    w' = (if committed
          then (\<lambda>p. if p \<in> set parts then (w p)\<lparr>mp_committed := mp_committed (w p) ++\<^sub>f staged_of (W p)\<rparr> else w p)
          else w)"
proof -
  obtain w1 yes e where loop: "prepare_loop txID W parts w = (w1, yes, e)" by (metis prod_cases3)
  obtain held where spec: "yes \<longleftrightarrow> (\<forall>p \<in> set parts. votes_yes (w p) txID (W p))" "held \<subseteq> set parts"
    "\<forall>p \<in> held. can_lock (w p) txID (W p)" "yes \<longrightarrow> held = set parts"
    "w1 = (\<lambda>p. if p \<in> held then locked_with (w p) txID (W p) else w p)"
    using prepare_loop_spec [OF assms(1) loop] by blast
  have res: "committed = yes" "w' = decide txID parts yes w1"
    using assms(3) loop by (auto simp: Coordinator_Execute_def Let_def split: if_splits)
  have "decide txID parts False w1 = w"
    unfolding decide_spec [OF assms(1)]
    using spec(2,3,5) assms(2) by (auto simp: fun_eq_iff undo_staged(1) Abort_fresh)
  moreover have "decide txID parts True w1 =
      (\<lambda>p. if p \<in> set parts then (w p)\<lparr>mp_committed := mp_committed (w p) ++\<^sub>f staged_of (W p)\<rparr> else w p)" if yes
    unfolding decide_spec [OF assms(1)]
    using spec(3,4,5) assms(2) that by (auto simp: fun_eq_iff undo_staged(2))
  ultimately show ?thesis using spec(1) res by (cases yes) simp_all
qed

theorem two_phase_commit_atomic_witness:
  "let w = \<lambda>p. NewMemParticipant\<lparr>mp_VoteNo := (p = 2)\<rparr>;
       W = \<lambda>p. fmap_of_list [(''k'', Some ''v'')]
   in (\<exists>e. Coordinator_Execute False ''tx'' [1, 2] W w = (w, False, e)) \<and>
      fst (snd (Coordinator_Execute False ''tx'' [0, 1] W w))"
proof -
  define w :: world where "w = (\<lambda>p. NewMemParticipant\<lparr>mp_VoteNo := (p = 2)\<rparr>)"
  define W :: "nat \<Rightarrow> (string, bytes) fmap" where "W = (\<lambda>p. fmap_of_list [(''k'', Some ''v'')])"
  have fresh: "\<forall>p \<in> set ps. fresh_tx (w p) ''tx''" for ps
    by (simp add: w_def fresh_tx_def NewMemParticipant_def)
  obtain w1 c1 e1 where r1: "Coordinator_Execute False ''tx'' [1, 2] W w = (w1, c1, e1)" by (metis prod_cases3)
  obtain w2 c2 e2 where r2: "Coordinator_Execute False ''tx'' [0, 1] W w = (w2, c2, e2)" by (metis prod_cases3)
  have "\<not> votes_yes (w 2) ''tx'' (W 2)" by (simp add: w_def votes_yes_def)
  then have "\<not> c1" "w1 = w" using two_phase_commit_atomic [OF _ fresh r1] by auto
  moreover have "votes_yes (w p) ''tx'' (W p)" if "p \<in> {0, 1}" for p
    using that by (auto simp: w_def W_def votes_yes_def can_lock_def NewMemParticipant_def)
  then have c2 using two_phase_commit_atomic [OF _ fresh r2] by auto
  ultimately have "(\<exists>e. Coordinator_Execute False ''tx'' [1, 2] W w = (w, False, e)) \<and>
      fst (snd (Coordinator_Execute False ''tx'' [0, 1] W w))" using r1 r2 by auto
  then show ?thesis unfolding Let_def w_def W_def .
qed



text \<open>The calls one participant receives, from any number of coordinators.\<close>

datatype PartCall = PPrepare string "(string, bytes) fmap" | PCommit string | PAbort string

fun part_call :: "PartCall \<Rightarrow> MemParticipant \<Rightarrow> MemParticipant" where
  "part_call (PPrepare tx W) p = fst (MemParticipant_Prepare p tx W)"
| "part_call (PCommit tx) p = MemParticipant_Commit p tx"
| "part_call (PAbort tx) p = MemParticipant_Abort p tx"

text \<open>Every staged write is covered by its transaction's lock.\<close>

definition lock_inv :: "MemParticipant \<Rightarrow> bool" where
  "lock_inv p \<longleftrightarrow> (\<forall>tx m k. fmlookup (mp_staged p) tx = Some m \<longrightarrow> k \<in> fmdom' m \<longrightarrow> fmlookup (mp_locked p) k = Some tx)"

lemma lock_inv_Prepare: "lock_inv p \<Longrightarrow> lock_inv (fst (MemParticipant_Prepare p tx W))"
proof (cases "votes_yes p tx W")
  case True
  assume inv: "lock_inv p"
  have "lock_inv (locked_with p tx W)"
    unfolding lock_inv_def
  proof (intro allI impI)
    fix tx' m k
    assume m: "fmlookup (mp_staged (locked_with p tx W)) tx' = Some m" and k: "k \<in> fmdom' m"
    have lk: "fmlookup (mp_locked (locked_with p tx W)) k =
        (if k \<in> fmdom' W then Some tx else fmlookup (mp_locked p) k)"
      by (auto simp: locked_with_def fmlookup_dom_iff fmlookup_dom'_iff)
    show "fmlookup (mp_locked (locked_with p tx W)) k = Some tx'"
    proof (cases "tx' = tx")
      case True
      then have "k \<in> fmdom' W" using m k by (auto simp: locked_with_def fmlookup_dom'_iff staged_lookup)
      then show ?thesis using True lk by simp
    next
      case False
      then have "fmlookup (mp_locked p) k = Some tx'" using inv m k unfolding lock_inv_def locked_with_def by simp
      moreover from this have "k \<notin> fmdom' W" using False True unfolding votes_yes_def can_lock_def by fastforce
      ultimately show ?thesis using lk by simp
    qed
  qed
  then show ?thesis using True by (simp add: Prepare_eq votes_yes_def)
qed (auto simp: Prepare_eq votes_yes_def)

lemma lock_inv_release:
  assumes "lock_inv p" and "fmlookup (mp_staged p) tx = Some m"
  shows "lock_inv (p\<lparr>mp_locked := go_range (\<lambda>k v locked. releaseLocked k tx locked) m (mp_locked p),
                    mp_staged := fmdrop tx (mp_staged p), mp_committed := c\<rparr>)"
  unfolding lock_inv_def
proof (intro allI impI)
  fix tx' m' k
  assume "fmlookup (mp_staged (p\<lparr>mp_locked := go_range (\<lambda>k v locked. releaseLocked k tx locked) m (mp_locked p),
      mp_staged := fmdrop tx (mp_staged p), mp_committed := c\<rparr>)) tx' = Some m'" and k: "k \<in> fmdom' m'"
  then have "tx' \<noteq> tx" "fmlookup (mp_staged p) tx' = Some m'" by (auto split: if_splits)
  moreover from this have "fmlookup (mp_locked p) k = Some tx'" using assms(1) k unfolding lock_inv_def by blast
  moreover from calculation have "fmlookup m k = None"
    using assms unfolding lock_inv_def by (metis fmdom'_notD option.inject)
  ultimately show "fmlookup (mp_locked (p\<lparr>mp_locked := go_range (\<lambda>k v locked. releaseLocked k tx locked) m (mp_locked p),
      mp_staged := fmdrop tx (mp_staged p), mp_committed := c\<rparr>)) k = Some tx'"
    by (simp add: release_body.range_lookup)
qed

lemma lock_inv_call: "lock_inv p \<Longrightarrow> lock_inv (part_call c p)"
proof (cases c)
  case (PCommit tx)
  assume "lock_inv p"
  then show ?thesis
    using lock_inv_release [of p tx] PCommit
    by (cases "fmlookup (mp_staged p) tx") (simp_all add: MemParticipant_Commit_def go_range_pair lock_inv_def)
next
  case (PAbort tx)
  assume "lock_inv p"
  then show ?thesis
    using lock_inv_release [of p tx _ "mp_committed p"] PAbort
    by (cases "fmlookup (mp_staged p) tx") (simp_all add: MemParticipant_Abort_def lock_inv_def)
qed (simp add: lock_inv_Prepare)

text \<open>Isolation of prepared transactions: whatever calls a participant receives, in any interleaving
  of any number of transactions, each staged key is locked by its own transaction, so two different
  prepared transactions never stage a write to the same key.
\<close>

theorem prepared_transactions_disjoint:
  assumes "fmlookup (mp_staged (fold part_call cs NewMemParticipant)) tx = Some m"
    and "fmlookup (mp_staged (fold part_call cs NewMemParticipant)) tx' = Some m'" and "tx \<noteq> tx'"
  shows "fmdom' m \<inter> fmdom' m' = {}"
proof -
  have "lock_inv (fold part_call cs p)" if "lock_inv p" for p
    using that by (induction cs arbitrary: p) (simp_all add: lock_inv_call)
  moreover have "lock_inv NewMemParticipant" by (simp add: lock_inv_def NewMemParticipant_def)
  ultimately have "lock_inv (fold part_call cs NewMemParticipant)" by blast
  then have "fmlookup (mp_locked (fold part_call cs NewMemParticipant)) k = Some tx" if "k \<in> fmdom' m" for k
    using assms(1) that unfolding lock_inv_def by blast
  moreover have "fmlookup (mp_locked (fold part_call cs NewMemParticipant)) k = Some tx'" if "k \<in> fmdom' m'" for k
    using \<open>lock_inv (fold part_call cs NewMemParticipant)\<close> assms(2) that unfolding lock_inv_def by blast
  ultimately show ?thesis using assms(3) by force
qed

theorem prepared_transactions_disjoint_witness:
  "let p = fold part_call [PPrepare ''t1'' (fmap_of_list [(''a'', Some ''1'')]),
      PPrepare ''t2'' (fmap_of_list [(''a'', Some ''2'')]), PPrepare ''t3'' (fmap_of_list [(''b'', Some ''3'')])] NewMemParticipant
   in fmlookup (mp_staged p) ''t2'' = None \<and>
      (\<exists>m m'. fmlookup (mp_staged p) ''t1'' = Some m \<and> fmlookup (mp_staged p) ''t3'' = Some m' \<and> fmdom' m \<inter> fmdom' m' = {})"
proof -
  define cs where "cs = [PPrepare ''t1'' (fmap_of_list [(''a'', Some ''1'')]),
      PPrepare ''t2'' (fmap_of_list [(''a'', Some ''2'')]), PPrepare ''t3'' (fmap_of_list [(''b'', Some ''3'')])]"
  have "fmlookup (mp_staged (fold part_call cs NewMemParticipant)) ''t2'' = None"
    "fmlookup (mp_staged (fold part_call cs NewMemParticipant)) ''t1'' \<noteq> None"
    "fmlookup (mp_staged (fold part_call cs NewMemParticipant)) ''t3'' \<noteq> None"
    unfolding cs_def by code_simp+
  then show ?thesis
    using prepared_transactions_disjoint [of cs "''t1''" _ "''t3''"] unfolding cs_def Let_def by auto
qed

end
