(* ===== verification/WAL.thy ===== *)
theory WAL
  imports Go_Prelude "HOL-Library.Sublist"
begin

text \<open>
  The write-ahead log of \<open>internal/durability/wal.go\<close>: a durable segment, a volatile buffer and the
  three durability modes. Records are copied on the way in (\<open>make\<close> + \<open>copy\<close>, never nil).
\<close>

datatype Mode = Buffered | Fsync | GroupCommit

record WAL =
  wal_mode :: Mode
  wal_groupSize :: int
  wal_durable :: "string list"
  wal_buffer :: "string list"
  wal_acked :: nat
  wal_lost :: nat

definition WAL_New :: "Mode \<Rightarrow> int \<Rightarrow> WAL" where
  "WAL_New mode groupSize = \<lparr>wal_mode = mode, wal_groupSize = (if groupSize < 1 then 1 else groupSize),
     wal_durable = [], wal_buffer = [], wal_acked = 0, wal_lost = 0\<rparr>"

definition flushLocked :: "WAL \<Rightarrow> WAL \<times> nat" where
  "flushLocked w =
     (let n = length (wal_buffer w) in
      if n = 0 then (w, 0)
      else (w\<lparr>wal_durable := wal_durable w @ wal_buffer w, wal_buffer := []\<rparr>, n))"

definition record_copy :: "bytes \<Rightarrow> string" where
  "record_copy r = (case r of None \<Rightarrow> [] | Some s \<Rightarrow> s)"

definition WAL_Append :: "WAL \<Rightarrow> bytes \<Rightarrow> WAL \<times> bool" where
  "WAL_Append w rec =
     (let cp = record_copy rec; w1 = w\<lparr>wal_acked := wal_acked w + 1\<rparr> in
      case wal_mode w of
        Fsync \<Rightarrow> (w1\<lparr>wal_durable := wal_durable w @ [cp]\<rparr>, True)
      | GroupCommit \<Rightarrow>
          (let w2 = w1\<lparr>wal_buffer := wal_buffer w @ [cp]\<rparr> in
           if int (length (wal_buffer w2)) \<ge> wal_groupSize w2 then (fst (flushLocked w2), True) else (w2, False))
      | Buffered \<Rightarrow> (w1\<lparr>wal_buffer := wal_buffer w @ [cp]\<rparr>, False))"

definition WAL_Flush :: "WAL \<Rightarrow> WAL \<times> nat" where
  "WAL_Flush w = flushLocked w"

definition WAL_Crash :: "WAL \<Rightarrow> WAL" where
  "WAL_Crash w = w\<lparr>wal_lost := wal_lost w + length (wal_buffer w), wal_buffer := []\<rparr>"

definition WAL_DurableRecords :: "WAL \<Rightarrow> string list" where
  "WAL_DurableRecords w = wal_durable w"

definition WAL_BufferedRecords :: "WAL \<Rightarrow> string list" where
  "WAL_BufferedRecords w = wal_buffer w"

definition WAL_Acked :: "WAL \<Rightarrow> nat" where
  "WAL_Acked w = wal_acked w"

definition WAL_Lost :: "WAL \<Rightarrow> nat" where
  "WAL_Lost w = wal_lost w"

section \<open>Properties\<close>

datatype WalCall = WAppend bytes | WFlush | WCrash

fun wal_call :: "WalCall \<Rightarrow> WAL \<Rightarrow> WAL" where
  "wal_call (WAppend r) w = fst (WAL_Append w r)"
| "wal_call WFlush w = fst (WAL_Flush w)"
| "wal_call WCrash w = WAL_Crash w"

fun appended :: "WalCall list \<Rightarrow> string list" where
  "appended [] = []"
| "appended (WAppend r # cs) = record_copy r # appended cs"
| "appended (_ # cs) = appended cs"

lemma appended_append [simp]: "appended (cs @ ds) = appended cs @ appended ds"
  by (induction cs rule: appended.induct) simp_all

lemmas wal_defs = WAL_Append_def WAL_Flush_def WAL_Crash_def flushLocked_def Let_def

definition wal_inv :: "Mode \<Rightarrow> int \<Rightarrow> string list \<Rightarrow> WAL \<Rightarrow> bool" where
  "wal_inv m g recs w \<longleftrightarrow> wal_mode w = m \<and> wal_groupSize w = max 1 g \<and> wal_acked w = length recs \<and>
     wal_acked w = length (wal_durable w) + length (wal_buffer w) + wal_lost w \<and>
     subseq (wal_durable w @ wal_buffer w) recs \<and>
     (m = Fsync \<longrightarrow> wal_durable w = recs \<and> wal_buffer w = [] \<and> wal_lost w = 0) \<and>
     (m = GroupCommit \<longrightarrow> int (length (wal_buffer w)) < max 1 g)"

lemma subseq_snoc: "subseq xs ys \<Longrightarrow> subseq (xs @ [x]) (ys @ [x])"
  by (simp add: list_emb_append_mono)

lemma wal_inv_call:
  assumes "wal_inv m g recs w"
  shows "wal_inv m g (recs @ appended [c]) (wal_call c w)"
proof (cases c)
  case (WAppend r)
  have "subseq ((wal_durable w @ wal_buffer w) @ [record_copy r]) (recs @ [record_copy r])"
    using assms by (intro subseq_snoc) (simp add: wal_inv_def)
  then show ?thesis
    using assms WAppend by (cases m) (auto simp: wal_inv_def wal_defs)
next
  case WCrash
  have "subseq (wal_durable w) recs"
    using assms subseq_order.trans [OF prefix_imp_subseq [of "wal_durable w" "wal_durable w @ wal_buffer w"]]
    by (simp add: wal_inv_def)
  then show ?thesis using assms WCrash by (auto simp: wal_inv_def wal_defs)
qed (use assms in \<open>auto simp: wal_inv_def wal_defs\<close>)

lemma wal_inv_run: "wal_inv m g recs w \<Longrightarrow> wal_inv m g (recs @ appended cs) (fold wal_call cs w)"
proof (induction cs arbitrary: recs w)
  case (Cons c cs)
  have "appended (c # cs) = appended [c] @ appended cs" by (cases c) simp_all
  then show ?case using Cons.IH [OF wal_inv_call [OF Cons.prems, of c]] by simp
qed simp

lemma wal_inv_New: "wal_inv m g [] (WAL_New m g)"
  by (simp add: wal_inv_def WAL_New_def max_def)

lemma durable_grows: "prefix (wal_durable w) (wal_durable (fold wal_call cs w))"
proof (induction cs arbitrary: w)
  case (Cons c cs)
  have "prefix (wal_durable w) (wal_durable (wal_call c w))"
    by (cases c) (auto simp: wal_defs split: Mode.splits)
  then show ?case using Cons.IH [of "wal_call c w"] by (simp add: prefix_order.order_trans)
qed simp

text \<open>
  C38. Durability accounting. After any sequence of appends, flushes and crashes: every acknowledged
  record is durable, buffered or counted as lost, and the surviving records are in append order; what
  is durable stays durable, through crashes too; in \<open>Fsync\<close> mode every record is durable and nothing is
  ever lost; in \<open>GroupCommit\<close> mode fewer than \<open>groupSize\<close> records are at risk at any time.
\<close>

theorem wal_durability:
  "let w = fold wal_call cs (WAL_New m g) in
     WAL_Acked w = length (appended cs) \<and>
     WAL_Acked w = length (WAL_DurableRecords w) + length (WAL_BufferedRecords w) + WAL_Lost w \<and>
     subseq (WAL_DurableRecords w @ WAL_BufferedRecords w) (appended cs) \<and>
     prefix (WAL_DurableRecords w) (WAL_DurableRecords (fold wal_call ds w)) \<and>
     (m = Fsync \<longrightarrow> WAL_DurableRecords w = appended cs \<and> WAL_Lost w = 0) \<and>
     (m = GroupCommit \<longrightarrow> int (length (WAL_BufferedRecords w)) < max 1 g)"
  using wal_inv_run [OF wal_inv_New, of m g cs] durable_grows
  by (simp add: Let_def wal_inv_def WAL_Acked_def WAL_DurableRecords_def WAL_BufferedRecords_def WAL_Lost_def)

theorem wal_durability_witness:
  "let w = fold wal_call [WAppend (Some ''a''), WAppend (Some ''b''), WAppend (Some ''c''), WCrash] (WAL_New GroupCommit 2)
   in int (length (WAL_BufferedRecords w)) < 2 \<and> WAL_DurableRecords w = [''a'', ''b''] \<and> WAL_Lost w = 1"
proof -
  define w where "w = fold wal_call [WAppend (Some ''a''), WAppend (Some ''b''), WAppend (Some ''c''), WCrash] (WAL_New GroupCommit 2)"
  have "int (length (WAL_BufferedRecords w)) < max 1 2"
    using wal_durability [of "[WAppend (Some ''a''), WAppend (Some ''b''), WAppend (Some ''c''), WCrash]" GroupCommit 2 "[]"]
    unfolding w_def Let_def by blast
  moreover have "WAL_DurableRecords w = [''a'', ''b'']" "WAL_Lost w = 1"
    unfolding w_def by code_simp+
  ultimately show ?thesis unfolding w_def Let_def by simp
qed

end
