(* ===== verification/Paxos.thy ===== *)
theory Paxos
  imports Go_Prelude
begin

unbundle bit_operations_syntax

text \<open>
  Single-decree Paxos of \<open>internal/paxos/paxos.go\<close>. A value is Go's
  \<open>interface{}\<close>: \<open>None\<close> is nil. Acceptors are objects in a slice, proposal numbers \<open>uint64\<close>.

  \<open>Propose\<close> is a sequence of calls on single acceptors. The second half of the theory cuts it at these
  calls: an \<open>Attempt\<close> is a running \<open>Propose\<close> with its loop variables, one \<open>phase_step\<close> is one loop
  iteration, and \<open>paxos_step\<close> lets any number of attempts interleave (or stall for ever). Agreement
  is proved for all interleavings; theory \<open>PaxosLog\<close> shows that \<open>Propose\<close> is an attempt run to its end.
\<close>

record 'v Acceptor =
  ac_promisedN :: u64
  ac_acceptedN :: u64
  ac_acceptedV :: "'v option"

definition new_acceptor :: "'v Acceptor" where
  "new_acceptor = \<lparr>ac_promisedN = 0, ac_acceptedN = 0, ac_acceptedV = None\<rparr>"

definition Acceptor_Prepare :: "'v Acceptor \<Rightarrow> u64 \<Rightarrow> 'v Acceptor \<times> bool \<times> u64 \<times> 'v option" where
  "Acceptor_Prepare a n =
     (if n > ac_promisedN a then (a\<lparr>ac_promisedN := n\<rparr>, True, ac_acceptedN a, ac_acceptedV a)
      else (a, False, ac_acceptedN a, ac_acceptedV a))"

definition Acceptor_Accept :: "'v Acceptor \<Rightarrow> u64 \<Rightarrow> 'v option \<Rightarrow> 'v Acceptor \<times> bool" where
  "Acceptor_Accept a n v =
     (if n \<ge> ac_promisedN a
      then (\<lparr>ac_promisedN = n, ac_acceptedN = n, ac_acceptedV = v\<rparr>, True) else (a, False))"

record Proposer =
  pr_id :: u64
  pr_round :: u64

definition NewProposer :: "u64 \<Rightarrow> Proposer" where
  "NewProposer i = \<lparr>pr_id = i, pr_round = 0\<rparr>"

definition nextProposalNumber :: "Proposer \<Rightarrow> Proposer \<times> u64" where
  "nextProposalNumber p =
     (let r = pr_round p + 1 in (p\<lparr>pr_round := r\<rparr>, push_bit 16 r OR (pr_id p AND 0xFFFF)))"

definition majority :: "nat \<Rightarrow> nat" where
  "majority n = n div 2 + 1"

text \<open>The two loops of \<open>Propose\<close>.\<close>

fun prepare_phase :: "u64 \<Rightarrow> 'v Acceptor list \<Rightarrow> nat \<Rightarrow> 'v option \<Rightarrow> u64 \<Rightarrow> 'v Acceptor list \<times> nat \<times> 'v option" where
  "prepare_phase n [] promises chosenV highest = ([], promises, chosenV)"
| "prepare_phase n (a # as) promises chosenV highest =
     (case Acceptor_Prepare a n of (a', promised, accN, accV) \<Rightarrow>
        (case (if \<not> promised then prepare_phase n as promises chosenV highest
               else if accV \<noteq> None \<and> accN > highest then prepare_phase n as (promises + 1) accV accN
               else prepare_phase n as (promises + 1) chosenV highest) of
           (as', pr, cv) \<Rightarrow> (a' # as', pr, cv)))"

fun accept_phase :: "u64 \<Rightarrow> 'v option \<Rightarrow> 'v Acceptor list \<Rightarrow> nat \<Rightarrow> 'v Acceptor list \<times> nat" where
  "accept_phase n v [] accepts = ([], accepts)"
| "accept_phase n v (a # as) accepts =
     (case Acceptor_Accept a n v of (a', ok) \<Rightarrow>
        (case accept_phase n v as (if ok then accepts + 1 else accepts) of (as', c) \<Rightarrow> (a' # as', c)))"

text \<open>The result \<open>(chosen, ok)\<close> is \<open>Some chosen\<close> or \<open>None\<close> for \<open>(nil, false)\<close>.\<close>

definition Propose ::
  "Proposer \<Rightarrow> 'v Acceptor list \<Rightarrow> 'v option \<Rightarrow> Proposer \<times> 'v Acceptor list \<times> 'v option option" where
  "Propose p acceptors v =
     (if acceptors = [] then (p, acceptors, None)
      else (let need = majority (length acceptors);
                (p', n) = nextProposalNumber p;
                (as1, promises, chosenV) = prepare_phase n acceptors 0 v 0
            in if promises < need then (p', as1, None)
               else (let (as2, accepts) = accept_phase n chosenV as1 0
                     in if accepts < need then (p', as2, None) else (p', as2, Some chosenV))))"

section \<open>Attempts\<close>

datatype 'v Phase = Preparing nat nat "'v option" u64 | Accepting nat nat "'v option" | Done "'v option option"

record 'v Attempt =
  at_n :: u64
  at_v :: "'v option"
  at_phase :: "'v Phase"

text \<open>One iteration of the loop the attempt is in, or the test behind the loop.\<close>

fun phase_step :: "u64 \<Rightarrow> 'v Acceptor list \<Rightarrow> 'v Phase \<Rightarrow> 'v Acceptor list \<times> 'v Phase" where
  "phase_step n accs (Preparing i pr cv hi) =
     (if i < length accs then
        (case Acceptor_Prepare (accs ! i) n of (a', promised, accN, accV) \<Rightarrow>
           (accs[i := a'],
            if \<not> promised then Preparing (i + 1) pr cv hi
            else if accV \<noteq> None \<and> accN > hi then Preparing (i + 1) (pr + 1) accV accN
            else Preparing (i + 1) (pr + 1) cv hi))
      else (accs, if pr < majority (length accs) then Done None else Accepting 0 0 cv))"
| "phase_step n accs (Accepting i ac cv) =
     (if i < length accs then
        (case Acceptor_Accept (accs ! i) n cv of (a', ok) \<Rightarrow>
           (accs[i := a'], Accepting (i + 1) (if ok then ac + 1 else ac) cv))
      else (accs, if ac < majority (length accs) then Done None else Done (Some cv)))"
| "phase_step n accs (Done r) = (accs, Done r)"

section \<open>All interleavings\<close>

text \<open>
  The system: the acceptors, the attempts started so far, and two history variables, the votes cast
  (acceptor, number, value) and the value each number carries once its attempt enters phase 2.
\<close>

record 'v Sys =
  sy_accs :: "'v Acceptor list"
  sy_ats :: "'v Attempt list"
  sy_votes :: "(nat \<times> u64 \<times> 'v option) set"
  sy_val :: "u64 \<rightharpoonup> 'v option"

definition init_sys :: "nat \<Rightarrow> 'v Sys" where
  "init_sys n = \<lparr>sy_accs = replicate n new_acceptor, sy_ats = [], sy_votes = {}, sy_val = Map.empty\<rparr>"

fun cast_votes :: "u64 \<Rightarrow> 'v Acceptor list \<Rightarrow> 'v Phase \<Rightarrow> (nat \<times> u64 \<times> 'v option) set" where
  "cast_votes n accs (Accepting i ac cv) =
     (if i < length accs \<and> n \<ge> ac_promisedN (accs ! i) then {(i, n, cv)} else {})"
| "cast_votes n accs _ = {}"

fun fix_value :: "u64 \<Rightarrow> 'v Phase \<Rightarrow> 'v Phase \<Rightarrow> (u64 \<rightharpoonup> 'v option) \<Rightarrow> (u64 \<rightharpoonup> 'v option)" where
  "fix_value n (Preparing i pr cv hi) (Accepting i' ac' cv') vals = vals(n \<mapsto> cv')"
| "fix_value n _ _ vals = vals"

definition start_attempt :: "u64 \<Rightarrow> 'v option \<Rightarrow> 'v Sys \<Rightarrow> 'v Sys" where
  "start_attempt n v s = s\<lparr>sy_ats := sy_ats s @ [\<lparr>at_n = n, at_v = v, at_phase = Preparing 0 0 v 0\<rparr>]\<rparr>"

definition work_attempt :: "nat \<Rightarrow> 'v Sys \<Rightarrow> 'v Sys" where
  "work_attempt j s =
     (let at = sy_ats s ! j; n = at_n at; (accs', ph') = phase_step n (sy_accs s) (at_phase at) in
      \<lparr>sy_accs = accs', sy_ats = (sy_ats s)[j := at\<lparr>at_phase := ph'\<rparr>],
       sy_votes = sy_votes s \<union> cast_votes n (sy_accs s) (at_phase at),
       sy_val = fix_value n (at_phase at) ph' (sy_val s)\<rparr>)"

inductive paxos_step :: "'v Sys \<Rightarrow> 'v Sys \<Rightarrow> bool" where
  start: "n \<notin> set (map at_n (sy_ats s)) \<Longrightarrow> 0 < n \<Longrightarrow> v \<noteq> None \<Longrightarrow> paxos_step s (start_attempt n v s)"
| work: "j < length (sy_ats s) \<Longrightarrow> paxos_step s (work_attempt j s)"

text \<open>A value is chosen at a number when a majority voted for it there.\<close>

definition chosen_at :: "'v Sys \<Rightarrow> u64 \<Rightarrow> 'v option \<Rightarrow> bool" where
  "chosen_at s n v \<longleftrightarrow> majority (length (sy_accs s)) \<le> card {a. (a, n, v) \<in> sy_votes s}"

subsection \<open>The invariant\<close>

text \<open>\<open>P\<close> has promised \<open>n\<close>, and none of its votes below \<open>n\<close> is above \<open>hi\<close>.\<close>

definition promise_ok :: "'v Sys \<Rightarrow> u64 \<Rightarrow> u64 \<Rightarrow> nat set \<Rightarrow> bool" where
  "promise_ok s n hi P \<longleftrightarrow> P \<subseteq> {..<length (sy_accs s)} \<and>
     (\<forall>a \<in> P. n \<le> ac_promisedN (sy_accs s ! a) \<and> (\<forall>m w. (a, m, w) \<in> sy_votes s \<longrightarrow> m < n \<longrightarrow> m \<le> hi))"

definition adopts :: "'v Sys \<Rightarrow> u64 \<Rightarrow> u64 \<Rightarrow> 'v option \<Rightarrow> bool" where
  "adopts s n hi v \<longleftrightarrow> v \<noteq> None \<and> (hi = 0 \<or> hi < n \<and> sy_val s hi = Some v)"

definition acceptor_inv :: "'v Sys \<Rightarrow> bool" where
  "acceptor_inv s \<longleftrightarrow>
     (\<forall>a < length (sy_accs s). ac_acceptedN (sy_accs s ! a) \<le> ac_promisedN (sy_accs s ! a) \<and>
        (ac_acceptedV (sy_accs s ! a) \<noteq> None \<longrightarrow>
           (a, ac_acceptedN (sy_accs s ! a), ac_acceptedV (sy_accs s ! a)) \<in> sy_votes s)) \<and>
     (\<forall>a m w. (a, m, w) \<in> sy_votes s \<longrightarrow> a < length (sy_accs s) \<and> w \<noteq> None \<and> sy_val s m = Some w \<and>
        ac_acceptedV (sy_accs s ! a) \<noteq> None \<and> m \<le> ac_acceptedN (sy_accs s ! a))"

definition number_inv :: "'v Sys \<Rightarrow> bool" where
  "number_inv s \<longleftrightarrow>
     (\<forall>n v. sy_val s n = Some v \<longrightarrow> n \<in> at_n ` set (sy_ats s) \<and> 0 < n \<and>
        (\<exists>hi Q. promise_ok s n hi Q \<and> majority (length (sy_accs s)) \<le> card Q \<and> adopts s n hi v))"

fun phase_inv :: "'v Sys \<Rightarrow> u64 \<Rightarrow> 'v Phase \<Rightarrow> bool" where
  "phase_inv s n (Preparing i pr cv hi) \<longleftrightarrow> sy_val s n = None \<and> adopts s n hi cv \<and>
     (\<exists>P. P \<subseteq> {..<i} \<and> card P = pr \<and> promise_ok s n hi P)"
| "phase_inv s n (Accepting i ac cv) \<longleftrightarrow> sy_val s n = Some cv \<and> ac \<le> card {a. a < i \<and> (a, n, cv) \<in> sy_votes s}"
| "phase_inv s n (Done (Some cv)) \<longleftrightarrow> chosen_at s n cv"
| "phase_inv s n (Done None) \<longleftrightarrow> True"

definition paxos_inv :: "'v Sys \<Rightarrow> bool" where
  "paxos_inv s \<longleftrightarrow> distinct (map at_n (sy_ats s)) \<and> acceptor_inv s \<and> number_inv s \<and>
     finite (sy_votes s) \<and> (\<forall>at \<in> set (sy_ats s). 0 < at_n at \<and> phase_inv s (at_n at) (at_phase at))"

subsection \<open>Steps only extend\<close>

text \<open>
  What every step does to the rest of the system: promises grow, votes are added only at or above the
  promise of the voter, values are fixed once.
\<close>

definition extends :: "'v Sys \<Rightarrow> 'v Sys \<Rightarrow> bool" where
  "extends s s' \<longleftrightarrow> length (sy_accs s') = length (sy_accs s) \<and> sy_votes s \<subseteq> sy_votes s' \<and> finite (sy_votes s') \<and>
     sy_val s \<subseteq>\<^sub>m sy_val s' \<and>
     (\<forall>a < length (sy_accs s). ac_promisedN (sy_accs s ! a) \<le> ac_promisedN (sy_accs s' ! a)) \<and>
     (\<forall>a m w. (a, m, w) \<in> sy_votes s' \<longrightarrow> (a, m, w) \<notin> sy_votes s \<longrightarrow> ac_promisedN (sy_accs s ! a) \<le> m)"

lemma extends_promise: "extends s s' \<Longrightarrow> promise_ok s n hi P \<Longrightarrow> promise_ok s' n hi P"
  unfolding extends_def promise_ok_def
  by (smt (verit) lessThan_iff linorder_not_less order_trans subset_eq)

lemma extends_val: "extends s s' \<Longrightarrow> sy_val s n = Some v \<Longrightarrow> sy_val s' n = Some v"
  unfolding extends_def map_le_def by (metis domI)

lemma extends_adopts: "extends s s' \<Longrightarrow> adopts s n hi v \<Longrightarrow> adopts s' n hi v"
  unfolding adopts_def using extends_val by blast

lemma extends_card:
  assumes "extends s s'"
  shows "card {a. a < i \<and> (a, n, v) \<in> sy_votes s} \<le> card {a. a < i \<and> (a, n, v) \<in> sy_votes s'}"
    and "card {a. (a, n, v) \<in> sy_votes s} \<le> card {a. (a, n, v) \<in> sy_votes s'}"
proof -
  have "finite (fst ` sy_votes s')" "sy_votes s \<subseteq> sy_votes s'" using assms unfolding extends_def by auto
  moreover have "{a. (a, n, v) \<in> sy_votes s'} \<subseteq> fst ` sy_votes s'" by force
  ultimately have "finite {a. (a, n, v) \<in> sy_votes s'}" "sy_votes s \<subseteq> sy_votes s'"
    by (blast intro: finite_subset)+
  then show "card {a. (a, n, v) \<in> sy_votes s} \<le> card {a. (a, n, v) \<in> sy_votes s'}"
    by (intro card_mono) auto
  show "card {a. a < i \<and> (a, n, v) \<in> sy_votes s} \<le> card {a. a < i \<and> (a, n, v) \<in> sy_votes s'}"
    using \<open>sy_votes s \<subseteq> sy_votes s'\<close> by (intro card_mono) auto
qed

lemma extends_phase:
  assumes "extends s s'" and "phase_inv s n ph" and "sy_val s n = None \<Longrightarrow> sy_val s' n = None"
  shows "phase_inv s' n ph"
proof (cases ph)
  case (Preparing i pr cv hi)
  then obtain P where "sy_val s n = None" "adopts s n hi cv" "P \<subseteq> {..<i}" "card P = pr" "promise_ok s n hi P"
    using assms(2) by auto
  then have "sy_val s' n = None" "adopts s' n hi cv" "P \<subseteq> {..<i}" "card P = pr" "promise_ok s' n hi P"
    using assms(3) extends_promise [OF assms(1)] extends_adopts [OF assms(1)] by simp_all
  then show ?thesis using Preparing by auto
next
  case (Accepting i ac cv)
  then have "sy_val s n = Some cv" "ac \<le> card {a. a < i \<and> (a, n, cv) \<in> sy_votes s}" using assms(2) by simp_all
  then have "sy_val s' n = Some cv" "ac \<le> card {a. a < i \<and> (a, n, cv) \<in> sy_votes s'}"
    using extends_val [OF assms(1)] extends_card(1) [OF assms(1), of i n cv] by (simp_all add: order_trans)
  then show ?thesis using Accepting by simp
next
  case (Done r)
  show ?thesis
  proof (cases r)
    case (Some cv)
    then have "chosen_at s n cv" using Done assms(2) by simp
    moreover have "length (sy_accs s') = length (sy_accs s)" using assms(1) by (simp add: extends_def)
    ultimately have "chosen_at s' n cv"
      using extends_card(2) [OF assms(1), of n cv] by (simp add: chosen_at_def)
    then show ?thesis using Done Some by simp
  qed (simp add: Done)
qed

lemma extends_number:
  assumes "extends s s'" and "number_inv s" and "at_n ` set (sy_ats s) \<subseteq> at_n ` set (sy_ats s')" and "sy_val s' = sy_val s"
  shows "number_inv s'"
  unfolding number_inv_def
proof (intro allI impI)
  fix n v
  assume "sy_val s' n = Some v"
  then have "sy_val s n = Some v" by (simp add: assms(4))
  then obtain hi Q where q: "n \<in> at_n ` set (sy_ats s)" "0 < n" "promise_ok s n hi Q"
    "majority (length (sy_accs s)) \<le> card Q" "adopts s n hi v"
    using assms(2) unfolding number_inv_def by blast
  show "n \<in> at_n ` set (sy_ats s') \<and> 0 < n \<and>
      (\<exists>hi Q. promise_ok s' n hi Q \<and> majority (length (sy_accs s')) \<le> card Q \<and> adopts s' n hi v)"
  proof (intro conjI exI [of _ hi] exI [of _ Q])
    show "n \<in> at_n ` set (sy_ats s')" using assms(3) q(1) by blast
    show "majority (length (sy_accs s')) \<le> card Q" using assms(1) q(4) by (simp add: extends_def)
  qed (use q assms(1) extends_promise extends_adopts in blast)+
qed

subsection \<open>Preservation\<close>

lemma inv_start:
  assumes inv: "paxos_inv s" and "n \<notin> set (map at_n (sy_ats s))" and "0 < n" and "v \<noteq> None"
  shows "paxos_inv (start_attempt n v s)"
proof -
  let ?s = "start_attempt n v s"
  have ext: "extends s ?s" using inv by (simp add: extends_def start_attempt_def paxos_inv_def)
  have val: "sy_val ?s = sy_val s" by (simp add: start_attempt_def)
  have none: "sy_val s n = None"
    using inv assms(2) unfolding paxos_inv_def number_inv_def by (metis list.set_map option.exhaust)
  have "number_inv ?s"
    using inv by (intro extends_number [OF ext]) (auto simp: paxos_inv_def start_attempt_def)
  moreover have "acceptor_inv ?s" using inv by (simp add: paxos_inv_def acceptor_inv_def start_attempt_def)
  moreover have "phase_inv ?s (at_n at) (at_phase at)" if "at \<in> set (sy_ats s)" for at
    using inv that val by (intro extends_phase [OF ext]) (auto simp: paxos_inv_def)
  moreover have "phase_inv ?s n (Preparing 0 0 v 0)"
    using none assms(4) by (simp add: val adopts_def promise_ok_def)
  ultimately show ?thesis
    using inv assms(2,3) unfolding paxos_inv_def by (auto simp: start_attempt_def)
qed

lemma acceptor_inv_vote:
  "acceptor_inv s \<Longrightarrow> (a, m, w) \<in> sy_votes s \<Longrightarrow> a < length (sy_accs s) \<and> w \<noteq> None \<and> sy_val s m = Some w \<and>
     ac_acceptedV (sy_accs s ! a) \<noteq> None \<and> m \<le> ac_acceptedN (sy_accs s ! a)"
  unfolding acceptor_inv_def by blast

lemma acceptor_inv_acc:
  "acceptor_inv s \<Longrightarrow> a < length (sy_accs s) \<Longrightarrow> ac_acceptedN (sy_accs s ! a) \<le> ac_promisedN (sy_accs s ! a) \<and>
     (ac_acceptedV (sy_accs s ! a) \<noteq> None \<longrightarrow>
       (a, ac_acceptedN (sy_accs s ! a), ac_acceptedV (sy_accs s ! a)) \<in> sy_votes s)"
  unfolding acceptor_inv_def by blast

lemma promise_ok_weaken: "promise_ok s n hi P \<Longrightarrow> hi \<le> hi' \<Longrightarrow> promise_ok s n hi' P"
  unfolding promise_ok_def by (meson order_trans)

lemma promise_ok_insert:
  "promise_ok s n hi (insert a P) \<longleftrightarrow> a < length (sy_accs s) \<and> n \<le> ac_promisedN (sy_accs s ! a) \<and>
     (\<forall>m w. (a, m, w) \<in> sy_votes s \<longrightarrow> m < n \<longrightarrow> m \<le> hi) \<and> promise_ok s n hi P"
  unfolding promise_ok_def by blast

text \<open>A prepare call: one more promiser, and the highest vote reported so far.\<close>

lemma prepare_promises:
  assumes acc: "acceptor_inv s" and fin: "finite (sy_votes s)" and i: "i < length (sy_accs s)"
    and promised: "ac_promisedN (sy_accs s ! i) < n"
    and s': "sy_accs s' = (sy_accs s)[i := (sy_accs s ! i)\<lparr>ac_promisedN := n\<rparr>]" "sy_votes s' = sy_votes s" "sy_val s' = sy_val s"
    and P: "P \<subseteq> {..<i}" "promise_ok s n hi P"
    and a: "accN = ac_acceptedN (sy_accs s ! i)" "accV = ac_acceptedV (sy_accs s ! i)"
    and hi': "hi' = (if accV \<noteq> None \<and> accN > hi then accN else hi)"
  shows "extends s s'" and "promise_ok s' n hi' (insert i P)"
    and "adopts s n hi cv \<Longrightarrow> adopts s' n hi' (if accV \<noteq> None \<and> accN > hi then accV else cv)"
proof -
  show ext: "extends s s'"
  proof (unfold extends_def, intro conjI allI impI)
    fix a
    assume "a < length (sy_accs s)"
    then show "ac_promisedN (sy_accs s ! a) \<le> ac_promisedN (sy_accs s' ! a)"
      using promised by (cases "a = i") (simp_all add: s')
  qed (simp_all add: s' fin)
  have "m \<le> hi'" if "(i, m, w) \<in> sy_votes s" for m w
    using acceptor_inv_vote [OF acc that] hi' a by (auto split: if_splits intro: order_trans)
  moreover have "hi \<le> hi'" using hi' by auto
  moreover have "promise_ok s' n hi P" using extends_promise [OF ext P(2)] .
  ultimately show "promise_ok s' n hi' (insert i P)"
    using i promise_ok_weaken [of s' n hi P hi'] by (auto simp: promise_ok_insert s')
  assume ad: "adopts s n hi cv"
  show "adopts s' n hi' (if accV \<noteq> None \<and> accN > hi then accV else cv)"
  proof (cases "accV \<noteq> None \<and> accN > hi")
    case True
    then have "(i, accN, accV) \<in> sy_votes s" using acceptor_inv_acc [OF acc i] a by simp
    then have "sy_val s accN = Some accV" using acceptor_inv_vote [OF acc] by blast
    moreover have "accN < n" using acceptor_inv_acc [OF acc i] promised a by (auto intro: order.strict_trans1)
    ultimately show ?thesis using True hi' by (simp add: adopts_def s')
  next
    case False
    have "hi' = hi" using False by (auto simp: hi')
    then show ?thesis using ad False unfolding adopts_def s'(3) if_not_P [OF False] by simp
  qed
qed

text \<open>Gluing the parts of the invariant after a step of attempt \<open>j\<close>.\<close>

lemma inv_after:
  assumes inv: "paxos_inv s" and j: "j < length (sy_ats s)" and ext: "extends s s'"
    and ats: "sy_ats s' = (sy_ats s)[j := (sy_ats s ! j)\<lparr>at_phase := ph'\<rparr>]"
    and "acceptor_inv s'" and "number_inv s'" and "phase_inv s' (at_n (sy_ats s ! j)) ph'"
    and val: "\<And>m. m \<noteq> at_n (sy_ats s ! j) \<Longrightarrow> sy_val s m = None \<Longrightarrow> sy_val s' m = None"
  shows "paxos_inv s'"
proof -
  let ?n = "at_n (sy_ats s ! j)"
  have dist: "distinct (map at_n (sy_ats s))" and ph: "\<And>at. at \<in> set (sy_ats s) \<Longrightarrow> 0 < at_n at \<and> phase_inv s (at_n at) (at_phase at)"
    using inv unfolding paxos_inv_def by blast+
  have nums: "map at_n (sy_ats s') = map at_n (sy_ats s)"
    by (simp add: ats map_update) (metis j length_map list_update_id nth_map)
  have "0 < at_n at \<and> phase_inv s' (at_n at) (at_phase at)" if mem: "at \<in> set (sy_ats s')" for at
  proof -
    obtain k where k: "k < length (sy_ats s)" "at = sy_ats s' ! k" using mem by (auto simp: ats in_set_conv_nth)
    show ?thesis
    proof (cases "k = j")
      case True
      then show ?thesis using k j assms(7) ph [OF nth_mem [OF j]] by (simp add: ats)
    next
      case False
      then have "at = sy_ats s ! k" using k by (simp add: ats)
      moreover have "at_n (sy_ats s ! k) \<noteq> ?n"
        using dist k(1) j False by (metis length_map nth_eq_iff_index_eq nth_map)
      ultimately show ?thesis
        using ph [OF nth_mem [OF k(1)]] extends_phase [OF ext] val by blast
    qed
  qed
  moreover have "finite (sy_votes s')" using ext by (simp add: extends_def)
  ultimately show ?thesis using assms(5,6) dist nums unfolding paxos_inv_def by simp
qed

lemma extends_refl: "finite (sy_votes s) \<Longrightarrow> sy_accs s' = sy_accs s \<Longrightarrow> sy_votes s' = sy_votes s \<Longrightarrow> sy_val s' = sy_val s \<Longrightarrow> extends s s'"
  by (simp add: extends_def)

lemma acceptor_inv_same:
  "acceptor_inv s \<Longrightarrow> sy_accs s' = sy_accs s \<Longrightarrow> sy_votes s' = sy_votes s \<Longrightarrow> sy_val s' = sy_val s \<Longrightarrow> acceptor_inv s'"
  by (simp add: acceptor_inv_def)

lemma acceptor_inv_promise:
  assumes "acceptor_inv s" and "i < length (sy_accs s)" and "ac_promisedN (sy_accs s ! i) < n"
    and s': "sy_accs s' = (sy_accs s)[i := (sy_accs s ! i)\<lparr>ac_promisedN := n\<rparr>]" "sy_votes s' = sy_votes s" "sy_val s' = sy_val s"
  shows "acceptor_inv s'"
proof -
  have acc: "ac_acceptedN (sy_accs s' ! a) = ac_acceptedN (sy_accs s ! a) \<and>
      ac_acceptedV (sy_accs s' ! a) = ac_acceptedV (sy_accs s ! a) \<and>
      ac_promisedN (sy_accs s ! a) \<le> ac_promisedN (sy_accs s' ! a)" if "a < length (sy_accs s)" for a
    using that assms(2,3) by (cases "a = i") (simp_all add: s')
  show ?thesis
    unfolding acceptor_inv_def
  proof (intro conjI allI impI)
    fix a m w
    assume "(a, m, w) \<in> sy_votes s'"
    then have v: "(a, m, w) \<in> sy_votes s" by (simp add: s')
    note vote = acceptor_inv_vote [OF assms(1) v]
    then show "a < length (sy_accs s')" "w \<noteq> None" "sy_val s' m = Some w"
      "ac_acceptedV (sy_accs s' ! a) \<noteq> None" "m \<le> ac_acceptedN (sy_accs s' ! a)"
      using acc [of a] by (simp_all add: s'(1,3))
  next
    fix a
    assume "a < length (sy_accs s')"
    then have a: "a < length (sy_accs s)" by (simp add: s')
    note accp = acceptor_inv_acc [OF assms(1) a]
    then show "ac_acceptedN (sy_accs s' ! a) \<le> ac_promisedN (sy_accs s' ! a)" using acc [OF a] by auto
    assume "ac_acceptedV (sy_accs s' ! a) \<noteq> None"
    then show "(a, ac_acceptedN (sy_accs s' ! a), ac_acceptedV (sy_accs s' ! a)) \<in> sy_votes s'"
      using accp acc [OF a] s'(2) by simp
  qed
qed

text \<open>An accept call that succeeds: one more vote, at a number no promise forbids.\<close>

lemma accept_votes:
  assumes acc: "acceptor_inv s" and fin: "finite (sy_votes s)" and i: "i < length (sy_accs s)"
    and ok: "ac_promisedN (sy_accs s ! i) \<le> n" and val: "sy_val s n = Some cv" and cv: "cv \<noteq> None"
    and s': "sy_accs s' = (sy_accs s)[i := \<lparr>ac_promisedN = n, ac_acceptedN = n, ac_acceptedV = cv\<rparr>]"
      "sy_votes s' = insert (i, n, cv) (sy_votes s)" "sy_val s' = sy_val s"
  shows "extends s s'" and "acceptor_inv s'"
proof -
  show ext: "extends s s'"
  proof (unfold extends_def, intro conjI allI impI)
    fix a
    assume "a < length (sy_accs s)"
    then show "ac_promisedN (sy_accs s ! a) \<le> ac_promisedN (sy_accs s' ! a)"
      using ok by (cases "a = i") (simp_all add: s')
  qed (use fin ok in \<open>auto simp: s'\<close>)
  show "acceptor_inv s'"
    unfolding acceptor_inv_def
  proof (intro conjI allI impI)
    fix a m w
    assume v: "(a, m, w) \<in> sy_votes s'"
    show "a < length (sy_accs s')" "w \<noteq> None" "sy_val s' m = Some w"
      using v acceptor_inv_vote [OF acc, of a m w] i val cv by (auto simp: s')
    have "m \<le> n" if "(i, m, w) \<in> sy_votes s"
      using acceptor_inv_vote [OF acc that] acceptor_inv_acc [OF acc i] ok by (meson order_trans)
    then show "ac_acceptedV (sy_accs s' ! a) \<noteq> None" "m \<le> ac_acceptedN (sy_accs s' ! a)"
      using v acceptor_inv_vote [OF acc, of a m w] i cv by (cases "a = i"; auto simp: s')+
  next
    fix a
    assume "a < length (sy_accs s')"
    then have a: "a < length (sy_accs s)" by (simp add: s')
    note accp = acceptor_inv_acc [OF acc a]
    then show "ac_acceptedN (sy_accs s' ! a) \<le> ac_promisedN (sy_accs s' ! a)"
      using a by (cases "a = i") (simp_all add: s')
    assume "ac_acceptedV (sy_accs s' ! a) \<noteq> None"
    then show "(a, ac_acceptedN (sy_accs s' ! a), ac_acceptedV (sy_accs s' ! a)) \<in> sy_votes s'"
      using accp a by (cases "a = i") (simp_all add: s')
  qed
qed

lemma work_fields:
  assumes "phase_step (at_n (sy_ats s ! j)) (sy_accs s) (at_phase (sy_ats s ! j)) = (accs', ph')"
  shows "sy_accs (work_attempt j s) = accs'"
    and "sy_ats (work_attempt j s) = (sy_ats s)[j := (sy_ats s ! j)\<lparr>at_phase := ph'\<rparr>]"
    and "sy_votes (work_attempt j s) = sy_votes s \<union> cast_votes (at_n (sy_ats s ! j)) (sy_accs s) (at_phase (sy_ats s ! j))"
    and "sy_val (work_attempt j s) = fix_value (at_n (sy_ats s ! j)) (at_phase (sy_ats s ! j)) ph' (sy_val s)"
  using assms by (simp_all add: work_attempt_def Let_def)

lemma nums_after: "j < length ats \<Longrightarrow> at_n ` set (ats[j := (ats ! j)\<lparr>at_phase := ph\<rparr>]) = at_n ` set ats"
proof -
  assume j: "j < length ats"
  have "map at_n (ats[j := (ats ! j)\<lparr>at_phase := ph\<rparr>]) = (map at_n ats)[j := at_n (ats ! j)]"
    by (simp add: map_update)
  also have "\<dots> = map at_n ats" using j by (metis list_update_id nth_map)
  finally show ?thesis by (metis list.set_map)
qed

text \<open>Steps that touch no acceptor, no vote and no value.\<close>

lemma inv_quiet:
  assumes inv: "paxos_inv s" and j: "j < length (sy_ats s)"
    and s': "sy_accs s' = sy_accs s" "sy_votes s' = sy_votes s" "sy_val s' = sy_val s"
      "sy_ats s' = (sy_ats s)[j := (sy_ats s ! j)\<lparr>at_phase := ph'\<rparr>]"
    and ph: "phase_inv s (at_n (sy_ats s ! j)) ph'"
  shows "paxos_inv s'"
proof -
  have fin: "finite (sy_votes s)" "acceptor_inv s" "number_inv s" using inv by (simp_all add: paxos_inv_def)
  have ext: "extends s s'" using fin(1) s'(1-3) by (rule extends_refl)
  show ?thesis
  proof (rule inv_after [OF inv j ext s'(4)])
    show "acceptor_inv s'" using fin(2) s'(1-3) by (rule acceptor_inv_same)
    show "number_inv s'" using fin(3) by (rule extends_number [OF ext]) (simp_all add: s' nums_after [OF j])
    show "phase_inv s' (at_n (sy_ats s ! j)) ph'" using extends_phase [OF ext ph] by (simp add: s')
  qed (simp add: s')
qed

lemma inv_work_preparing:
  assumes inv: "paxos_inv s" and j: "j < length (sy_ats s)" and ph: "at_phase (sy_ats s ! j) = Preparing i pr cv hi"
    and i: "i < length (sy_accs s)"
  shows "paxos_inv (work_attempt j s)"
proof -
  define n where "n = at_n (sy_ats s ! j)"
  let ?a = "sy_accs s ! i"
  have acc: "acceptor_inv s" and fin: "finite (sy_votes s)" and num: "number_inv s" using inv by (simp_all add: paxos_inv_def)
  have "phase_inv s n (Preparing i pr cv hi)"
    using inv nth_mem [OF j] ph unfolding paxos_inv_def n_def by metis
  then obtain P where P: "sy_val s n = None" "adopts s n hi cv" "P \<subseteq> {..<i}" "card P = pr" "promise_ok s n hi P" by auto
  show ?thesis
  proof (cases "ac_promisedN ?a < n")
    case False
    have step: "phase_step n (sy_accs s) (at_phase (sy_ats s ! j)) = (sy_accs s, Preparing (i + 1) pr cv hi)"
      using False i by (simp add: ph Acceptor_Prepare_def)
    note w = work_fields [OF step [unfolded n_def]]
    have "phase_inv s n (Preparing (i + 1) pr cv hi)"
      using P by (auto simp: less_Suc_eq subset_iff intro!: exI [of _ P])
    then show ?thesis
      using w by (intro inv_quiet [OF inv j, where ph' = "Preparing (i + 1) pr cv hi"]) (simp_all add: ph n_def)
  next
    case True
    define hi' where "hi' = (if ac_acceptedV ?a \<noteq> None \<and> ac_acceptedN ?a > hi then ac_acceptedN ?a else hi)"
    define cv' where "cv' = (if ac_acceptedV ?a \<noteq> None \<and> ac_acceptedN ?a > hi then ac_acceptedV ?a else cv)"
    have step: "phase_step n (sy_accs s) (at_phase (sy_ats s ! j)) =
        ((sy_accs s)[i := ?a\<lparr>ac_promisedN := n\<rparr>], Preparing (i + 1) (pr + 1) cv' hi')"
      using True i by (simp add: ph Acceptor_Prepare_def hi'_def cv'_def)
    note w = work_fields [OF step [unfolded n_def]]
    have s': "sy_accs (work_attempt j s) = (sy_accs s)[i := ?a\<lparr>ac_promisedN := n\<rparr>]"
      "sy_votes (work_attempt j s) = sy_votes s" "sy_val (work_attempt j s) = sy_val s"
      using w by (simp_all add: ph n_def)
    note pp = prepare_promises [OF acc fin i True s' P(3,5) refl refl hi'_def]
    have "finite P" using P(3) finite_subset by blast
    moreover have "i \<notin> P" using P(3) by auto
    ultimately have "card (insert i P) = pr + 1" using P(4) by simp
    moreover have "insert i P \<subseteq> {..<i + 1}" using P(3) by auto
    ultimately have "\<exists>Q. Q \<subseteq> {..<i + 1} \<and> card Q = pr + 1 \<and> promise_ok (work_attempt j s) n hi' Q"
      using pp(2) by blast
    then have ph': "phase_inv (work_attempt j s) n (Preparing (i + 1) (pr + 1) cv' hi')"
      using P(1) pp(3) [OF P(2)] s'(3) unfolding cv'_def by simp
    show ?thesis
    proof (rule inv_after [OF inv j pp(1) w(2)])
      show "acceptor_inv (work_attempt j s)" using acc i True s' by (rule acceptor_inv_promise)
      show "number_inv (work_attempt j s)"
        by (rule extends_number [OF pp(1) num]) (simp_all add: w(2) nums_after [OF j] s'(3))
    qed (use w ph' s' in \<open>simp_all add: n_def\<close>)
  qed
qed

text \<open>The test behind phase 1: the value of the number is fixed.\<close>

lemma inv_work_prepared:
  assumes inv: "paxos_inv s" and j: "j < length (sy_ats s)" and ph: "at_phase (sy_ats s ! j) = Preparing i pr cv hi"
    and i: "\<not> i < length (sy_accs s)"
  shows "paxos_inv (work_attempt j s)"
proof -
  define n where "n = at_n (sy_ats s ! j)"
  have acc: "acceptor_inv s" and fin: "finite (sy_votes s)" and num: "number_inv s" using inv by (simp_all add: paxos_inv_def)
  have "phase_inv s n (Preparing i pr cv hi)" "0 < n"
    using inv nth_mem [OF j] ph unfolding paxos_inv_def n_def by metis+
  then obtain P where P: "sy_val s n = None" "adopts s n hi cv" "P \<subseteq> {..<i}" "card P = pr" "promise_ok s n hi P" by auto
  show ?thesis
  proof (cases "pr < majority (length (sy_accs s))")
    case True
    have step: "phase_step n (sy_accs s) (at_phase (sy_ats s ! j)) = (sy_accs s, Done None)"
      using True i by (simp add: ph)
    note w = work_fields [OF step [unfolded n_def]]
    then show ?thesis by (intro inv_quiet [OF inv j, where ph' = "Done None"]) (simp_all add: ph)
  next
    case False
    have step: "phase_step n (sy_accs s) (at_phase (sy_ats s ! j)) = (sy_accs s, Accepting 0 0 cv)"
      using False i by (simp add: ph)
    note w = work_fields [OF step [unfolded n_def]]
    let ?s = "work_attempt j s"
    have s': "sy_accs ?s = sy_accs s" "sy_votes ?s = sy_votes s" "sy_val ?s = (sy_val s)(n \<mapsto> cv)"
      using w by (simp_all add: ph n_def)
    have ext: "extends s ?s" using P(1) fin by (auto simp: extends_def s' map_le_def)
    show ?thesis
    proof (rule inv_after [OF inv j ext w(2)])
      show "acceptor_inv ?s"
        unfolding acceptor_inv_def using acceptor_inv_vote [OF acc] acceptor_inv_acc [OF acc] P(1) by (auto simp: s')
      show "number_inv ?s"
        unfolding number_inv_def
      proof (intro allI impI)
        fix m v
        assume m: "sy_val ?s m = Some v"
        show "m \<in> at_n ` set (sy_ats ?s) \<and> 0 < m \<and>
            (\<exists>hi Q. promise_ok ?s m hi Q \<and> majority (length (sy_accs ?s)) \<le> card Q \<and> adopts ?s m hi v)"
        proof (cases "m = n")
          case True
          then have "v = cv" using m by (simp add: s')
          moreover have "promise_ok ?s n hi P" "adopts ?s n hi cv"
            using extends_promise [OF ext P(5)] extends_adopts [OF ext P(2)] .
          moreover have "n \<in> at_n ` set (sy_ats s)" using nth_mem [OF j] by (simp add: n_def)
          moreover have "majority (length (sy_accs ?s)) \<le> card P" using False P(4) s'(1) by simp
          ultimately show ?thesis
            using True \<open>0 < n\<close> unfolding w(2) nums_after [OF j] by blast
        next
          case False
          then have "sy_val s m = Some v" using m by (simp add: s')
          then obtain hi' Q where "m \<in> at_n ` set (sy_ats s)" "0 < m" "promise_ok s m hi' Q"
            "majority (length (sy_accs s)) \<le> card Q" "adopts s m hi' v"
            using num unfolding number_inv_def by blast
          then show ?thesis
            using extends_promise [OF ext] extends_adopts [OF ext]
            unfolding w(2) nums_after [OF j] s'(1) by blast
        qed
      qed
    qed (simp_all add: s' n_def)
  qed
qed

lemma inv_work_accepting:
  assumes inv: "paxos_inv s" and j: "j < length (sy_ats s)" and ph: "at_phase (sy_ats s ! j) = Accepting i ac cv"
    and i: "i < length (sy_accs s)"
  shows "paxos_inv (work_attempt j s)"
proof -
  define n where "n = at_n (sy_ats s ! j)"
  let ?s = "work_attempt j s"
  have acc: "acceptor_inv s" and fin: "finite (sy_votes s)" and num: "number_inv s" using inv by (simp_all add: paxos_inv_def)
  have "phase_inv s n (Accepting i ac cv)"
    using inv nth_mem [OF j] ph unfolding paxos_inv_def n_def by metis
  then have val: "sy_val s n = Some cv" and ac: "ac \<le> card {a. a < i \<and> (a, n, cv) \<in> sy_votes s}" by simp_all
  then have cv: "cv \<noteq> None" using num unfolding number_inv_def adopts_def by blast
  show ?thesis
  proof (cases "ac_promisedN (sy_accs s ! i) \<le> n")
    case False
    have step: "phase_step n (sy_accs s) (at_phase (sy_ats s ! j)) = (sy_accs s, Accepting (i + 1) ac cv)"
      using False i by (simp add: ph Acceptor_Accept_def)
    note w = work_fields [OF step [unfolded n_def]]
    have "card {a. a < i \<and> (a, n, cv) \<in> sy_votes s} \<le> card {a. a < i + 1 \<and> (a, n, cv) \<in> sy_votes s}"
      by (intro card_mono) auto
    then have "phase_inv s n (Accepting (i + 1) ac cv)" using val ac by simp
    then show ?thesis
      using w False by (intro inv_quiet [OF inv j, where ph' = "Accepting (i + 1) ac cv"]) (simp_all add: ph n_def)
  next
    case True
    have step: "phase_step n (sy_accs s) (at_phase (sy_ats s ! j)) =
        ((sy_accs s)[i := \<lparr>ac_promisedN = n, ac_acceptedN = n, ac_acceptedV = cv\<rparr>], Accepting (i + 1) (ac + 1) cv)"
      using True i by (simp add: ph Acceptor_Accept_def)
    note w = work_fields [OF step [unfolded n_def]]
    have s': "sy_accs ?s = (sy_accs s)[i := \<lparr>ac_promisedN = n, ac_acceptedN = n, ac_acceptedV = cv\<rparr>]"
      "sy_votes ?s = insert (i, n, cv) (sy_votes s)" "sy_val ?s = sy_val s"
      using w True i by (simp_all add: ph n_def)
    note av = accept_votes [OF acc fin i True val cv s']
    have "{a. a < i + 1 \<and> (a, n, cv) \<in> sy_votes ?s} = insert i {a. a < i \<and> (a, n, cv) \<in> sy_votes s}"
      by (auto simp: s' less_Suc_eq)
    then have "ac + 1 \<le> card {a. a < i + 1 \<and> (a, n, cv) \<in> sy_votes ?s}" using ac by simp
    then have "phase_inv ?s n (Accepting (i + 1) (ac + 1) cv)" using val by (simp add: s'(3))
    then show ?thesis
      using av w(2) s'(3) extends_number [OF av(1) num]
      by (intro inv_after [OF inv j av(1) w(2)]) (simp_all add: n_def nums_after [OF j])
  qed
qed

text \<open>The test behind phase 2: a success means a majority voted.\<close>

lemma inv_work_accepted:
  assumes inv: "paxos_inv s" and j: "j < length (sy_ats s)" and ph: "at_phase (sy_ats s ! j) = Accepting i ac cv"
    and i: "\<not> i < length (sy_accs s)"
  shows "paxos_inv (work_attempt j s)"
proof -
  define n where "n = at_n (sy_ats s ! j)"
  define r where "r = (if ac < majority (length (sy_accs s)) then None else Some cv)"
  have acc: "acceptor_inv s" and fin: "finite (sy_votes s)" using inv by (simp_all add: paxos_inv_def)
  have "phase_inv s n (Accepting i ac cv)"
    using inv nth_mem [OF j] ph unfolding paxos_inv_def n_def by metis
  then have ac: "ac \<le> card {a. a < i \<and> (a, n, cv) \<in> sy_votes s}" by simp
  have step: "phase_step n (sy_accs s) (at_phase (sy_ats s ! j)) = (sy_accs s, Done r)"
    using i by (simp add: ph r_def)
  note w = work_fields [OF step [unfolded n_def]]
  have "{a. (a, n, cv) \<in> sy_votes s} \<subseteq> {..<length (sy_accs s)}" using acceptor_inv_vote [OF acc] by blast
  then have "{a. (a, n, cv) \<in> sy_votes s} = {a. a < i \<and> (a, n, cv) \<in> sy_votes s}" using i by auto
  then have "phase_inv s n (Done r)" using ac by (auto simp: r_def chosen_at_def)
  then show ?thesis
    using w i by (intro inv_quiet [OF inv j, where ph' = "Done r"]) (simp_all add: ph n_def)
qed

lemma inv_step: "paxos_step s s' \<Longrightarrow> paxos_inv s \<Longrightarrow> paxos_inv s'"
proof (induction rule: paxos_step.induct)
  case (start n s v)
  then show ?case by (intro inv_start)
next
  case (work j s)
  show ?case
  proof (cases "at_phase (sy_ats s ! j)")
    case (Preparing i pr cv hi)
    then show ?thesis using work inv_work_preparing inv_work_prepared by blast
  next
    case (Accepting i ac cv)
    then show ?thesis using work inv_work_accepting inv_work_accepted by blast
  next
    case (Done r)
    then have same: "(sy_ats s ! j)\<lparr>at_phase := Done r\<rparr> = sy_ats s ! j" by (cases "sy_ats s ! j") simp
    have "work_attempt j s = s" unfolding work_attempt_def Let_def Done by (simp add: same)
    then show ?thesis using work by simp
  qed
qed

lemma inv_init: "paxos_inv (init_sys n)"
  by (simp add: paxos_inv_def init_sys_def acceptor_inv_def number_inv_def new_acceptor_def)

lemma inv_reachable: "paxos_step\<^sup>*\<^sup>* (init_sys n) s \<Longrightarrow> paxos_inv s"
  by (induction rule: rtranclp_induct) (auto simp: inv_init intro: inv_step)

subsection \<open>Agreement\<close>

lemma majorities_meet:
  assumes "A \<subseteq> {..<n}" and "B \<subseteq> {..<n}" and "majority n \<le> card A" and "majority n \<le> card B"
  shows "A \<inter> B \<noteq> {}"
proof
  assume "A \<inter> B = {}"
  moreover have fin: "finite A" "finite B" using assms finite_subset by blast+
  ultimately have "card A + card B = card (A \<union> B)" by (simp add: card_Un_disjoint)
  also have "\<dots> \<le> card {..<n}" using assms by (intro card_mono) auto
  finally show False using assms(3,4) by (simp add: majority_def)
qed

lemma chosen_val:
  assumes "paxos_inv s" and "chosen_at s m w"
  shows "sy_val s m = Some w" and "0 < m"
proof -
  have "acceptor_inv s" "number_inv s" using assms by (simp_all add: paxos_inv_def)
  moreover have "{a. (a, m, w) \<in> sy_votes s} \<noteq> {}"
    using assms(2) unfolding chosen_at_def majority_def by (metis add_is_0 card.empty le_zero_eq one_neq_zero)
  ultimately show "sy_val s m = Some w" "0 < m"
    using acceptor_inv_vote unfolding number_inv_def by blast+
qed

lemma chosen_is_kept:
  assumes inv: "paxos_inv s" and ch: "chosen_at s m w"
  shows "sy_val s n = Some v \<Longrightarrow> m \<le> n \<Longrightarrow> v = w"
proof (induction "unat n" arbitrary: n rule: less_induct)
  case less
  show ?case
  proof (cases "m = n")
    case True
    then show ?thesis using chosen_val [OF inv ch] less.prems by simp
  next
    case False
    then have mn: "m < n" using less.prems by simp
    obtain hi Q where q: "promise_ok s n hi Q" "majority (length (sy_accs s)) \<le> card Q" "adopts s n hi v"
      using inv less.prems(1) unfolding paxos_inv_def number_inv_def by blast
    let ?A = "{a. (a, m, w) \<in> sy_votes s}"
    have "?A \<subseteq> {..<length (sy_accs s)}" "Q \<subseteq> {..<length (sy_accs s)}"
      using inv acceptor_inv_vote q(1) unfolding paxos_inv_def promise_ok_def by blast+
    then have "?A \<inter> Q \<noteq> {}" using majorities_meet ch q(2) unfolding chosen_at_def by blast
    then have "m \<le> hi" using q(1) mn unfolding promise_ok_def by blast
    moreover have "hi \<noteq> 0" using calculation chosen_val(2) [OF inv ch] by auto
    then have "hi < n" "sy_val s hi = Some v" using q(3) unfolding adopts_def by blast+
    ultimately show ?thesis using less.hyps [of hi] by (simp add: word_less_nat_alt)
  qed
qed

lemma chosen_unique:
  assumes "paxos_inv s" and "chosen_at s m w" and "chosen_at s n v"
  shows "v = w"
proof (cases "m \<le> n")
  case True
  then show ?thesis using chosen_is_kept chosen_val assms by blast
next
  case False
  then have "n \<le> m" by simp
  then show ?thesis using chosen_is_kept chosen_val assms by metis
qed

lemma done_chosen:
  "paxos_inv s \<Longrightarrow> at \<in> set (sy_ats s) \<Longrightarrow> at_phase at = Done (Some v) \<Longrightarrow> chosen_at s (at_n at) v"
  unfolding paxos_inv_def by (metis phase_inv.simps(3))

text \<open>Only proposed values travel.\<close>

fun phase_values :: "'v Phase \<Rightarrow> 'v option set" where
  "phase_values (Preparing i pr cv hi) = {cv}"
| "phase_values (Accepting i ac cv) = {cv}"
| "phase_values (Done r) = set_option r"

definition proposed_only :: "'v Sys \<Rightarrow> bool" where
  "proposed_only s \<longleftrightarrow> ac_acceptedV ` set (sy_accs s) \<subseteq> insert None (at_v ` set (sy_ats s)) \<and>
     (\<forall>at \<in> set (sy_ats s). phase_values (at_phase at) \<subseteq> at_v ` set (sy_ats s))"

lemma phase_step_values:
  assumes step: "phase_step n accs ph = (accs', ph')"
    and acc: "ac_acceptedV ` set accs \<subseteq> insert None V" and ph: "phase_values ph \<subseteq> V"
  shows "ac_acceptedV ` set accs' \<subseteq> insert None V \<and> phase_values ph' \<subseteq> V"
proof -
  have upd: "ac_acceptedV ` set (accs[i := a]) \<subseteq> insert None V" if "ac_acceptedV a \<in> insert None V" for i a
    using that acc image_mono [OF set_update_subset_insert [of accs i a], of ac_acceptedV] by (simp add: subset_trans)
  have at: "ac_acceptedV (accs ! i) \<in> insert None V" if "i < length accs" for i
    by (rule subsetD [OF acc imageI [OF nth_mem [OF that]]])
  show ?thesis
  proof (cases ph)
    case (Preparing i pr cv hi)
    show ?thesis
    proof (cases "i < length accs")
      case True
      let ?a = "fst (Acceptor_Prepare (accs ! i) n)"
      have "accs' = accs[i := ?a]" "phase_values ph' \<subseteq> insert cv ({ac_acceptedV (accs ! i)} - {None})"
        using step True Preparing by (auto simp: Acceptor_Prepare_def split: if_splits)
      moreover have "ac_acceptedV ?a = ac_acceptedV (accs ! i)" by (simp add: Acceptor_Prepare_def)
      ultimately have "ac_acceptedV ` set accs' \<subseteq> insert None V" using at [OF True] upd [of ?a i] by metis
      moreover have "phase_values ph' \<subseteq> V" using \<open>phase_values ph' \<subseteq> _\<close> at [OF True] ph Preparing by auto
      ultimately show ?thesis ..
    next
      case False
      then have "accs' = accs" "phase_values ph' \<subseteq> {cv}" using step Preparing by (auto split: if_splits)
      then show ?thesis using acc ph Preparing by auto
    qed
  next
    case (Accepting i ac cv)
    show ?thesis
    proof (cases "i < length accs")
      case True
      let ?a = "fst (Acceptor_Accept (accs ! i) n cv)"
      have "accs' = accs[i := ?a]" "phase_values ph' = {cv}"
        using step True Accepting by (auto simp: Acceptor_Accept_def split: if_splits)
      have "ac_acceptedV ?a \<in> {cv, ac_acceptedV (accs ! i)}" by (simp add: Acceptor_Accept_def)
      moreover have "cv \<in> insert None V" using ph Accepting by simp
      ultimately have "ac_acceptedV ?a \<in> insert None V"
        using at [OF True] by (cases "ac_acceptedV ?a = cv") (simp_all only: insert_iff empty_iff simp_thms)
      then have "ac_acceptedV ` set accs' \<subseteq> insert None V" unfolding \<open>accs' = accs[i := ?a]\<close> by (rule upd)
      then show ?thesis using \<open>phase_values ph' = {cv}\<close> ph Accepting by simp
    next
      case False
      then have "accs' = accs" "phase_values ph' \<subseteq> {cv}" using step Accepting by (auto split: if_splits)
      then show ?thesis using acc ph Accepting by auto
    qed
  next
    case (Done r)
    then show ?thesis using assms by auto
  qed
qed

lemma proposed_only_step: "paxos_step s s' \<Longrightarrow> proposed_only s \<Longrightarrow> proposed_only s'"
proof (induction rule: paxos_step.induct)
  case (start n s v)
  then show ?case by (auto simp: proposed_only_def start_attempt_def)
next
  case (work j s)
  let ?at = "sy_ats s ! j" and ?V = "at_v ` set (sy_ats s)"
  obtain accs' ph' where step: "phase_step (at_n ?at) (sy_accs s) (at_phase ?at) = (accs', ph')" by fastforce
  let ?at' = "?at\<lparr>at_phase := ph'\<rparr>"
  have old: "ac_acceptedV ` set (sy_accs s) \<subseteq> insert None ?V" "\<And>at. at \<in> set (sy_ats s) \<Longrightarrow> phase_values (at_phase at) \<subseteq> ?V"
    using work(2) unfolding proposed_only_def by simp_all
  note new = phase_step_values [OF step old(1) old(2) [OF nth_mem [OF work(1)]]]
  have "map at_v ((sy_ats s)[j := ?at']) = map at_v (sy_ats s)"
    using work(1) by (simp add: map_update list_update_same_conv)
  then have V: "at_v ` set ((sy_ats s)[j := ?at']) = ?V" by (metis list.set_map)
  have "phase_values (at_phase at) \<subseteq> ?V" if "at \<in> set ((sy_ats s)[j := ?at'])" for at
  proof -
    have "at = ?at' \<or> at \<in> set (sy_ats s)" using subsetD [OF set_update_subset_insert that] by simp
    then show ?thesis
    proof
      assume "at = ?at'"
      then have "at_phase at = ph'" by simp
      then show ?thesis using new by simp
    qed (rule old(2))
  qed
  then show ?case unfolding proposed_only_def work_fields [OF step] V using new by simp
qed

lemma proposed_only_reachable: "paxos_step\<^sup>*\<^sup>* (init_sys k) s \<Longrightarrow> proposed_only s"
proof (induction rule: rtranclp_induct)
  case base
  then show ?case by (auto simp: proposed_only_def init_sys_def new_acceptor_def)
qed (rule proposed_only_step)

text \<open>
  C1. Paxos is safe under every interleaving: among any number of \<open>Propose\<close> runs with pairwise distinct
  numbers, cut at the single \<open>Prepare\<close> and \<open>Accept\<close> calls, interleaved or abandoned at will, any two
  that return successfully return the same value, and it is one that was proposed.
\<close>

theorem paxos_agreement:
  assumes "paxos_step\<^sup>*\<^sup>* (init_sys k) s"
    and "at \<in> set (sy_ats s)" and "at_phase at = Done (Some v)"
    and "at' \<in> set (sy_ats s)" and "at_phase at' = Done (Some w)"
  shows "v = w \<and> (\<exists>at0 \<in> set (sy_ats s). at_v at0 = v)"
proof -
  have inv: "paxos_inv s" using assms(1) by (rule inv_reachable)
  have "v = w" using chosen_unique [OF inv] done_chosen [OF inv] assms(2-5) by blast
  moreover have "phase_values (at_phase at) \<subseteq> at_v ` set (sy_ats s)"
    using proposed_only_reachable [OF assms(1)] assms(2) unfolding proposed_only_def by blast
  ultimately show ?thesis using assms(3) by auto
qed

text \<open>Two competing runs on three acceptors: the second overtakes the first and adopts its value.\<close>

definition demo_sys :: "nat list \<Rightarrow> nat Sys" where
  "demo_sys js = fold work_attempt js (start_attempt 65538 (Some 7) (start_attempt 65537 (Some 5) (init_sys 3)))"

lemma demo_reachable: "\<forall>j \<in> set js. j < 2 \<Longrightarrow> paxos_step\<^sup>*\<^sup>* (init_sys 3) (demo_sys js) \<and> length (sy_ats (demo_sys js)) = 2"
proof (induction js rule: rev_induct)
  case Nil
  have "paxos_step (init_sys 3) (start_attempt 65537 (Some 5) (init_sys 3 :: nat Sys))"
    by (rule paxos_step.start) (simp_all add: init_sys_def)
  moreover have "paxos_step (start_attempt 65537 (Some 5) (init_sys 3))
      (start_attempt 65538 (Some 7) (start_attempt 65537 (Some 5) (init_sys 3 :: nat Sys)))"
    by (rule paxos_step.start) (simp_all add: init_sys_def start_attempt_def)
  ultimately show ?case by (simp add: demo_sys_def init_sys_def start_attempt_def)
next
  case (snoc j js)
  then have r: "paxos_step\<^sup>*\<^sup>* (init_sys 3) (demo_sys js)" "length (sy_ats (demo_sys js)) = 2" "j < 2" by simp_all
  then have "paxos_step (demo_sys js) (work_attempt j (demo_sys js))" by (intro paxos_step.work) simp
  moreover have "demo_sys (js @ [j]) = work_attempt j (demo_sys js)" by (simp add: demo_sys_def)
  ultimately show ?case using r by (simp add: work_attempt_def Let_def split: prod.splits)
qed

lemma demo_end:
  "map at_phase (sy_ats (demo_sys ([0, 0, 0, 0, 0, 0] @ [1, 1, 1, 1] @ [0, 0] @ [1, 1, 1, 1]))) =
     [Done (Some (Some 5)), Done (Some (Some 5))]"
  by code_simp

definition demo_run :: "nat list" where
  "demo_run = [0, 0, 0, 0, 0, 0] @ [1, 1, 1, 1] @ [0, 0] @ [1, 1, 1, 1]"

theorem paxos_agreement_witness:
  "paxos_step\<^sup>*\<^sup>* (init_sys 3) (demo_sys demo_run) \<and>
   at_phase (sy_ats (demo_sys demo_run) ! 0) = Done (Some (Some 5)) \<and>
   at_phase (sy_ats (demo_sys demo_run) ! 1) = Done (Some (Some 5)) \<and>
   (\<exists>at0 \<in> set (sy_ats (demo_sys demo_run)). at_v at0 = Some 5)"
proof -
  have r: "paxos_step\<^sup>*\<^sup>* (init_sys 3) (demo_sys demo_run)" "length (sy_ats (demo_sys demo_run)) = 2"
    using demo_reachable [of demo_run] by (simp_all add: demo_run_def)
  have p: "at_phase (sy_ats (demo_sys demo_run) ! j) = Done (Some (Some 5))" if "j < 2" for j
    using arg_cong [OF demo_end, of "\<lambda>xs. xs ! j", folded demo_run_def] r(2) that by (auto simp: less_2_cases_iff)
  show ?thesis
    using paxos_agreement [OF r(1) nth_mem p nth_mem p, of 0 1] p [of 0] p [of 1] r by auto
qed

end
