(* ===== verification/PaxosLog.thy ===== *)
theory PaxosLog
  imports Paxos
begin

unbundle bit_operations_syntax

text \<open>
  The Multi-Paxos log of \<open>internal/paxos/paxos.go\<close>: one set of acceptors per slot. First, a call of
  \<open>Propose\<close> is an attempt of theory \<open>Paxos\<close> run to its end, and its numbers are the round above the
  identity. Then the log: the acceptors of a slot move in lockstep, so a decided slot keeps its value.
\<close>

record 'v MultiPaxos =
  mx_numAcceptors :: nat
  mx_slots :: "'v Acceptor list list"
  mx_log :: "'v option list"

definition NewMultiPaxos :: "int \<Rightarrow> 'v MultiPaxos" where
  "NewMultiPaxos numAcceptors =
     \<lparr>mx_numAcceptors = nat (if numAcceptors \<le> 0 then 1 else numAcceptors), mx_slots = [], mx_log = []\<rparr>"

text \<open>\<open>growTo\<close>: the loop adds one slot per round until the slot exists.\<close>

function growTo :: "nat \<Rightarrow> 'v MultiPaxos \<Rightarrow> 'v MultiPaxos" where
  "growTo slot m =
     (if length (mx_slots m) \<le> slot
      then growTo slot (m\<lparr>mx_slots := mx_slots m @ [replicate (mx_numAcceptors m) new_acceptor],
                          mx_log := mx_log m @ [None]\<rparr>)
      else m)"
  by pat_completeness auto
termination
  by (relation "measure (\<lambda>(slot, m). Suc slot - length (mx_slots m))") auto

declare growTo.simps [simp del]

definition MultiPaxos_Acceptors :: "nat \<Rightarrow> 'v MultiPaxos \<Rightarrow> 'v MultiPaxos \<times> 'v Acceptor list" where
  "MultiPaxos_Acceptors slot m = (let m' = growTo slot m in (m', mx_slots m' ! slot))"

definition MultiPaxos_Decide :: "nat \<Rightarrow> u64 \<Rightarrow> 'v option \<Rightarrow> 'v MultiPaxos \<Rightarrow> 'v MultiPaxos \<times> 'v option option" where
  "MultiPaxos_Decide slot proposerID v m =
     (let m1 = growTo slot m;
          (p, accs, res) = Propose (NewProposer proposerID) (mx_slots m1 ! slot) v;
          m2 = m1\<lparr>mx_slots := (mx_slots m1)[slot := accs]\<rparr>
      in case res of Some chosen \<Rightarrow> (m2\<lparr>mx_log := (mx_log m2)[slot := chosen]\<rparr>, res) | None \<Rightarrow> (m2, res))"

definition MultiPaxos_Log :: "'v MultiPaxos \<Rightarrow> 'v option list" where
  "MultiPaxos_Log m = mx_log m"

section \<open>A call of Propose is an attempt run to its end\<close>

definition run_steps :: "u64 \<Rightarrow> nat \<Rightarrow> 'v Acceptor list \<times> 'v Phase \<Rightarrow> 'v Acceptor list \<times> 'v Phase" where
  "run_steps n k = ((\<lambda>(accs, ph). phase_step n accs ph) ^^ k)"

lemma run_steps_simps [simp]:
  "run_steps n 0 c = c" "run_steps n (Suc k) (accs, ph) = run_steps n k (phase_step n accs ph)"
  by (simp_all add: run_steps_def funpow_swap1)

lemma run_steps_add: "run_steps n (j + k) c = run_steps n k (run_steps n j c)"
  by (simp add: run_steps_def funpow_add add.commute [of j k])

lemma run_prepare:
  "prepare_phase n suf pr cv hi = (suf', pr', cv') \<Longrightarrow>
   \<exists>hi'. run_steps n (length suf) (pre @ suf, Preparing (length pre) pr cv hi) =
           (pre @ suf', Preparing (length pre + length suf) pr' cv' hi') \<and> length suf' = length suf"
proof (induction suf arbitrary: pre pr cv hi suf')
  case (Cons a suf)
  obtain a' ok accN accV where a: "Acceptor_Prepare a n = (a', ok, accN, accV)" by (metis prod_cases4)
  define c where "c = (if \<not> ok then (pr, cv, hi) else if accV \<noteq> None \<and> accN > hi then (pr + 1, accV, accN) else (pr + 1, cv, hi))"
  obtain pr1 cv1 hi1 where c1: "c = (pr1, cv1, hi1)" by (metis prod_cases3)
  obtain s1 where s1: "prepare_phase n suf pr1 cv1 hi1 = (s1, pr', cv')" "suf' = a' # s1"
    using Cons.prems c1 unfolding c_def by (auto simp: a split: if_splits prod.splits)
  have "phase_step n (pre @ a # suf) (Preparing (length pre) pr cv hi) =
      ((pre @ [a']) @ suf, Preparing (length (pre @ [a'])) pr1 cv1 hi1)"
    using c1 unfolding c_def by (auto simp: a split: if_splits)
  then show ?case using Cons.IH [OF s1(1), of "pre @ [a']"] s1(2) by simp
qed simp

lemma run_accept:
  "accept_phase n cv suf ac = (suf', ac') \<Longrightarrow>
   run_steps n (length suf) (pre @ suf, Accepting (length pre) ac cv) =
     (pre @ suf', Accepting (length pre + length suf) ac' cv) \<and> length suf' = length suf"
proof (induction suf arbitrary: pre ac suf')
  case (Cons a suf)
  obtain a' ok where a: "Acceptor_Accept a n cv = (a', ok)" by fastforce
  obtain s1 where s1: "accept_phase n cv suf (if ok then ac + 1 else ac) = (s1, ac')" "suf' = a' # s1"
    using Cons.prems by (auto simp: a split: prod.splits)
  have "phase_step n (pre @ a # suf) (Accepting (length pre) ac cv) =
      ((pre @ [a']) @ suf, Accepting (length (pre @ [a'])) (if ok then ac + 1 else ac) cv)"
    by (simp add: a)
  then show ?case using Cons.IH [OF s1(1), of "pre @ [a']"] s1(2) by simp
qed simp

lemma propose_runs:
  assumes "accs \<noteq> []" and "nextProposalNumber p = (p', n)"
  shows "\<exists>k accs' r. Propose p accs v = (p', accs', r) \<and> run_steps n k (accs, Preparing 0 0 v 0) = (accs', Done r)"
proof -
  obtain as1 pr cv where 1: "prepare_phase n accs 0 v 0 = (as1, pr, cv)" by (metis prod_cases3)
  obtain as2 ac where 2: "accept_phase n cv as1 0 = (as2, ac)" by fastforce
  obtain hi where r1: "run_steps n (length accs) (accs, Preparing 0 0 v 0) = (as1, Preparing (length accs) pr cv hi)"
    and l1: "length as1 = length accs"
    using run_prepare [OF 1, of "[]"] by auto
  have r2: "run_steps n (length as1) (as1, Accepting 0 0 cv) = (as2, Accepting (length as1) ac cv)" "length as2 = length as1"
    using run_accept [OF 2, of "[]"] by auto
  show ?thesis
  proof (cases "pr < majority (length accs)")
    case True
    then have "run_steps n (length accs + 1) (accs, Preparing 0 0 v 0) = (as1, Done None)"
      unfolding run_steps_add r1 using l1 by simp
    moreover have "Propose p accs v = (p', as1, None)" using assms 1 True by (simp add: Propose_def)
    ultimately show ?thesis by blast
  next
    case False
    define r where "r = (if ac < majority (length accs) then None else Some cv)"
    have "run_steps n (length accs + (1 + (length as1 + 1))) (accs, Preparing 0 0 v 0) = (as2, Done r)"
      unfolding run_steps_add r1 using False r2 l1 by (simp add: r_def)
    moreover have "Propose p accs v = (p', as2, r)" using assms 1 2 False by (simp add: Propose_def r_def)
    ultimately show ?thesis by blast
  qed
qed



text \<open>The numbers of a proposer, below \<open>2^48\<close> rounds: round in the high bits, identity in the low ones.\<close>

lemma proposal_number_or:
  fixes r :: u64
  shows "push_bit 16 r OR (i AND 0xFFFF) = push_bit 16 r + take_bit 16 i"
proof -
  have "(0xFFFF :: u64) = mask 16" by (simp add: mask_eq_exp_minus_1)
  moreover have "push_bit 16 r OR take_bit 16 i = push_bit 16 r + take_bit 16 i"
    by (rule disjunctive_add_eq_or [symmetric]) (rule bit_eqI, simp add: bit_and_iff bit_push_bit_iff bit_take_bit_iff)
  ultimately show ?thesis by (simp add: take_bit_eq_mask)
qed

lemma proposal_number_value:
  assumes "nextProposalNumber p = (p', n)" and "unat (pr_round p) + 1 < 2 ^ 48"
  shows "unat n = (unat (pr_round p) + 1) * 65536 + unat (pr_id p) mod 65536"
proof -
  have r: "unat (pr_round p + 1) = unat (pr_round p) + 1"
    using assms(2) by (simp add: unat_word_ariths)
  have "unat (push_bit 16 (pr_round p + 1)) = (unat (pr_round p) + 1) * 65536"
    using assms(2) r by (simp add: push_bit_eq_mult unat_word_ariths)
  moreover have "unat (take_bit 16 (pr_id p)) = unat (pr_id p) mod 65536"
    by (simp add: take_bit_eq_mod unat_mod)
  moreover have "n = push_bit 16 (pr_round p + 1) + take_bit 16 (pr_id p)"
    using assms(1) proposal_number_or by (auto simp: nextProposalNumber_def Let_def)
  moreover have "(unat (pr_round p) + 1) * 65536 + unat (pr_id p) mod 65536 < 2 ^ 64" using assms(2) by simp
  ultimately show ?thesis by (simp add: unat_word_ariths)
qed

section \<open>The log\<close>

lemma prepare_lockstep:
  "prepare_phase n (replicate k a) pr cv hi =
     (if ac_promisedN a < n
      then (replicate k (a\<lparr>ac_promisedN := n\<rparr>), pr + k,
            if 0 < k \<and> ac_acceptedV a \<noteq> None \<and> hi < ac_acceptedN a then ac_acceptedV a else cv)
      else (replicate k a, pr, cv))"
  by (induction k arbitrary: pr cv hi) (auto simp: Acceptor_Prepare_def)

lemma accept_lockstep:
  "ac_promisedN a \<le> n \<Longrightarrow>
   accept_phase n v (replicate k a) c = (replicate k \<lparr>ac_promisedN = n, ac_acceptedN = n, ac_acceptedV = v\<rparr>, c + k)"
  by (induction k arbitrary: c) (auto simp: Acceptor_Accept_def)

lemma majority_le: "0 < k \<Longrightarrow> majority k \<le> k"
  by (simp add: majority_def)

lemma propose_lockstep:
  assumes "0 < k" and "nextProposalNumber p = (p', n)"
  shows "Propose p (replicate k a) v =
     (if ac_promisedN a < n
      then (let cv = if ac_acceptedV a \<noteq> None \<and> 0 < ac_acceptedN a then ac_acceptedV a else v
            in (p', replicate k \<lparr>ac_promisedN = n, ac_acceptedN = n, ac_acceptedV = cv\<rparr>, Some cv))
      else (p', replicate k a, None))"
  using assms majority_le [OF assms(1)]
  by (auto simp: Propose_def prepare_lockstep accept_lockstep Let_def majority_def)

lemma growTo_grows:
  "growTo slot m = m\<lparr>mx_slots := mx_slots m @ replicate (Suc slot - length (mx_slots m)) (replicate (mx_numAcceptors m) new_acceptor),
                     mx_log := mx_log m @ replicate (Suc slot - length (mx_slots m)) None\<rparr>"
proof (induction slot m rule: growTo.induct)
  case (1 slot m)
  show ?case
  proof (cases "length (mx_slots m) \<le> slot")
    case True
    then have "Suc slot - length (mx_slots m) = Suc (slot - length (mx_slots m))" by simp
    then show ?thesis using 1 True by (subst growTo.simps) simp
  qed (subst growTo.simps, simp)
qed

text \<open>The acceptors of a slot agree, and the log shows the value they accepted.\<close>

definition slot_ok :: "nat \<Rightarrow> 'v Acceptor list \<Rightarrow> 'v option \<Rightarrow> bool" where
  "slot_ok k accs e \<longleftrightarrow> (\<exists>a. accs = replicate k a \<and> e = ac_acceptedV a \<and> ac_acceptedN a \<le> ac_promisedN a \<and>
     (ac_acceptedV a \<noteq> None \<longrightarrow> 0 < ac_acceptedN a))"

definition mp_inv :: "'v MultiPaxos \<Rightarrow> bool" where
  "mp_inv m \<longleftrightarrow> 0 < mx_numAcceptors m \<and> list_all2 (slot_ok (mx_numAcceptors m)) (mx_slots m) (mx_log m)"

lemma mp_inv_New: "mp_inv (NewMultiPaxos k)"
  by (simp add: mp_inv_def NewMultiPaxos_def)

lemma mp_inv_grow:
  fixes m :: "'v MultiPaxos"
  assumes "mp_inv m"
  shows "mp_inv (growTo slot m)"
proof -
  have "slot_ok (mx_numAcceptors m) (replicate (mx_numAcceptors m) new_acceptor) (None :: 'v option)"
    by (simp add: slot_ok_def new_acceptor_def exI [of _ new_acceptor])
  then have "list_all2 (slot_ok (mx_numAcceptors m)) (replicate j (replicate (mx_numAcceptors m) new_acceptor)) (replicate j (None :: 'v option))" for j
    by (simp add: list_all2_conv_all_nth)
  then show ?thesis using assms unfolding mp_inv_def growTo_grows by (simp add: list_all2_appendI)
qed

lemma grow_length [simp]: "slot < length (mx_slots (growTo slot m))" "mx_numAcceptors (growTo slot m) = mx_numAcceptors m"
  by (simp_all add: growTo_grows)

text \<open>One \<open>Decide\<close>: its number is \<open>2^16\<close> plus the low bits of the proposer's identity.\<close>

definition decide_number :: "u64 \<Rightarrow> u64" where
  "decide_number i = snd (nextProposalNumber (NewProposer i))"

lemma decide_number_value: "unat (decide_number i) = 65536 + unat i mod 65536"
  unfolding decide_number_def
  by (subst proposal_number_value [OF prod.collapse [symmetric]]) (simp_all add: NewProposer_def)

definition decide_from :: "'v Acceptor \<Rightarrow> nat \<Rightarrow> u64 \<Rightarrow> 'v option \<Rightarrow> 'v MultiPaxos \<Rightarrow> 'v MultiPaxos \<times> 'v option option" where
  "decide_from a slot n v m =
     (let cv = if ac_acceptedV a \<noteq> None then ac_acceptedV a else v in
      if ac_promisedN a < n
      then (m\<lparr>mx_slots := (mx_slots m)[slot := replicate (mx_numAcceptors m) \<lparr>ac_promisedN = n, ac_acceptedN = n, ac_acceptedV = cv\<rparr>],
              mx_log := (mx_log m)[slot := cv]\<rparr>, Some cv)
      else (m, None))"

lemma decide_cases:
  assumes "mp_inv m"
  obtains a where "mx_slots (growTo slot m) ! slot = replicate (mx_numAcceptors m) a"
    "mx_log (growTo slot m) ! slot = ac_acceptedV a" "ac_acceptedV a \<noteq> None \<longrightarrow> 0 < ac_acceptedN a"
    "ac_acceptedN a \<le> ac_promisedN a"
    "MultiPaxos_Decide slot i v m = decide_from a slot (decide_number i) v (growTo slot m)"
proof -
  have k: "0 < mx_numAcceptors m" and l: "list_all2 (slot_ok (mx_numAcceptors m)) (mx_slots (growTo slot m)) (mx_log (growTo slot m))"
    using mp_inv_grow [OF assms, of slot] by (simp_all add: mp_inv_def)
  have "slot_ok (mx_numAcceptors m) (mx_slots (growTo slot m) ! slot) (mx_log (growTo slot m) ! slot)"
    by (rule list_all2_nthD [OF l grow_length(1)])
  then obtain a where a: "mx_slots (growTo slot m) ! slot = replicate (mx_numAcceptors m) a"
    "mx_log (growTo slot m) ! slot = ac_acceptedV a" "ac_acceptedN a \<le> ac_promisedN a"
    "ac_acceptedV a \<noteq> None \<longrightarrow> 0 < ac_acceptedN a" unfolding slot_ok_def by blast
  have "(mx_slots (growTo slot m))[slot := replicate (mx_numAcceptors m) a] = mx_slots (growTo slot m)"
    using a(1) by (metis list_update_id)
  then have "growTo slot m\<lparr>mx_slots := (mx_slots (growTo slot m))[slot := replicate (mx_numAcceptors m) a]\<rparr> = growTo slot m"
    by simp
  then show thesis
    using a k propose_lockstep [OF k prod.collapse [symmetric], of "NewProposer i" a v]
    by (intro that [of a]) (auto simp: MultiPaxos_Decide_def decide_from_def Let_def decide_number_def)
qed

lemma mp_inv_Decide: "mp_inv m \<Longrightarrow> mp_inv (fst (MultiPaxos_Decide slot i v m))"
proof -
  assume inv: "mp_inv m"
  from inv have g: "mp_inv (growTo slot m)" by (rule mp_inv_grow)
  obtain a where a: "mx_slots (growTo slot m) ! slot = replicate (mx_numAcceptors m) a"
    "mx_log (growTo slot m) ! slot = ac_acceptedV a" "ac_acceptedV a \<noteq> None \<longrightarrow> 0 < ac_acceptedN a"
    "ac_acceptedN a \<le> ac_promisedN a"
    "MultiPaxos_Decide slot i v m = decide_from a slot (decide_number i) v (growTo slot m)"
    by (rule decide_cases [OF inv])
  have "0 < decide_number i" using decide_number_value [of i] by (simp add: word_less_nat_alt)
  then have "slot_ok k (replicate k \<lparr>ac_promisedN = decide_number i, ac_acceptedN = decide_number i, ac_acceptedV = cv\<rparr>) cv" for k cv
    by (simp add: slot_ok_def) (metis Acceptor.select_convs order_refl)
  then show ?thesis using g by (auto simp: a(5) decide_from_def Let_def mp_inv_def intro!: list_all2_update_cong)
qed

lemma Decide_length: "length (mx_log m) \<le> length (mx_log (fst (MultiPaxos_Decide slot i v m)))"
  by (auto simp: MultiPaxos_Decide_def growTo_grows Let_def split: option.splits prod.splits)

lemma Decide_keeps:
  assumes inv: "mp_inv m" and s: "slot < length (mx_log m)" and w: "mx_log m ! slot = Some w"
  shows "mx_log (fst (MultiPaxos_Decide slot' i v m)) ! slot = Some w"
    and "snd (MultiPaxos_Decide slot i v m) \<in> {None, Some (Some w)}"
proof -
  have old: "mx_log (growTo t m) ! slot = Some w" for t using s w by (simp add: growTo_grows nth_append)
  obtain a where a: "mx_slots (growTo slot m) ! slot = replicate (mx_numAcceptors m) a"
    "mx_log (growTo slot m) ! slot = ac_acceptedV a" "ac_acceptedV a \<noteq> None \<longrightarrow> 0 < ac_acceptedN a"
    "ac_acceptedN a \<le> ac_promisedN a"
    "MultiPaxos_Decide slot i v m = decide_from a slot (decide_number i) v (growTo slot m)"
    by (rule decide_cases [OF inv])
  show "snd (MultiPaxos_Decide slot i v m) \<in> {None, Some (Some w)}"
    using a(2,5) old [of slot] by (auto simp: decide_from_def Let_def)
  show "mx_log (fst (MultiPaxos_Decide slot' i v m)) ! slot = Some w"
  proof (cases "slot' = slot")
    case True
    moreover have "(mx_log (growTo slot m))[slot := Some w] = mx_log (growTo slot m)"
      using old [of slot] list_update_id [of "mx_log (growTo slot m)" slot] by simp
    ultimately show ?thesis using a(2,5) old [of slot] by (auto simp: decide_from_def Let_def)
  next
    case False
    have "mx_log (fst (MultiPaxos_Decide slot' i v m)) ! slot = mx_log (growTo slot' m) ! slot"
      using False by (simp add: MultiPaxos_Decide_def Let_def split: option.splits prod.splits)
    then show ?thesis using old by simp
  qed
qed

fun mp_calls :: "(nat \<times> u64 \<times> 'v option) list \<Rightarrow> 'v MultiPaxos \<Rightarrow> 'v MultiPaxos" where
  "mp_calls [] m = m"
| "mp_calls ((slot, i, v) # cs) m = mp_calls cs (fst (MultiPaxos_Decide slot i v m))"

lemma mp_calls_inv: "mp_inv m \<Longrightarrow> mp_inv (mp_calls cs m)"
  by (induction cs m rule: mp_calls.induct) (auto simp: mp_inv_Decide)

lemma mp_calls_keep:
  "mp_inv m \<Longrightarrow> slot < length (mx_log m) \<Longrightarrow> mx_log m ! slot = Some w \<Longrightarrow>
   mx_log (mp_calls cs m) ! slot = Some w \<and> slot < length (mx_log (mp_calls cs m))"
  by (induction cs m rule: mp_calls.induct) (auto simp: mp_inv_Decide Decide_keeps(1) intro: less_le_trans [OF _ Decide_length])

text \<open>
  C23. A decided slot keeps its value: after any \<open>Decide\<close> calls on a new log, if a slot shows a value, then
  it shows this value after any further calls on any slots by any proposers, and a further \<open>Decide\<close> of
  the slot either fails or returns this value.
\<close>

theorem multipaxos_decided_stable:
  assumes "slot < length (MultiPaxos_Log (mp_calls cs (NewMultiPaxos k)))"
    and "MultiPaxos_Log (mp_calls cs (NewMultiPaxos k)) ! slot = Some w"
  shows "MultiPaxos_Log (mp_calls cs' (mp_calls cs (NewMultiPaxos k))) ! slot = Some w \<and>
    snd (MultiPaxos_Decide slot i v (mp_calls cs' (mp_calls cs (NewMultiPaxos k)))) \<in> {None, Some (Some w)}"
proof -
  let ?m = "mp_calls cs (NewMultiPaxos k)"
  have inv: "mp_inv ?m" using mp_inv_New by (rule mp_calls_inv)
  have "mx_log (mp_calls cs' ?m) ! slot = Some w \<and> slot < length (mx_log (mp_calls cs' ?m))"
    using assms by (intro mp_calls_keep [OF inv]) (simp_all add: MultiPaxos_Log_def)
  then show ?thesis using Decide_keeps(2) [OF mp_calls_inv [OF inv]] by (simp add: MultiPaxos_Log_def)
qed

theorem multipaxos_decided_stable_witness:
  "let m = mp_calls [(0, 1, Some 5), (2, 1, Some (6 :: nat))] (NewMultiPaxos 3) in
   MultiPaxos_Log m = [Some 5, None, Some 6] \<and>
   MultiPaxos_Log (mp_calls [(0, 7, Some 9), (1, 1, Some 4)] m) ! 0 = Some 5 \<and>
   snd (MultiPaxos_Decide 0 8 (Some 1) (mp_calls [(0, 7, Some 9), (1, 1, Some 4)] m)) \<in> {None, Some (Some 5)}"
proof -
  have log: "MultiPaxos_Log (mp_calls [(0, 1, Some 5), (2, 1, Some (6 :: nat))] (NewMultiPaxos 3)) = [Some 5, None, Some 6]"
    by code_simp
  then show ?thesis
    using multipaxos_decided_stable [of 0 "[(0, 1, Some 5), (2, 1, Some (6 :: nat))]" 3 5 "[(0, 7, Some 9), (1, 1, Some 4)]" 8 "Some 1"]
    by (simp add: Let_def del: mp_calls.simps)
qed

text \<open>\<open>Decide\<close> starts a new proposer in round one each time. Once a slot was decided by proposer \<open>i\<close>, a
  \<open>Decide\<close> of the slot by a proposer whose low 16 identity bits are not above those of \<open>i\<close>, \<open>i\<close> itself
  included, returns \<open>(nil, false)\<close> and changes nothing, though the slot is decided.
\<close>

theorem multipaxos_redecide_refused:
  assumes "mp_inv m" and "MultiPaxos_Decide slot i v m = (m', Some (Some w))"
    and "unat j mod 65536 \<le> unat i mod 65536"
  shows "MultiPaxos_Decide slot j u m' = (m', None) \<and> MultiPaxos_Log m' ! slot = Some w"
proof -
  have inv': "mp_inv m'" using mp_inv_Decide [OF assms(1), of slot i v] assms(2) by simp
  obtain a where a: "mx_slots (growTo slot m) ! slot = replicate (mx_numAcceptors m) a"
    "mx_log (growTo slot m) ! slot = ac_acceptedV a" "ac_acceptedV a \<noteq> None \<longrightarrow> 0 < ac_acceptedN a"
    "ac_acceptedN a \<le> ac_promisedN a"
    "MultiPaxos_Decide slot i v m = decide_from a slot (decide_number i) v (growTo slot m)"
    by (rule decide_cases [OF assms(1)])
  have len: "length (mx_log (growTo slot m)) = length (mx_slots (growTo slot m))"
    using mp_inv_grow [OF assms(1), of slot] by (auto simp: mp_inv_def dest: list_all2_lengthD)
  have m': "mx_slots m' ! slot = replicate (mx_numAcceptors m) \<lparr>ac_promisedN = decide_number i, ac_acceptedN = decide_number i, ac_acceptedV = Some w\<rparr>"
    "mx_log m' ! slot = Some w" "slot < length (mx_slots m')" "mx_numAcceptors m' = mx_numAcceptors m"
    using assms(2) len unfolding a(5) by (auto simp: decide_from_def Let_def split: if_splits)
  have same: "growTo slot m' = m'" using m'(3) by (subst growTo.simps) simp
  obtain b where b: "mx_slots m' ! slot = replicate (mx_numAcceptors m') b" "mx_log m' ! slot = ac_acceptedV b"
    "ac_acceptedV b \<noteq> None \<longrightarrow> 0 < ac_acceptedN b" "ac_acceptedN b \<le> ac_promisedN b"
    "MultiPaxos_Decide slot j u m' = decide_from b slot (decide_number j) u m'"
    by (rule decide_cases [OF inv', of slot j u, unfolded same])
  have "0 < mx_numAcceptors m" using assms(1) by (simp add: mp_inv_def)
  then have "ac_promisedN b = decide_number i"
    using b(1) m'(1,4) by (metis Acceptor.select_convs(1) nth_replicate)
  moreover have "\<not> decide_number i < decide_number j"
    using assms(3) by (simp add: word_less_nat_alt decide_number_value)
  ultimately show ?thesis using b(5) m'(2) by (simp add: decide_from_def Let_def MultiPaxos_Log_def)
qed

theorem multipaxos_redecide_refused_witness:
  "let (m', r) = MultiPaxos_Decide 0 4 (Some (5 :: nat)) (NewMultiPaxos 3) in
   r = Some (Some 5) \<and> MultiPaxos_Decide 0 4 (Some 5) m' = (m', None) \<and> MultiPaxos_Log m' ! 0 = Some 5"
proof -
  obtain m' r where d: "MultiPaxos_Decide 0 4 (Some (5 :: nat)) (NewMultiPaxos 3) = (m', r)" by fastforce
  have "snd (MultiPaxos_Decide 0 4 (Some (5 :: nat)) (NewMultiPaxos 3)) = Some (Some 5)" by code_simp
  then have r: "r = Some (Some 5)" using d by simp
  show ?thesis using multipaxos_redecide_refused [OF mp_inv_New d [unfolded r] order_refl] d r by simp
qed

end
