(* ===== verification/Metrics.thy ===== *)
theory Metrics
  imports Complex_Main Go_Prelude
begin

text \<open>
  The counters of \<open>internal/metrics/collector.go\<close>. Latencies are \<open>float64\<close> in the code and reals
  here; \<open>time.Now()\<close> is the argument \<open>now\<close>. A cluster's map of node metrics holds pointers to
  the objects the nodes update: \<open>'p\<close> is the type of such a pointer, and \<open>Snapshot\<close> gets the
  function that reads them.
\<close>

definition percentile :: "real list \<Rightarrow> real \<Rightarrow> real" where
  "percentile samples p =
     (if samples = [] then 0
      else (let s = sort samples;
                rank = \<lceil>p / 100 * real (length s)\<rceil> - 1;
                rank0 = (if rank < 0 then 0 else rank);
                rank1 = (if rank0 \<ge> int (length s) then int (length s) - 1 else rank0)
            in s ! nat rank1))"

record LagSample =
  ls_FollowerID :: node_id
  ls_LagEntries :: int
  ls_LagMs :: int
  ls_Timestamp :: int

record NodeMetrics =
  nm_NodeID :: node_id
  nm_WritesTotal :: int
  nm_ReadsTotal :: int
  nm_ConflictsTotal :: int
  nm_ReplicaLag :: int
  nm_WriteLatencyMs :: "real list"
  nm_ReadLatencyMs :: "real list"
  nm_LastUpdated :: int
  nm_IsLeader :: bool
  nm_IsOnline :: bool
  nm_WriteP50 :: real
  nm_WriteP95 :: real
  nm_WriteP99 :: real
  nm_ReadP50 :: real
  nm_ReadP95 :: real
  nm_ReadP99 :: real

definition NewNodeMetrics :: "node_id \<Rightarrow> NodeMetrics" where
  "NewNodeMetrics i =
     \<lparr>nm_NodeID = i, nm_WritesTotal = 0, nm_ReadsTotal = 0, nm_ConflictsTotal = 0, nm_ReplicaLag = 0,
      nm_WriteLatencyMs = [], nm_ReadLatencyMs = [], nm_LastUpdated = 0, nm_IsLeader = False, nm_IsOnline = True,
      nm_WriteP50 = 0, nm_WriteP95 = 0, nm_WriteP99 = 0, nm_ReadP50 = 0, nm_ReadP95 = 0, nm_ReadP99 = 0\<rparr>"

text \<open>Appending to a window that keeps the newest \<open>cap\<close> samples.\<close>

definition window_add :: "nat \<Rightarrow> 'a \<Rightarrow> 'a list \<Rightarrow> 'a list" where
  "window_add cap x xs = (let ys = xs @ [x] in if length ys > cap then tl ys else ys)"

definition NodeMetrics_RecordWrite :: "int \<Rightarrow> real \<Rightarrow> NodeMetrics \<Rightarrow> NodeMetrics" where
  "NodeMetrics_RecordWrite now latencyMs m =
     m\<lparr>nm_WritesTotal := i64 (nm_WritesTotal m + 1), nm_WriteLatencyMs := window_add 1000 latencyMs (nm_WriteLatencyMs m),
       nm_LastUpdated := now\<rparr>"

definition NodeMetrics_RecordRead :: "int \<Rightarrow> real \<Rightarrow> NodeMetrics \<Rightarrow> NodeMetrics" where
  "NodeMetrics_RecordRead now latencyMs m =
     m\<lparr>nm_ReadsTotal := i64 (nm_ReadsTotal m + 1), nm_ReadLatencyMs := window_add 1000 latencyMs (nm_ReadLatencyMs m),
       nm_LastUpdated := now\<rparr>"

definition NodeMetrics_RecordConflict :: "int \<Rightarrow> NodeMetrics \<Rightarrow> NodeMetrics" where
  "NodeMetrics_RecordConflict now m = m\<lparr>nm_ConflictsTotal := i64 (nm_ConflictsTotal m + 1), nm_LastUpdated := now\<rparr>"

definition NodeMetrics_SetLag :: "int \<Rightarrow> int \<Rightarrow> NodeMetrics \<Rightarrow> NodeMetrics" where
  "NodeMetrics_SetLag now lag m = m\<lparr>nm_ReplicaLag := lag, nm_LastUpdated := now\<rparr>"

definition NodeMetrics_Lag :: "NodeMetrics \<Rightarrow> int" where
  "NodeMetrics_Lag m = nm_ReplicaLag m"

definition NodeMetrics_SetLeader :: "bool \<Rightarrow> NodeMetrics \<Rightarrow> NodeMetrics" where
  "NodeMetrics_SetLeader v m = m\<lparr>nm_IsLeader := v\<rparr>"

definition NodeMetrics_SetOnline :: "bool \<Rightarrow> NodeMetrics \<Rightarrow> NodeMetrics" where
  "NodeMetrics_SetOnline v m = m\<lparr>nm_IsOnline := v\<rparr>"

definition average :: "real list \<Rightarrow> real" where
  "average xs = (if xs = [] then 0 else fold (\<lambda>v sum. sum + v) xs 0 / real (length xs))"

definition NodeMetrics_AvgWriteLatency :: "NodeMetrics \<Rightarrow> real" where
  "NodeMetrics_AvgWriteLatency m = average (nm_WriteLatencyMs m)"

definition NodeMetrics_AvgReadLatency :: "NodeMetrics \<Rightarrow> real" where
  "NodeMetrics_AvgReadLatency m = average (nm_ReadLatencyMs m)"

definition NodeMetrics_Snapshot :: "NodeMetrics \<Rightarrow> NodeMetrics" where
  "NodeMetrics_Snapshot m =
     m\<lparr>nm_WriteP50 := percentile (nm_WriteLatencyMs m) 50, nm_WriteP95 := percentile (nm_WriteLatencyMs m) 95,
       nm_WriteP99 := percentile (nm_WriteLatencyMs m) 99, nm_ReadP50 := percentile (nm_ReadLatencyMs m) 50,
       nm_ReadP95 := percentile (nm_ReadLatencyMs m) 95, nm_ReadP99 := percentile (nm_ReadLatencyMs m) 99\<rparr>"

record 'p ClusterMetrics =
  cm_ClusterID :: string
  cm_Strategy :: string
  cm_NodeMetrics :: "(node_id, 'p) fmap"
  cm_TotalWrites :: int
  cm_TotalReads :: int
  cm_TotalConflicts :: int
  cm_LagSamples :: "LagSample list"
  cm_StartTime :: int

definition NewClusterMetrics :: "int \<Rightarrow> string \<Rightarrow> string \<Rightarrow> 'p ClusterMetrics" where
  "NewClusterMetrics now clusterID strategy =
     \<lparr>cm_ClusterID = clusterID, cm_Strategy = strategy, cm_NodeMetrics = fmempty, cm_TotalWrites = 0,
      cm_TotalReads = 0, cm_TotalConflicts = 0, cm_LagSamples = [], cm_StartTime = now\<rparr>"

definition ClusterMetrics_AddNode :: "('p \<Rightarrow> NodeMetrics) \<Rightarrow> 'p \<Rightarrow> 'p ClusterMetrics \<Rightarrow> 'p ClusterMetrics" where
  "ClusterMetrics_AddNode deref nm c = c\<lparr>cm_NodeMetrics := fmupd (nm_NodeID (deref nm)) nm (cm_NodeMetrics c)\<rparr>"

definition ClusterMetrics_RecordLag :: "LagSample \<Rightarrow> 'p ClusterMetrics \<Rightarrow> 'p ClusterMetrics" where
  "ClusterMetrics_RecordLag sample c = c\<lparr>cm_LagSamples := window_add 500 sample (cm_LagSamples c)\<rparr>"

definition ClusterMetrics_IncrWrites :: "'p ClusterMetrics \<Rightarrow> 'p ClusterMetrics" where
  "ClusterMetrics_IncrWrites c = c\<lparr>cm_TotalWrites := i64 (cm_TotalWrites c + 1)\<rparr>"

definition ClusterMetrics_IncrReads :: "'p ClusterMetrics \<Rightarrow> 'p ClusterMetrics" where
  "ClusterMetrics_IncrReads c = c\<lparr>cm_TotalReads := i64 (cm_TotalReads c + 1)\<rparr>"

text \<open>The snapshot is a cluster record whose map holds the node snapshots themselves.\<close>

definition ClusterMetrics_Snapshot :: "('p \<Rightarrow> NodeMetrics) \<Rightarrow> 'p ClusterMetrics \<Rightarrow> NodeMetrics ClusterMetrics" where
  "ClusterMetrics_Snapshot deref c =
     (let (nodes, conflicts) = go_range (\<lambda>k v (ns, tot). let nm = NodeMetrics_Snapshot (deref v)
                                        in (fmupd k nm ns, i64 (tot + nm_ConflictsTotal nm)))
                                (cm_NodeMetrics c) (fmempty, 0)
      in \<lparr>cm_ClusterID = cm_ClusterID c, cm_Strategy = cm_Strategy c, cm_NodeMetrics = nodes,
          cm_TotalWrites = cm_TotalWrites c, cm_TotalReads = cm_TotalReads c, cm_TotalConflicts = conflicts,
          cm_LagSamples = cm_LagSamples c, cm_StartTime = cm_StartTime c\<rparr>)"

section \<open>Windows and percentiles\<close>

lemma window_add_last:
  "0 < cap \<Longrightarrow> length xs \<le> cap \<Longrightarrow> window_add cap x xs = drop (length xs + 1 - cap) (xs @ [x])"
proof -
  assume cap: "0 < cap" and "length xs \<le> cap"
  then consider "length xs < cap" | "length xs = cap" by linarith
  then show ?thesis
  proof cases
    case 2
    then show ?thesis using cap by (cases xs) (simp_all add: window_add_def Let_def)
  qed (simp add: window_add_def Let_def)
qed

lemma window_add_length: "length xs \<le> cap \<Longrightarrow> length (window_add cap x xs) \<le> cap"
  by (simp add: window_add_def Let_def)

lemma sorted_rank:
  assumes "sorted xs" and "i < length xs"
  shows "length (filter (\<lambda>x. x < xs ! i) xs) \<le> i" and "i < length (filter (\<lambda>x. x \<le> xs ! i) xs)"
proof -
  have "filter (\<lambda>x. x < xs ! i) (drop i xs) = []"
    using assms by (auto simp: filter_empty_conv in_set_conv_nth not_less intro!: sorted_nth_mono)
  then have "length (filter (\<lambda>x. x < xs ! i) (take i xs @ drop i xs)) = length (filter (\<lambda>x. x < xs ! i) (take i xs))"
    unfolding filter_append by simp
  also have "\<dots> \<le> i" using length_filter_le [of "\<lambda>x. x < xs ! i" "take i xs"] assms(2) by simp
  finally show "length (filter (\<lambda>x. x < xs ! i) xs) \<le> i" by simp
  have "filter (\<lambda>x. x \<le> xs ! i) (take (Suc i) xs) = take (Suc i) xs"
    using assms by (auto simp: filter_id_conv in_set_conv_nth less_Suc_eq_le intro!: sorted_nth_mono)
  then have "Suc i \<le> length (filter (\<lambda>x. x \<le> xs ! i) (take (Suc i) xs @ drop (Suc i) xs))"
    unfolding filter_append using assms(2) by simp
  then show "i < length (filter (\<lambda>x. x \<le> xs ! i) xs)" by simp
qed

text \<open>
  \<open>percentile\<close> is the nearest-rank percentile: for \<open>0 < p \<le> 100\<close> and at least one sample it is
  one of the samples, at least \<open>p\<close> percent of the samples are not above it, and fewer than \<open>p\<close> percent
  are strictly below it.
\<close>

theorem percentile_nearest_rank:
  assumes "samples \<noteq> []" and "0 < p" and "p \<le> 100"
  shows "percentile samples p \<in> set samples \<and>
     p / 100 * real (length samples) \<le> real (length (filter (\<lambda>x. x \<le> percentile samples p) samples)) \<and>
     real (length (filter (\<lambda>x. x < percentile samples p) samples)) < p / 100 * real (length samples)"
proof -
  define n where "n = length samples"
  define r where "r = nat (\<lceil>p / 100 * real n\<rceil> - 1)"
  have n: "0 < n" using assms(1) by (simp add: n_def)
  have pos: "0 < p / 100 * real n" using assms(2) n by simp
  have "p / 100 * real n \<le> 1 * real n" using assms(3) by (intro mult_right_mono) simp_all
  then have le: "\<lceil>p / 100 * real n\<rceil> \<le> int n" by (simp add: ceiling_le_iff)
  have ge: "1 \<le> \<lceil>p / 100 * real n\<rceil>" using pos by linarith
  have r: "r < n" "int r = \<lceil>p / 100 * real n\<rceil> - 1" unfolding r_def using le ge by linarith+
  have perc: "percentile samples p = sort samples ! r"
    using assms(1) le ge by (simp add: percentile_def Let_def r_def n_def)
  have len: "length (filter P (sort samples)) = length (filter P samples)" for P
    by (metis mset_filter mset_sort size_mset)
  have rk: "length (filter (\<lambda>x. x < sort samples ! r) samples) \<le> r" "r < length (filter (\<lambda>x. x \<le> sort samples ! r) samples)"
    using sorted_rank [of "sort samples" r] r(1) by (simp_all add: len n_def)
  have "p / 100 * real n \<le> real r + 1" "real r < p / 100 * real n" using r(2) by linarith+
  moreover have "sort samples ! r \<in> set samples" using r(1) by (metis length_sort n_def nth_mem set_sort)
  ultimately show ?thesis unfolding perc n_def [symmetric] using rk by (auto simp: n_def)
qed

theorem percentile_nearest_rank_witness:
  "percentile [30, 10, 20, 40] 50 = 20 \<and> percentile [30, 10, 20, 40] 50 \<in> set [30, 10, 20, 40 :: real]"
proof -
  have "\<lceil>50 / 100 * (4 :: real)\<rceil> = 2" by simp
  then have "percentile [30, 10, 20, 40] 50 = 20" by (simp add: percentile_def Let_def)
  then show ?thesis using percentile_nearest_rank [of "[30, 10, 20, 40]" 50] by simp
qed

end
