(* ===== verification/EventBus.thy ===== *)
theory EventBus
  imports Go_Prelude
begin

text \<open>
  The event bus of \<open>internal/events/bus.go\<close>: a bounded history and one bounded channel per
  subscriber. The payload of an event (its \<open>Data\<close> and trace headers) only travels through, so it is a
  type parameter. The zero time of Go is \<open>None\<close>. A channel is the list of its buffered events; a
  full one drops. Cutting the buffer of a bus with \<open>maxBuffer = 0\<close> panics: \<open>Publish\<close> returns \<open>None\<close>.
\<close>

datatype EventType = EvtFollowerLag | EvtConflictDetected | EvtConflictResolved | EvtEntryReplicated
  | EvtNodeStateChanged | EvtPartitionCreated | EvtPartitionHealed | EvtReadRepair | EvtLeaderElected
  | EvtHintedHandoff | EvtQuorumAchieved | EvtQuorumFailed | EvtWriteReceived | EvtReadReceived
  | EvtScenarioStep | EvtScenarioVerdict

record 'd Event =
  ev_Type :: EventType
  ev_ClusterID :: string
  ev_NodeID :: node_id
  ev_Timestamp :: "int option"
  ev_Data :: 'd

record 'd Subscriber =
  sb_ID :: string
  sb_Filter :: "EventType list"
  sb_Ch :: "'d Event list"
  sb_Done :: bool

record 'd EventBus =
  eb_subscribers :: "(string, 'd Subscriber) fmap"
  eb_buffer :: "'d Event list"
  eb_maxBuffer :: nat

definition NewEventBus :: "nat \<Rightarrow> 'd EventBus" where
  "NewEventBus bufferSize = \<lparr>eb_subscribers = fmempty, eb_buffer = [], eb_maxBuffer = bufferSize\<rparr>"

definition EventBus_Subscribe :: "string \<Rightarrow> EventType list \<Rightarrow> 'd EventBus \<Rightarrow> 'd EventBus \<times> 'd Subscriber" where
  "EventBus_Subscribe i filt b =
     (let sub = \<lparr>sb_ID = i, sb_Filter = filt, sb_Ch = [], sb_Done = False\<rparr>
      in (b\<lparr>eb_subscribers := fmupd i sub (eb_subscribers b)\<rparr>, sub))"

text \<open>The removed subscriber, its \<open>Done\<close> channel closed, is what the caller still holds.\<close>

definition EventBus_Unsubscribe :: "string \<Rightarrow> 'd EventBus \<Rightarrow> 'd EventBus \<times> 'd Subscriber option" where
  "EventBus_Unsubscribe i b =
     (case fmlookup (eb_subscribers b) i of None \<Rightarrow> (b, None)
      | Some sub \<Rightarrow> (b\<lparr>eb_subscribers := fmdrop i (eb_subscribers b)\<rparr>, Some (sub\<lparr>sb_Done := True\<rparr>)))"

fun filter_loop :: "EventType \<Rightarrow> EventType list \<Rightarrow> bool" where
  "filter_loop t [] = False"
| "filter_loop t (f # fs) = (if f = t then True else filter_loop t fs)"

definition matchesFilter :: "EventType \<Rightarrow> EventType list \<Rightarrow> bool" where
  "matchesFilter t filt = (if filt = [] then True else filter_loop t filt)"

definition offer :: "'d Event \<Rightarrow> 'd Subscriber \<Rightarrow> 'd Subscriber" where
  "offer evt sub =
     (if matchesFilter (ev_Type evt) (sb_Filter sub)
      then (if length (sb_Ch sub) < 256 then sub\<lparr>sb_Ch := sb_Ch sub @ [evt]\<rparr> else sub) else sub)"

definition EventBus_Publish :: "int \<Rightarrow> 'd Event \<Rightarrow> 'd EventBus \<Rightarrow> 'd EventBus option" where
  "EventBus_Publish now evt b =
     (let evt = (if ev_Timestamp evt = None then evt\<lparr>ev_Timestamp := Some now\<rparr> else evt) in
      Option.bind (if length (eb_buffer b) \<ge> eb_maxBuffer b then slice_from (eb_buffer b) 1 else Some (eb_buffer b)) (\<lambda>buf.
        Some (b\<lparr>eb_buffer := buf @ [evt],
                eb_subscribers := go_range (\<lambda>k sub subs. fmupd k (offer evt sub) subs)
                                    (eb_subscribers b) (eb_subscribers b)\<rparr>)))"

text \<open>The newest-first walk of \<open>GetRecent\<close> over the indices below \<open>i\<close>, and the in-place reversal.\<close>

fun recent_loop :: "nat \<Rightarrow> EventType list \<Rightarrow> 'd Event list \<Rightarrow> nat \<Rightarrow> 'd Event list \<Rightarrow> 'd Event list" where
  "recent_loop n filt buf 0 result = result"
| "recent_loop n filt buf (Suc i) result =
     (if length result < n
      then recent_loop n filt buf i (if matchesFilter (ev_Type (buf ! i)) filt then result @ [buf ! i] else result)
      else result)"

function swap_loop :: "nat \<Rightarrow> nat \<Rightarrow> 'a list \<Rightarrow> 'a list" where
  "swap_loop l r xs = (if l < r then swap_loop (l + 1) (r - 1) (xs[l := xs ! r, r := xs ! l]) else xs)"
  by pat_completeness auto
termination
  by (relation "measure (\<lambda>(l, r, xs). r - l)") auto

declare swap_loop.simps [simp del]

definition EventBus_GetRecent :: "nat \<Rightarrow> EventType list \<Rightarrow> 'd EventBus \<Rightarrow> 'd Event list" where
  "EventBus_GetRecent n filt b =
     (let result = recent_loop n filt (eb_buffer b) (length (eb_buffer b)) []
      in swap_loop 0 (length result - 1) result)"

section \<open>What the loops compute\<close>

lemma filter_loop_iff: "filter_loop t fs \<longleftrightarrow> t \<in> set fs"
  by (induction fs) auto

lemma matchesFilter_iff: "matchesFilter t filt \<longleftrightarrow> filt = [] \<or> t \<in> set filt"
  by (simp add: matchesFilter_def filter_loop_iff)

text \<open>The swap loop reverses the segment between its two indices.\<close>

lemma swap_loop_rev:
  "length ys = r + 1 - l \<Longrightarrow> l = length xs \<Longrightarrow> l \<le> r + 1 \<Longrightarrow> swap_loop l r (xs @ ys @ zs) = xs @ rev ys @ zs"
proof (induction "r - l" arbitrary: l r xs ys zs rule: less_induct)
  case less
  show ?case
  proof (cases "l < r")
    case True
    then have "2 \<le> length ys" using less.prems by simp
    then obtain a ms b where ys: "ys = a # ms @ [b]"
      by (metis One_nat_def Suc_1 Suc_le_length_iff append_butlast_last_id list.distinct(1) list.inject)
    have r: "r = length xs + Suc (length ms)" using less.prems True by (simp add: ys)
    have "(xs @ ys @ zs)[l := (xs @ ys @ zs) ! r, r := (xs @ ys @ zs) ! l] = (xs @ [b]) @ ms @ (a # zs)"
      using less.prems(2) unfolding r ys by (simp add: nth_append list_update_append)
    moreover have "swap_loop (l + 1) (r - 1) ((xs @ [b]) @ ms @ (a # zs)) = (xs @ [b]) @ rev ms @ (a # zs)"
      using True less.prems r by (intro less.hyps) auto
    ultimately show ?thesis using True by (subst swap_loop.simps) (simp add: ys)
  next
    case False
    then have "length ys \<le> 1" using less.prems by simp
    then have "rev ys = ys" by (cases ys) auto
    then show ?thesis using False by (subst swap_loop.simps) simp
  qed
qed

lemma swap_all: "swap_loop 0 (length xs - 1) xs = rev xs"
proof (cases "xs = []")
  case False
  then have "1 \<le> length xs" by (cases xs) auto
  then show ?thesis using swap_loop_rev [of xs "length xs - 1" 0 "[]" "[]"] by simp
qed (simp add: swap_loop.simps)

lemma recent_loop_take:
  "i \<le> length buf \<Longrightarrow> length result \<le> n \<Longrightarrow>
   recent_loop n filt buf i result =
     result @ take (n - length result) (filter (\<lambda>e. matchesFilter (ev_Type e) filt) (rev (take i buf)))"
proof (induction i arbitrary: result)
  case (Suc i)
  then have t: "take (Suc i) buf = take i buf @ [buf ! i]" by (simp add: take_Suc_conv_app_nth)
  show ?case
  proof (cases "length result < n")
    case True
    then have "n - length result = Suc (n - Suc (length result))" by simp
    then show ?thesis using Suc True by (auto simp: t)
  next
    case False
    then show ?thesis using Suc.prems by simp
  qed
qed simp

text \<open>\<open>GetRecent\<close> is the tail of the matching history, in chronological order.\<close>

lemma get_recent_tail:
  "EventBus_GetRecent n filt b =
     (let es = filter (\<lambda>e. matchesFilter (ev_Type e) filt) (eb_buffer b) in drop (length es - n) es)"
proof -
  have "rev (take n (rev es)) = drop (length es - n) es" for es :: "'a Event list"
    by (simp add: rev_take)
  then show ?thesis
    unfolding EventBus_GetRecent_def Let_def swap_all by (simp add: recent_loop_take rev_filter [symmetric])
qed

text \<open>A run of publications on a new bus.\<close>

fun publish_all :: "(int \<times> 'd Event) list \<Rightarrow> 'd EventBus \<Rightarrow> 'd EventBus option" where
  "publish_all [] b = Some b"
| "publish_all ((now, e) # es) b = Option.bind (EventBus_Publish now e b) (publish_all es)"

definition stamped :: "int \<times> 'd Event \<Rightarrow> 'd Event" where
  "stamped ne = (if ev_Timestamp (snd ne) = None then (snd ne)\<lparr>ev_Timestamp := Some (fst ne)\<rparr> else snd ne)"

text \<open>Keeping the last \<open>c\<close> elements before and after appending keeps the last \<open>c\<close> in the end.\<close>

lemma window_window:
  fixes xs :: "'a list" and c :: nat
  defines "keep \<equiv> \<lambda>zs :: 'a list. drop (length zs - c) zs"
  shows "keep (keep xs @ ys) = keep (xs @ ys)"
proof (cases "length xs \<le> c")
  case False
  then have "length xs - c + (c + length ys - c) = length xs + length ys - c" by simp
  then show ?thesis using False by (simp add: keep_def add.commute)
qed (simp add: keep_def)

lemma publish_buffer:
  assumes "0 < eb_maxBuffer b" and "length (eb_buffer b) \<le> eb_maxBuffer b"
  shows "\<exists>b'. EventBus_Publish now e b = Some b' \<and> eb_maxBuffer b' = eb_maxBuffer b \<and>
     eb_buffer b' = (let xs = eb_buffer b @ [stamped (now, e)] in drop (length xs - eb_maxBuffer b) xs)"
proof (cases "length (eb_buffer b) = eb_maxBuffer b")
  case True
  then have "slice_from (eb_buffer b) 1 = Some (drop 1 (eb_buffer b))" using assms(1) by (simp add: slice_from_def)
  then show ?thesis using True assms(1) by (simp add: EventBus_Publish_def stamped_def Let_def)
next
  case False
  then show ?thesis using assms by (simp add: EventBus_Publish_def stamped_def Let_def)
qed

text \<open>The bus keeps exactly the last \<open>maxBuffer\<close> events and never panics when it has room for one.\<close>

lemma publish_keeps_last:
  assumes "0 < eb_maxBuffer b" and "length (eb_buffer b) \<le> eb_maxBuffer b"
  shows "\<exists>b'. publish_all es b = Some b' \<and> eb_maxBuffer b' = eb_maxBuffer b \<and>
     eb_buffer b' = (let xs = eb_buffer b @ map stamped es in drop (length xs - eb_maxBuffer b) xs)"
  using assms
proof (induction es arbitrary: b)
  case (Cons ne es)
  obtain now e where ne: "ne = (now, e)" by fastforce
  obtain b1 where b1: "EventBus_Publish now e b = Some b1" "eb_maxBuffer b1 = eb_maxBuffer b"
    "eb_buffer b1 = (let xs = eb_buffer b @ [stamped (now, e)] in drop (length xs - eb_maxBuffer b) xs)"
    using publish_buffer [OF Cons.prems] by blast
  then have "length (eb_buffer b1) \<le> eb_maxBuffer b1" by (simp add: Let_def)
  then obtain b' where "publish_all es b1 = Some b'" "eb_maxBuffer b' = eb_maxBuffer b1"
    "eb_buffer b' = (let xs = eb_buffer b1 @ map stamped es in drop (length xs - eb_maxBuffer b1) xs)"
    using Cons.IH [of b1] Cons.prems(1) b1(2) by auto
  then show ?case
    using b1 window_window [of "eb_buffer b @ [stamped (now, e)]" "eb_maxBuffer b" "map stamped es"]
    unfolding ne Let_def by simp
qed (simp add: Let_def)

text \<open>The bus keeps history: on a bus made for at least one event no publication panics, and after any
  of them \<open>GetRecent n filter\<close> returns the last \<open>n\<close> events the filter lets through among the last
  \<open>maxBuffer\<close> published, oldest first.
\<close>

theorem bus_recent_history:
  assumes "0 < cap"
  shows "\<exists>b. publish_all es (NewEventBus cap) = Some b \<and>
     EventBus_GetRecent n filt b =
       (let kept = drop (length es - cap) (map stamped es);
            hits = filter (\<lambda>e. matchesFilter (ev_Type e) filt) kept
        in drop (length hits - n) hits)"
  using publish_keeps_last [of "NewEventBus cap" es] assms
  by (auto simp: NewEventBus_def get_recent_tail Let_def)

theorem bus_recent_history_witness:
  "let e = \<lambda>t d. \<lparr>ev_Type = t, ev_ClusterID = ''c'', ev_NodeID = ''n'', ev_Timestamp = Some d, ev_Data = ()\<rparr>;
       es = [(0, e EvtReadRepair 1), (0, e EvtReadReceived 2), (0, e EvtReadRepair 3), (0, e EvtReadRepair 4)]
   in \<exists>b. publish_all es (NewEventBus 3) = Some b \<and>
        EventBus_GetRecent 5 [EvtReadRepair] b = [e EvtReadRepair 3, e EvtReadRepair 4]"
  unfolding Let_def
  using bus_recent_history [of 3 "[(0, \<lparr>ev_Type = EvtReadRepair, ev_ClusterID = ''c'', ev_NodeID = ''n'', ev_Timestamp = Some 1, ev_Data = ()\<rparr>),
      (0, \<lparr>ev_Type = EvtReadReceived, ev_ClusterID = ''c'', ev_NodeID = ''n'', ev_Timestamp = Some 2, ev_Data = ()\<rparr>),
      (0, \<lparr>ev_Type = EvtReadRepair, ev_ClusterID = ''c'', ev_NodeID = ''n'', ev_Timestamp = Some 3, ev_Data = ()\<rparr>),
      (0, \<lparr>ev_Type = EvtReadRepair, ev_ClusterID = ''c'', ev_NodeID = ''n'', ev_Timestamp = Some 4, ev_Data = ()\<rparr>)]" 5 "[EvtReadRepair]"]
  by (simp add: stamped_def matchesFilter_def Let_def)

end
