(* ===== verification/Fabric.thy ===== *)
theory Fabric
  imports Complex_Main VClock
begin

text \<open>
  Messages and the network fabric, \<open>internal/transport/message.go\<close> and \<open>fabric.go\<close>. Times are
  nanoseconds; the wall clock and the random draws are arguments of the calls that read them. A Go
  channel is an object: \<open>fb_nodes\<close> maps a node to the address of its inbox, \<open>fb_chans\<close> an address to
  the buffered messages and the capacity. The goroutine of a link is cut where it can be suspended:
  \<open>linkWorker_take\<close> receives from the queue of the link, \<open>linkWorker_fire\<close> runs when the timer of the
  received message has expired.
\<close>

datatype MessageType = MsgAppendEntries | MsgAppendAck | MsgWrite | MsgWriteAck | MsgClientWrite | MsgClientRead
  | MsgSync | MsgSyncAck | MsgReadRepair | MsgHintedHandoff | MsgHeartbeat | MsgHeartbeatAck | MsgVoteRequest
  | MsgVoteResponse | MsgInstallSnap

record MsgQuorum =
  mq_N :: int
  mq_W :: int
  mq_R :: int

record Message =
  m_Type :: MessageType
  m_SeqNo :: nat
  m_SenderID :: node_id
  m_TargetID :: node_id
  m_Entries :: "LogEntry list"
  m_Entry :: "KVEntry option"
  m_AckIndex :: nat
  m_VClock :: "vclock option"
  m_Quorum :: "MsgQuorum option"
  m_Error :: string
  m_Key :: string
  m_StaleNodes :: "node_id list"
  m_Term :: nat
  m_OriginalTarget :: node_id
  m_PrevLogIndex :: nat
  m_PrevLogTerm :: nat
  m_LeaderCommit :: nat
  m_Success :: bool
  m_ConflictIndex :: nat
  m_LastLogIndex :: nat
  m_LastLogTerm :: nat
  m_VoteGranted :: bool
  m_Snapshot :: string
  m_Digest :: bool
  m_Hash :: string

text \<open>A message literal names some fields; the others have their zero values.\<close>

definition msg_of :: "MessageType \<Rightarrow> node_id \<Rightarrow> node_id \<Rightarrow> Message" where
  "msg_of t sender target =
     \<lparr>m_Type = t, m_SeqNo = 0, m_SenderID = sender, m_TargetID = target, m_Entries = [], m_Entry = None,
      m_AckIndex = 0, m_VClock = None, m_Quorum = None, m_Error = [], m_Key = [], m_StaleNodes = [], m_Term = 0,
      m_OriginalTarget = [], m_PrevLogIndex = 0, m_PrevLogTerm = 0, m_LeaderCommit = 0, m_Success = False,
      m_ConflictIndex = 0, m_LastLogIndex = 0, m_LastLogTerm = 0, m_VoteGranted = False, m_Snapshot = [],
      m_Digest = False, m_Hash = []\<rparr>"

record Partition =
  pt_ID :: string
  pt_GroupA :: "(node_id, bool) fmap"
  pt_GroupB :: "(node_id, bool) fmap"

definition Partition_Blocks :: "Partition \<Rightarrow> node_id \<Rightarrow> node_id \<Rightarrow> bool" where
  "Partition_Blocks p from to =
     (let inA = bget (pt_GroupA p) from; inB = bget (pt_GroupB p) from;
          toInA = bget (pt_GroupA p) to; toInB = bget (pt_GroupB p) to
      in (inA \<and> toInB) \<or> (inB \<and> toInA))"

record timedMsg =
  tm_msg :: Message
  tm_at :: int

text \<open>A link: its queue, the message its worker holds, and \<open>lastAt\<close> (\<open>None\<close> is the zero time).\<close>

record link =
  lk_ch :: "timedMsg list"
  lk_cur :: "timedMsg option"
  lk_lastAt :: "int option"

record latencyModel =
  lm_base :: int
  lm_jitter :: int
  lm_tailProb :: real
  lm_tailMult :: int

text \<open>\<open>draw\<close> is \<open>rng.Intn(2*jitter+1)\<close>, \<open>roll\<close> is \<open>rng.Float64()\<close>.\<close>

definition latencyModel_sample :: "latencyModel \<Rightarrow> int \<Rightarrow> real \<Rightarrow> int" where
  "latencyModel_sample m draw roll =
     (let v0 = lm_base m;
          v1 = (if lm_jitter m > 0 then v0 + (draw - lm_jitter m) else v0);
          v2 = (if lm_tailProb m > 0 \<and> roll < lm_tailProb m
                then v1 + lm_base m * (if lm_tailMult m \<le> 0 then 1 else lm_tailMult m) else v1)
      in if v2 < 0 then 0 else v2)"

record Chan =
  ch_buf :: "Message list"
  ch_cap :: nat

record NetworkFabric =
  fb_nodes :: "(node_id, nat) fmap"
  fb_chans :: "(nat, Chan) fmap"
  fb_latencyMs :: "(node_id, (node_id, int) fmap) fmap"
  fb_latencyDist :: "(node_id, (node_id, latencyModel) fmap) fmap"
  fb_dropRate :: "(node_id, (node_id, real) fmap) fmap"
  fb_partitions :: "(string, Partition) fmap"
  fb_links :: "(string, link) fmap"
  fb_closed :: bool
  fb_dropped :: u64

definition NetworkFabric_Dropped :: "NetworkFabric \<Rightarrow> u64" where
  "NetworkFabric_Dropped f = fb_dropped f"

definition NewNetworkFabric :: NetworkFabric where
  "NewNetworkFabric =
     \<lparr>fb_nodes = fmempty, fb_chans = fmempty, fb_latencyMs = fmempty, fb_latencyDist = fmempty, fb_dropRate = fmempty,
      fb_partitions = fmempty, fb_links = fmempty, fb_closed = False, fb_dropped = 0\<rparr>"

definition NetworkFabric_Close :: "NetworkFabric \<Rightarrow> NetworkFabric" where
  "NetworkFabric_Close f = (if \<not> fb_closed f then f\<lparr>fb_closed := True\<rparr> else f)"

definition link_key :: "node_id \<Rightarrow> node_id \<Rightarrow> string" where
  "link_key from to = from @ CHR 0x00 # to"

definition NetworkFabric_getOrCreateLink :: "node_id \<Rightarrow> node_id \<Rightarrow> NetworkFabric \<Rightarrow> NetworkFabric \<times> link option" where
  "NetworkFabric_getOrCreateLink from to f =
     (let key = link_key from to in
      if fb_closed f then (f, None)
      else (case fmlookup (fb_links f) key of
              Some l \<Rightarrow> (f, Some l)
            | None \<Rightarrow> (let l = \<lparr>lk_ch = [], lk_cur = None, lk_lastAt = None\<rparr>
                       in (f\<lparr>fb_links := fmupd key l (fb_links f)\<rparr>, Some l))))"

text \<open>The worker of link \<open>key\<close>: the receive, and what follows the timer. The result of the second
  names the message it got rid of.\<close>

definition linkWorker_take :: "string \<Rightarrow> NetworkFabric \<Rightarrow> NetworkFabric" where
  "linkWorker_take key f =
     (if fb_closed f then f
      else (case fmlookup (fb_links f) key of None \<Rightarrow> f
            | Some l \<Rightarrow>
                (case (lk_cur l, lk_ch l) of
                   (None, tm # rest) \<Rightarrow> f\<lparr>fb_links := fmupd key (l\<lparr>lk_cur := Some tm, lk_ch := rest\<rparr>) (fb_links f)\<rparr>
                 | _ \<Rightarrow> f)))"

definition chan_offer :: "Message \<Rightarrow> nat \<Rightarrow> NetworkFabric \<Rightarrow> NetworkFabric" where
  "chan_offer msg a f =
     (case fmlookup (fb_chans f) a of None \<Rightarrow> f
      | Some c \<Rightarrow>
          if length (ch_buf c) < ch_cap c then f\<lparr>fb_chans := fmupd a (c\<lparr>ch_buf := ch_buf c @ [msg]\<rparr>) (fb_chans f)\<rparr>
          else f\<lparr>fb_dropped := fb_dropped f + 1\<rparr>)"

definition linkWorker_fire :: "string \<Rightarrow> int \<Rightarrow> NetworkFabric \<Rightarrow> NetworkFabric \<times> timedMsg option" where
  "linkWorker_fire key now f =
     (if fb_closed f then (f, None)
      else (case fmlookup (fb_links f) key of None \<Rightarrow> (f, None)
            | Some l \<Rightarrow>
                (case lk_cur l of None \<Rightarrow> (f, None)
                 | Some tm \<Rightarrow>
                     if tm_at tm - now > 0 then (f, None)
                     else (let f' = f\<lparr>fb_links := fmupd key (l\<lparr>lk_cur := None\<rparr>) (fb_links f)\<rparr>
                           in ((case fmlookup (fb_nodes f') (m_TargetID (tm_msg tm)) of None \<Rightarrow> f'
                                | Some a \<Rightarrow> chan_offer (tm_msg tm) a f'), Some tm)))))"

definition NetworkFabric_Register :: "node_id \<Rightarrow> nat \<Rightarrow> NetworkFabric \<Rightarrow> NetworkFabric" where
  "NetworkFabric_Register nodeID ch f = f\<lparr>fb_nodes := fmupd nodeID ch (fb_nodes f)\<rparr>"

definition NetworkFabric_Deregister :: "node_id \<Rightarrow> NetworkFabric \<Rightarrow> NetworkFabric" where
  "NetworkFabric_Deregister nodeID f = f\<lparr>fb_nodes := fmdrop nodeID (fb_nodes f)\<rparr>"

text \<open>A two-level map read: the entry of a link when both levels have one.\<close>

definition get2 :: "('a, ('b, 'c) fmap) fmap \<Rightarrow> 'a \<Rightarrow> 'b \<Rightarrow> 'c option" where
  "get2 m a b = (case fmlookup m a of None \<Rightarrow> None | Some m' \<Rightarrow> fmlookup m' b)"

definition set2 :: "('a, ('b, 'c) fmap) fmap \<Rightarrow> 'a \<Rightarrow> 'b \<Rightarrow> 'c \<Rightarrow> ('a, ('b, 'c) fmap) fmap" where
  "set2 m a b c = fmupd a (fmupd b c (case fmlookup m a of None \<Rightarrow> fmempty | Some m' \<Rightarrow> m')) m"

definition NetworkFabric_getLatency :: "node_id \<Rightarrow> node_id \<Rightarrow> NetworkFabric \<Rightarrow> int" where
  "NetworkFabric_getLatency from to f = (case get2 (fb_latencyMs f) from to of Some l \<Rightarrow> l | None \<Rightarrow> 0)"

definition NetworkFabric_getLatencyModel :: "node_id \<Rightarrow> node_id \<Rightarrow> NetworkFabric \<Rightarrow> latencyModel option" where
  "NetworkFabric_getLatencyModel from to f = get2 (fb_latencyDist f) from to"

definition NetworkFabric_getDropRate :: "node_id \<Rightarrow> node_id \<Rightarrow> NetworkFabric \<Rightarrow> real" where
  "NetworkFabric_getDropRate from to f = (case get2 (fb_dropRate f) from to of Some r \<Rightarrow> r | None \<Rightarrow> 0)"

definition NetworkFabric_isPartitioned :: "node_id \<Rightarrow> node_id \<Rightarrow> NetworkFabric \<Rightarrow> bool" where
  "NetworkFabric_isPartitioned from to f = go_any (\<lambda>k p. Partition_Blocks p from to) (fb_partitions f)"

text \<open>The random draws of one \<open>Send\<close>: the drop roll, and the two draws of the latency sample.\<close>

record Draws =
  dr_roll :: real
  dr_jitter :: int
  dr_tail :: real

text \<open>The clamped due time, and the non-blocking send into the queue of the link.\<close>

definition link_push :: "int \<Rightarrow> Message \<Rightarrow> link \<Rightarrow> link \<times> timedMsg option" where
  "link_push due0 msg l =
     (let due = (case lk_lastAt l of None \<Rightarrow> due0 | Some t \<Rightarrow> if due0 < t then t else due0);
          l1 = l\<lparr>lk_lastAt := Some due\<rparr>;
          tm = \<lparr>tm_msg = msg, tm_at = due\<rparr>
      in if length (lk_ch l1) < 1024 then (l1\<lparr>lk_ch := lk_ch l1 @ [tm]\<rparr>, Some tm) else (l1, None))"

text \<open>The second result is the message put on the link, if any.\<close>

definition NetworkFabric_Send :: "int \<Rightarrow> Draws \<Rightarrow> Message \<Rightarrow> NetworkFabric \<Rightarrow> NetworkFabric \<times> timedMsg option" where
  "NetworkFabric_Send now d msg f =
     (let from = m_SenderID msg; to = m_TargetID msg;
          ok = fmlookup (fb_nodes f) to \<noteq> None;
          blocked = NetworkFabric_isPartitioned from to f
      in if \<not> ok \<or> blocked then (f, None)
         else (let latency = (case NetworkFabric_getLatencyModel from to f of
                                Some model \<Rightarrow> latencyModel_sample model (dr_jitter d) (dr_tail d)
                              | None \<Rightarrow> NetworkFabric_getLatency from to f)
               in if dr_roll d < NetworkFabric_getDropRate from to f then (f, None)
                  else (let due0 = now + latency * 1000000;
                            (f1, lo) = NetworkFabric_getOrCreateLink from to f
                        in case lo of None \<Rightarrow> (f1, None)
                           | Some l \<Rightarrow>
                               (let (l', tmo) = link_push due0 msg l
                                in (f1\<lparr>fb_links := fmupd (link_key from to) l' (fb_links f1),
                                       fb_dropped := (if tmo = None then fb_dropped f1 + 1 else fb_dropped f1)\<rparr>, tmo)))))"

fun NetworkFabric_Broadcast :: "int \<Rightarrow> (node_id \<Rightarrow> Draws) \<Rightarrow> Message \<Rightarrow> node_id list \<Rightarrow> NetworkFabric \<Rightarrow> NetworkFabric" where
  "NetworkFabric_Broadcast now d msg [] f = f"
| "NetworkFabric_Broadcast now d msg (i # ids) f =
     NetworkFabric_Broadcast now d msg ids (fst (NetworkFabric_Send now (d i) (msg\<lparr>m_TargetID := i\<rparr>) f))"

definition NetworkFabric_SetLatency :: "node_id \<Rightarrow> node_id \<Rightarrow> int \<Rightarrow> NetworkFabric \<Rightarrow> NetworkFabric" where
  "NetworkFabric_SetLatency from to ms f = f\<lparr>fb_latencyMs := set2 (fb_latencyMs f) from to ms\<rparr>"

definition NetworkFabric_SetLatencyDist ::
  "node_id \<Rightarrow> node_id \<Rightarrow> int \<Rightarrow> int \<Rightarrow> real \<Rightarrow> int \<Rightarrow> NetworkFabric \<Rightarrow> NetworkFabric" where
  "NetworkFabric_SetLatencyDist from to base jitter tailProb tailMult f =
     f\<lparr>fb_latencyDist := set2 (fb_latencyDist f) from to
         \<lparr>lm_base = base, lm_jitter = jitter, lm_tailProb = tailProb, lm_tailMult = tailMult\<rparr>\<rparr>"

definition NetworkFabric_SetDropRate :: "node_id \<Rightarrow> node_id \<Rightarrow> real \<Rightarrow> NetworkFabric \<Rightarrow> NetworkFabric" where
  "NetworkFabric_SetDropRate from to rate f = f\<lparr>fb_dropRate := set2 (fb_dropRate f) from to rate\<rparr>"

definition NetworkFabric_AddPartition :: "Partition \<Rightarrow> NetworkFabric \<Rightarrow> NetworkFabric" where
  "NetworkFabric_AddPartition p f = f\<lparr>fb_partitions := fmupd (pt_ID p) p (fb_partitions f)\<rparr>"

definition NetworkFabric_RemovePartition :: "string \<Rightarrow> NetworkFabric \<Rightarrow> NetworkFabric" where
  "NetworkFabric_RemovePartition i f = f\<lparr>fb_partitions := fmdrop i (fb_partitions f)\<rparr>"

definition NetworkFabric_ClearFaults :: "NetworkFabric \<Rightarrow> NetworkFabric" where
  "NetworkFabric_ClearFaults f =
     f\<lparr>fb_latencyMs := fmempty, fb_latencyDist := fmempty, fb_dropRate := fmempty, fb_partitions := fmempty\<rparr>"

definition NetworkFabric_GetPartitions :: "NetworkFabric \<Rightarrow> (string, Partition) fmap" where
  "NetworkFabric_GetPartitions f = go_range (\<lambda>k v result. fmupd k v result) (fb_partitions f) fmempty"

text \<open>The channel operations of a node: making its inbox, and receiving from it.\<close>

definition make_chan :: "nat \<Rightarrow> nat \<Rightarrow> NetworkFabric \<Rightarrow> NetworkFabric" where
  "make_chan a cap f = f\<lparr>fb_chans := fmupd a \<lparr>ch_buf = [], ch_cap = cap\<rparr> (fb_chans f)\<rparr>"

definition chan_receive :: "nat \<Rightarrow> NetworkFabric \<Rightarrow> NetworkFabric \<times> Message option" where
  "chan_receive a f =
     (case fmlookup (fb_chans f) a of
        Some c \<Rightarrow> (case ch_buf c of [] \<Rightarrow> (f, None)
                   | msg # rest \<Rightarrow> (f\<lparr>fb_chans := fmupd a (c\<lparr>ch_buf := rest\<rparr>) (fb_chans f)\<rparr>, Some msg))
      | None \<Rightarrow> (f, None))"

section \<open>Links are queues\<close>

text \<open>
  Any use of the fabric is a sequence of calls and worker steps. The history keeps what was put on
  which link and what the workers got rid of, in order.
\<close>

datatype FabricCall = FSend int Draws Message | FTake string | FFire string int
  | FRegister node_id nat | FDeregister node_id | FMakeChan nat nat | FReceive nat
  | FSetLatency node_id node_id int | FSetLatencyDist node_id node_id int int real int
  | FSetDropRate node_id node_id real | FAddPartition Partition | FRemovePartition string | FClearFaults | FClose

record History =
  hs_fabric :: NetworkFabric
  hs_sent :: "(string \<times> timedMsg) list"
  hs_fired :: "(string \<times> timedMsg) list"

definition logged :: "string \<Rightarrow> timedMsg option \<Rightarrow> (string \<times> timedMsg) list" where
  "logged k tmo = (case tmo of None \<Rightarrow> [] | Some tm \<Rightarrow> [(k, tm)])"

fun config_call :: "FabricCall \<Rightarrow> NetworkFabric \<Rightarrow> NetworkFabric" where
  "config_call (FRegister i ch) f = NetworkFabric_Register i ch f"
| "config_call (FDeregister i) f = NetworkFabric_Deregister i f"
| "config_call (FMakeChan a cap) f = make_chan a cap f"
| "config_call (FReceive a) f = fst (chan_receive a f)"
| "config_call (FSetLatency a b ms) f = NetworkFabric_SetLatency a b ms f"
| "config_call (FSetLatencyDist a b base j tp tmul) f = NetworkFabric_SetLatencyDist a b base j tp tmul f"
| "config_call (FSetDropRate a b r) f = NetworkFabric_SetDropRate a b r f"
| "config_call (FAddPartition p) f = NetworkFabric_AddPartition p f"
| "config_call (FRemovePartition i) f = NetworkFabric_RemovePartition i f"
| "config_call FClearFaults f = NetworkFabric_ClearFaults f"
| "config_call FClose f = NetworkFabric_Close f"
| "config_call _ f = f"

fun fabric_call :: "FabricCall \<Rightarrow> History \<Rightarrow> History" where
  "fabric_call (FSend now d msg) h =
     (let (f, tmo) = NetworkFabric_Send now d msg (hs_fabric h)
      in h\<lparr>hs_fabric := f, hs_sent := hs_sent h @ logged (link_key (m_SenderID msg) (m_TargetID msg)) tmo\<rparr>)"
| "fabric_call (FTake k) h = h\<lparr>hs_fabric := linkWorker_take k (hs_fabric h)\<rparr>"
| "fabric_call (FFire k now) h =
     (let (f, tmo) = linkWorker_fire k now (hs_fabric h) in h\<lparr>hs_fabric := f, hs_fired := hs_fired h @ logged k tmo\<rparr>)"
| "fabric_call c h = h\<lparr>hs_fabric := config_call c (hs_fabric h)\<rparr>"

definition new_history :: History where
  "new_history = \<lparr>hs_fabric = NewNetworkFabric, hs_sent = [], hs_fired = []\<rparr>"

definition on_link :: "string \<Rightarrow> (string \<times> timedMsg) list \<Rightarrow> timedMsg list" where
  "on_link k xs = map snd (filter (\<lambda>(k', tm). k' = k) xs)"

definition pending :: "link option \<Rightarrow> timedMsg list" where
  "pending lo = (case lo of None \<Rightarrow> [] | Some l \<Rightarrow> (case lk_cur l of None \<Rightarrow> [] | Some tm \<Rightarrow> [tm]) @ lk_ch l)"

text \<open>Per link: history and queue agree, due times ascend up to \<open>lastAt\<close>, the queue is within its capacity.\<close>

definition link_ok :: "timedMsg list \<Rightarrow> timedMsg list \<Rightarrow> link option \<Rightarrow> bool" where
  "link_ok sent fired lo \<longleftrightarrow> sent = fired @ pending lo \<and> sorted (map tm_at sent) \<and>
     (case lo of None \<Rightarrow> sent = [] | Some l \<Rightarrow> length (lk_ch l) \<le> 1024 \<and>
        (case lk_lastAt l of None \<Rightarrow> sent = [] | Some t \<Rightarrow> \<forall>tm \<in> set sent. tm_at tm \<le> t))"

definition fabric_inv :: "History \<Rightarrow> bool" where
  "fabric_inv h \<longleftrightarrow> (\<forall>k. link_ok (on_link k (hs_sent h)) (on_link k (hs_fired h)) (fmlookup (fb_links (hs_fabric h)) k))"

lemma on_link_append [simp]: "on_link k (xs @ ys) = on_link k xs @ on_link k ys"
  by (simp add: on_link_def)

lemma on_link_logged [simp]: "on_link k (logged k' tmo) = (if k = k' then (case tmo of None \<Rightarrow> [] | Some tm \<Rightarrow> [tm]) else [])"
  by (simp add: on_link_def logged_def split: option.splits)

lemma config_links [simp]: "fb_links (config_call c f) = fb_links f"
  by (cases c) (simp_all add: NetworkFabric_Register_def NetworkFabric_Deregister_def make_chan_def chan_receive_def
      NetworkFabric_SetLatency_def NetworkFabric_SetLatencyDist_def NetworkFabric_SetDropRate_def
      NetworkFabric_AddPartition_def NetworkFabric_RemovePartition_def NetworkFabric_ClearFaults_def
      NetworkFabric_Close_def split: option.splits list.splits)

lemma chan_offer_links [simp]: "fb_links (chan_offer m a f) = fb_links f"
  by (simp add: chan_offer_def split: option.splits)

lemma take_link:
  "fmlookup (fb_links (linkWorker_take k f)) k' = fmlookup (fb_links f) k' \<or>
   (\<exists>l tm rest. k' = k \<and> fmlookup (fb_links f) k = Some l \<and> lk_cur l = None \<and> lk_ch l = tm # rest \<and>
      fmlookup (fb_links (linkWorker_take k f)) k' = Some (l\<lparr>lk_cur := Some tm, lk_ch := rest\<rparr>))"
  by (auto simp: linkWorker_take_def split: option.splits list.splits)

lemma fire_link:
  "linkWorker_fire k now f = (f', tmo) \<Longrightarrow>
   (tmo = None \<and> f' = f) \<or>
   (\<exists>l tm. fmlookup (fb_links f) k = Some l \<and> lk_cur l = Some tm \<and> tmo = Some tm \<and>
      fb_links f' = fmupd k (l\<lparr>lk_cur := None\<rparr>) (fb_links f))"
  by (auto simp: linkWorker_fire_def Let_def split: option.splits if_splits)

definition link_or_new :: "link option \<Rightarrow> link" where
  "link_or_new lo = (case lo of None \<Rightarrow> \<lparr>lk_ch = [], lk_cur = None, lk_lastAt = None\<rparr> | Some l \<Rightarrow> l)"

lemma send_link:
  assumes "NetworkFabric_Send now d msg f = (f', tmo)"
  defines "k \<equiv> link_key (m_SenderID msg) (m_TargetID msg)"
  shows "(f' = f \<and> tmo = None) \<or>
    (\<exists>due l. link_push due msg (link_or_new (fmlookup (fb_links f) k)) = (l, tmo) \<and> fb_links f' = fmupd k l (fb_links f))"
proof -
  obtain f1 lo where g: "NetworkFabric_getOrCreateLink (m_SenderID msg) (m_TargetID msg) f = (f1, lo)" by fastforce
  have g': "lo = None \<and> f1 = f \<or> lo = Some (link_or_new (fmlookup (fb_links f) k)) \<and> (\<forall>x. fmupd k x (fb_links f1) = fmupd k x (fb_links f))"
    using g by (auto simp: NetworkFabric_getOrCreateLink_def k_def [symmetric] link_or_new_def Let_def
        split: if_splits option.splits)
  show ?thesis
  proof (cases lo)
    case None
    then show ?thesis using assms(1) g g' by (auto simp: NetworkFabric_Send_def Let_def split: if_splits)
  next
    case (Some l)
    define due where "due = now + (case NetworkFabric_getLatencyModel (m_SenderID msg) (m_TargetID msg) f of
        Some model \<Rightarrow> latencyModel_sample model (dr_jitter d) (dr_tail d)
      | None \<Rightarrow> NetworkFabric_getLatency (m_SenderID msg) (m_TargetID msg) f) * 1000000"
    obtain l' tmo' where p: "link_push due msg l = (l', tmo')" by fastforce
    have l: "l = link_or_new (fmlookup (fb_links f) k)" "fmupd k l' (fb_links f1) = fmupd k l' (fb_links f)"
      using Some g' by auto
    have "f' = f \<and> tmo = None \<or> tmo = tmo' \<and> fb_links f' = fmupd k l' (fb_links f)"
      using assms(1) g Some p l(2) unfolding NetworkFabric_Send_def Let_def k_def [symmetric] due_def [symmetric]
      by (auto split: if_splits)
    then show ?thesis using p l(1) by metis
  qed
qed

lemma link_okI:
  "sent = fired @ pending (Some l) \<Longrightarrow> sorted (map tm_at sent) \<Longrightarrow> length (lk_ch l) \<le> 1024 \<Longrightarrow>
   lk_lastAt l = Some t \<Longrightarrow> \<forall>tm \<in> set sent. tm_at tm \<le> t \<Longrightarrow> link_ok sent fired (Some l)"
  unfolding link_ok_def option.case by simp

lemma push_ok:
  assumes "link_ok sent fired lo" and "link_push due msg (link_or_new lo) = (l, tmo)"
  shows "link_ok (sent @ (case tmo of None \<Rightarrow> [] | Some tm \<Rightarrow> [tm])) fired (Some l)"
proof -
  define l0 where "l0 = link_or_new lo"
  define due' where "due' = (case lk_lastAt l0 of None \<Rightarrow> due | Some t \<Rightarrow> if due < t then t else due)"
  have "link_ok sent fired (Some l0)"
    using assms(1) by (cases lo) (auto simp: link_ok_def link_or_new_def l0_def pending_def)
  then have ok: "sent = fired @ pending (Some l0)" "sorted (map tm_at sent)" "length (lk_ch l0) \<le> 1024"
    "case lk_lastAt l0 of None \<Rightarrow> sent = [] | Some t \<Rightarrow> \<forall>tm \<in> set sent. tm_at tm \<le> t"
    unfolding link_ok_def option.case by blast+
  have le: "\<forall>tm \<in> set sent. tm_at tm \<le> due'"
    using ok(4) by (cases "lk_lastAt l0") (auto simp: due'_def dest: bspec)
  consider "tmo = Some \<lparr>tm_msg = msg, tm_at = due'\<rparr>"
      "l = l0\<lparr>lk_lastAt := Some due', lk_ch := lk_ch l0 @ [\<lparr>tm_msg = msg, tm_at = due'\<rparr>]\<rparr>" "length (lk_ch l0) < 1024"
    | "tmo = None" "l = l0\<lparr>lk_lastAt := Some due'\<rparr>"
    using assms(2) unfolding link_push_def Let_def l0_def [symmetric] due'_def [symmetric] by (auto split: if_splits)
  then show ?thesis
  proof cases
    case 1
    have "link_ok (sent @ [\<lparr>tm_msg = msg, tm_at = due'\<rparr>]) fired (Some l)"
    proof (rule link_okI)
      show "sent @ [\<lparr>tm_msg = msg, tm_at = due'\<rparr>] = fired @ pending (Some l)"
        using ok(1) 1(2) by (simp add: pending_def)
    qed (use ok(2) le 1 in \<open>auto simp: sorted_append\<close>)
    then show ?thesis by (simp add: 1(1))
  next
    case 2
    have "link_ok sent fired (Some l)"
    proof (rule link_okI)
      show "sent = fired @ pending (Some l)" using ok(1) 2(2) by (simp add: pending_def)
    qed (use ok(2,3) le 2 in auto)
    then show ?thesis by (simp add: 2(1))
  qed
qed

lemma take_ok:
  "link_ok sent fired (Some l) \<Longrightarrow> lk_cur l = None \<Longrightarrow> lk_ch l = tm # rest \<Longrightarrow>
   link_ok sent fired (Some (l\<lparr>lk_cur := Some tm, lk_ch := rest\<rparr>))"
  by (auto simp: link_ok_def pending_def)

lemma fire_ok:
  "link_ok sent fired (Some l) \<Longrightarrow> lk_cur l = Some tm \<Longrightarrow> link_ok sent (fired @ [tm]) (Some (l\<lparr>lk_cur := None\<rparr>))"
  by (auto simp: link_ok_def pending_def)

lemma fabric_inv_call: "fabric_inv h \<Longrightarrow> fabric_inv (fabric_call c h)"
proof -
  assume inv: "fabric_inv h"
  then have ok: "link_ok (on_link k (hs_sent h)) (on_link k (hs_fired h)) (fmlookup (fb_links (hs_fabric h)) k)" for k
    by (simp add: fabric_inv_def)
  show ?thesis
  proof (cases c)
    case (FSend now d msg)
    define k where "k = link_key (m_SenderID msg) (m_TargetID msg)"
    obtain f' tmo where s: "NetworkFabric_Send now d msg (hs_fabric h) = (f', tmo)" by fastforce
    from send_link [OF s] consider "f' = hs_fabric h" "tmo = None"
      | due l where "link_push due msg (link_or_new (fmlookup (fb_links (hs_fabric h)) k)) = (l, tmo)"
          "fb_links f' = fmupd k l (fb_links (hs_fabric h))" unfolding k_def by blast
    then show ?thesis
    proof cases
      case 1
      then show ?thesis using ok by (simp add: FSend s fabric_inv_def)
    next
      case 2
      from push_ok [OF ok 2(1)] show ?thesis using ok by (simp add: FSend s fabric_inv_def 2 k_def [symmetric])
    qed
  next
    case (FTake k)
    have "link_ok (on_link k' (hs_sent h)) (on_link k' (hs_fired h)) (fmlookup (fb_links (linkWorker_take k (hs_fabric h))) k')" for k'
      using take_link [of k "hs_fabric h" k'] ok [of k'] take_ok by auto
    then show ?thesis by (simp add: FTake fabric_inv_def)
  next
    case (FFire k now)
    obtain f' tmo where s: "linkWorker_fire k now (hs_fabric h) = (f', tmo)" by fastforce
    from fire_link [OF s] consider "tmo = None" "f' = hs_fabric h"
      | l tm where "fmlookup (fb_links (hs_fabric h)) k = Some l" "lk_cur l = Some tm" "tmo = Some tm"
          "fb_links f' = fmupd k (l\<lparr>lk_cur := None\<rparr>) (fb_links (hs_fabric h))" by blast
    then show ?thesis
    proof cases
      case 1
      then show ?thesis using ok by (simp add: FFire s fabric_inv_def)
    next
      case 2
      from fire_ok [OF ok [of k, unfolded 2(1)] 2(2)] show ?thesis using ok by (simp add: FFire s fabric_inv_def 2)
    qed
  qed (use inv in \<open>simp_all add: fabric_inv_def del: config_call.simps\<close>)
qed

lemma fabric_inv_run: "fabric_inv (fold fabric_call cs h)" if "fabric_inv h"
  using that by (induction cs arbitrary: h) (auto simp: fabric_inv_call)


text \<open>A blocked, unknown or closed destination takes nothing.\<close>

lemma send_blocked:
  "NetworkFabric_isPartitioned (m_SenderID msg) (m_TargetID msg) f \<or> fmlookup (fb_nodes f) (m_TargetID msg) = None \<Longrightarrow>
   NetworkFabric_Send now d msg f = (f, None)"
  by (auto simp: NetworkFabric_Send_def Let_def)

lemma blocks_sym: "Partition_Blocks p a b = Partition_Blocks p b a"
  by (auto simp: Partition_Blocks_def Let_def)

lemma partition_sym: "NetworkFabric_isPartitioned a b f = NetworkFabric_isPartitioned b a f"
  unfolding NetworkFabric_isPartitioned_def blocks_sym [of _ a b] ..

lemma sample_nonneg: "0 \<le> latencyModel_sample m draw roll"
  by (simp add: latencyModel_sample_def Let_def)

end
