(* ===== verification/NodeBase.thy ===== *)
theory NodeBase
  imports Store ReplLog HLC Metrics EventBus Fabric
begin

text \<open>
  What every node kind shares, \<open>internal/node/node.go\<close> and \<open>base.go\<close>. The node kinds extend the
  record \<open>BaseNode\<close>; its methods work on every extension. Calls that leave the node (a send on the
  fabric, an event on the bus) are collected as a list of actions, in the order they are made.
  The context of the goroutines is not part of the state: a stopped node is \<open>StateOffline\<close>.
\<close>

datatype ReplicationStrategy = StrategySingleLeader | StrategyMultiLeader | StrategyLeaderless | StrategyRaft

datatype NodeRole = RoleLeader | RoleFollower | RoleReplica | RolePrimary

datatype NodeState = StateOnline | StateOffline | StatePaused

datatype EvtValue = EStr string | ENum int | EStrs "string list" | EBool bool | EClock "vclock option"

type_synonym EvtData = "(string, EvtValue) fmap"

datatype Action = Send Message | Publish "EvtData Event"

fun sent_of :: "Action list \<Rightarrow> Message list" where
  "sent_of [] = []"
| "sent_of (Send m # as) = m # sent_of as"
| "sent_of (Publish e # as) = sent_of as"

lemma sent_of_append [simp]: "sent_of (as @ bs) = sent_of as @ sent_of bs"
  by (induction as rule: sent_of.induct) simp_all

lemma sent_of_map [simp]: "sent_of (map (\<lambda>x. Send (f x)) xs) = map f xs"
  by (induction xs) simp_all

text \<open>\<open>fabric.Broadcast\<close>: one send per peer.\<close>

definition broadcast :: "Message \<Rightarrow> node_id list \<Rightarrow> Action list" where
  "broadcast msg peers = map (\<lambda>p. Send (msg\<lparr>m_TargetID := p\<rparr>)) peers"

lemma sent_of_broadcast [simp]: "sent_of (broadcast msg peers) = map (\<lambda>p. msg\<lparr>m_TargetID := p\<rparr>) peers"
  by (simp add: broadcast_def)

text \<open>A buffered channel: a send that does not block, and a receive.\<close>

record 'a GoChan =
  ch_buf :: "'a list"
  ch_cap :: nat

definition chan_make :: "nat \<Rightarrow> 'a GoChan" where
  "chan_make cap = \<lparr>ch_buf = [], ch_cap = cap\<rparr>"

definition chan_try :: "'a \<Rightarrow> 'a GoChan \<Rightarrow> 'a GoChan" where
  "chan_try x c = (if length (ch_buf c) < ch_cap c then c\<lparr>ch_buf := ch_buf c @ [x]\<rparr> else c)"

definition chan_recv :: "'a GoChan \<Rightarrow> ('a \<times> 'a GoChan) option" where
  "chan_recv c = (case ch_buf c of [] \<Rightarrow> None | x # xs \<Rightarrow> Some (x, c\<lparr>ch_buf := xs\<rparr>))"

lemma chan_simps [simp]:
  "ch_buf (chan_make cap) = []"
  "set (ch_buf (chan_try x c)) \<subseteq> insert x (set (ch_buf c))"
  by (auto simp: chan_make_def chan_try_def)

lemma chan_recv_Some: "chan_recv c = Some (x, c') \<longleftrightarrow> ch_buf c = x # ch_buf c' \<and> c' = c\<lparr>ch_buf := ch_buf c'\<rparr>"
  by (cases c; cases c') (auto simp: chan_recv_def split: list.splits)

record NodeStatus =
  ns_ID :: node_id
  ns_ClusterID :: string
  ns_Strategy :: ReplicationStrategy
  ns_Role :: NodeRole
  ns_State :: NodeState
  ns_CommitIndex :: nat
  ns_LastApplied :: nat
  ns_LeaderID :: node_id
  ns_Peers :: "node_id list"
  ns_Lag :: int

record BaseNode =
  bn_id :: node_id
  bn_clusterID :: string
  bn_strategy :: ReplicationStrategy
  bn_role :: NodeRole
  bn_state :: NodeState
  bn_peers :: "node_id list"
  bn_store :: Store
  bn_log :: ReplicationLog
  bn_metrics :: NodeMetrics
  bn_hlc :: HLC
  bn_commitIndex :: nat
  bn_lastApplied :: nat
  bn_leaderID :: node_id

definition newBaseNode :: "node_id \<Rightarrow> string \<Rightarrow> ReplicationStrategy \<Rightarrow> NodeRole \<Rightarrow> BaseNode" where
  "newBaseNode i clusterID strategy role =
     \<lparr>bn_id = i, bn_clusterID = clusterID, bn_strategy = strategy, bn_role = role, bn_state = StateOnline,
      bn_peers = [], bn_store = NewStore, bn_log = NewReplicationLog,
      bn_metrics = (NewNodeMetrics i)\<lparr>nm_IsLeader := (role = RoleLeader \<or> role = RolePrimary)\<rparr>,
      bn_hlc = NewHLC, bn_commitIndex = 0, bn_lastApplied = 0, bn_leaderID = []\<rparr>"

definition BaseNode_HLCNow :: "int \<Rightarrow> 'a BaseNode_scheme \<Rightarrow> 'a BaseNode_scheme \<times> int" where
  "BaseNode_HLCNow now b = (let (h, ts) = HLC_Now (bn_hlc b) now in (b\<lparr>bn_hlc := h\<rparr>, ts))"

definition BaseNode_HLCUpdate :: "int \<Rightarrow> int \<Rightarrow> 'a BaseNode_scheme \<Rightarrow> 'a BaseNode_scheme \<times> int" where
  "BaseNode_HLCUpdate now remote b = (let (h, ts) = HLC_Update (bn_hlc b) now remote in (b\<lparr>bn_hlc := h\<rparr>, ts))"

definition BaseNode_SetClockSkewMillis :: "int \<Rightarrow> 'a BaseNode_scheme \<Rightarrow> 'a BaseNode_scheme" where
  "BaseNode_SetClockSkewMillis ms b = b\<lparr>bn_hlc := HLC_SetSkewMillis (bn_hlc b) ms\<rparr>"

definition BaseNode_setRole :: "NodeRole \<Rightarrow> 'a BaseNode_scheme \<Rightarrow> 'a BaseNode_scheme" where
  "BaseNode_setRole r b =
     b\<lparr>bn_role := r, bn_metrics := NodeMetrics_SetLeader (r = RoleLeader \<or> r = RolePrimary) (bn_metrics b)\<rparr>"

fun role_string :: "NodeRole \<Rightarrow> string" where
  "role_string RoleLeader = ''leader''"
| "role_string RoleFollower = ''follower''"
| "role_string RoleReplica = ''replica''"
| "role_string RolePrimary = ''primary''"

fun state_string :: "NodeState \<Rightarrow> string" where
  "state_string StateOnline = ''online''"
| "state_string StateOffline = ''offline''"
| "state_string StatePaused = ''paused''"

definition BaseNode_publishEvent :: "int \<Rightarrow> EventType \<Rightarrow> EvtData \<Rightarrow> 'a BaseNode_scheme \<Rightarrow> Action" where
  "BaseNode_publishEvent now t data b =
     Publish \<lparr>ev_Type = t, ev_ClusterID = bn_clusterID b, ev_NodeID = bn_id b, ev_Timestamp = Some now, ev_Data = data\<rparr>"

definition BaseNode_publishStateChange :: "int \<Rightarrow> 'a BaseNode_scheme \<Rightarrow> Action" where
  "BaseNode_publishStateChange now b =
     Publish \<lparr>ev_Type = EvtNodeStateChanged, ev_ClusterID = bn_clusterID b, ev_NodeID = bn_id b, ev_Timestamp = Some now,
       ev_Data = fmap_of_list [(''role'', EStr (role_string (bn_role b))), (''state'', EStr (state_string (bn_state b)))]\<rparr>"

definition BaseNode_Pause :: "int \<Rightarrow> 'a BaseNode_scheme \<Rightarrow> 'a BaseNode_scheme \<times> Action list" where
  "BaseNode_Pause now b =
     (let b' = b\<lparr>bn_state := StatePaused, bn_metrics := NodeMetrics_SetOnline False (bn_metrics b)\<rparr>
      in (b', [BaseNode_publishStateChange now b']))"

definition BaseNode_Resume :: "int \<Rightarrow> 'a BaseNode_scheme \<Rightarrow> 'a BaseNode_scheme \<times> Action list" where
  "BaseNode_Resume now b =
     (let b' = b\<lparr>bn_state := StateOnline, bn_metrics := NodeMetrics_SetOnline True (bn_metrics b)\<rparr>
      in (b', [BaseNode_publishStateChange now b']))"

definition BaseNode_Stop :: "'a BaseNode_scheme \<Rightarrow> 'a BaseNode_scheme" where
  "BaseNode_Stop b = b\<lparr>bn_state := StateOffline, bn_metrics := NodeMetrics_SetOnline False (bn_metrics b)\<rparr>"

definition BaseNode_isPaused :: "'a BaseNode_scheme \<Rightarrow> bool" where
  "BaseNode_isPaused b = (bn_state b = StatePaused \<or> bn_state b = StateOffline)"

fun mem_loop :: "node_id \<Rightarrow> node_id list \<Rightarrow> bool" where
  "mem_loop x [] = False"
| "mem_loop x (p # ps) = (if p = x then True else mem_loop x ps)"

definition BaseNode_AddPeer :: "node_id \<Rightarrow> 'a BaseNode_scheme \<Rightarrow> 'a BaseNode_scheme" where
  "BaseNode_AddPeer nodeID b = (if mem_loop nodeID (bn_peers b) then b else b\<lparr>bn_peers := bn_peers b @ [nodeID]\<rparr>)"

definition BaseNode_RemovePeer :: "node_id \<Rightarrow> 'a BaseNode_scheme \<Rightarrow> 'a BaseNode_scheme" where
  "BaseNode_RemovePeer nodeID b = b\<lparr>bn_peers := filter (\<lambda>p. p \<noteq> nodeID) (bn_peers b)\<rparr>"

definition BaseNode_GetPeers :: "'a BaseNode_scheme \<Rightarrow> node_id list" where
  "BaseNode_GetPeers b = bn_peers b"

definition BaseNode_GetState :: "'a BaseNode_scheme \<Rightarrow> NodeStatus" where
  "BaseNode_GetState b =
     \<lparr>ns_ID = bn_id b, ns_ClusterID = bn_clusterID b, ns_Strategy = bn_strategy b, ns_Role = bn_role b,
      ns_State = bn_state b, ns_CommitIndex = bn_commitIndex b, ns_LastApplied = bn_lastApplied b,
      ns_LeaderID = bn_leaderID b, ns_Peers = bn_peers b, ns_Lag = NodeMetrics_Lag (bn_metrics b)\<rparr>"

definition BaseNode_GetLag :: "'a BaseNode_scheme \<Rightarrow> int" where
  "BaseNode_GetLag b = NodeMetrics_Lag (bn_metrics b)"

section \<open>Peers are a set\<close>

lemma mem_loop_iff [simp]: "mem_loop x ps \<longleftrightarrow> x \<in> set ps"
  by (induction ps) auto

lemma set_AddPeer: "set (bn_peers (BaseNode_AddPeer i b)) = insert i (set (bn_peers b))"
  by (auto simp: BaseNode_AddPeer_def)

lemma set_RemovePeer: "set (bn_peers (BaseNode_RemovePeer i b)) = set (bn_peers b) - {i}"
  by (auto simp: BaseNode_RemovePeer_def)

lemma distinct_peers:
  "distinct (bn_peers b) \<Longrightarrow> distinct (bn_peers (BaseNode_AddPeer i b)) \<and> distinct (bn_peers (BaseNode_RemovePeer i b))"
  by (simp add: BaseNode_AddPeer_def BaseNode_RemovePeer_def)

lemma fold_AddPeer: "fold BaseNode_AddPeer ps b = b\<lparr>bn_peers := fold (\<lambda>i xs. if i \<in> set xs then xs else xs @ [i]) ps (bn_peers b)\<rparr>"
  by (induction ps arbitrary: b) (auto simp: BaseNode_AddPeer_def)

lemma fold_AddPeer_distinct:
  "distinct ps \<Longrightarrow> set ps \<inter> set xs = {} \<Longrightarrow> fold (\<lambda>i xs. if i \<in> set xs then xs else xs @ [i]) ps xs = xs @ ps"
  by (induction ps arbitrary: xs) auto

text \<open>Role and metrics agree: the flag the metrics show is the role of the node.\<close>

lemma setRole_fields [simp]:
  "bn_role (BaseNode_setRole r b) = r" "bn_id (BaseNode_setRole r b) = bn_id b" "bn_log (BaseNode_setRole r b) = bn_log b"
  "bn_store (BaseNode_setRole r b) = bn_store b" "bn_peers (BaseNode_setRole r b) = bn_peers b"
  "bn_state (BaseNode_setRole r b) = bn_state b" "bn_hlc (BaseNode_setRole r b) = bn_hlc b"
  "bn_clusterID (BaseNode_setRole r b) = bn_clusterID b"
  "BaseNode.more (BaseNode_setRole r b) = BaseNode.more b"
  by (simp_all add: BaseNode_setRole_def)

end
