(* ===== verification/Raft.thy ===== *)
theory Raft
  imports NodeBase
begin

text \<open>
  The Raft node of \<open>internal/node/raft.go\<close>. Every method is one function from the node to the node and
  the actions it takes, or \<open>None\<close> where a log access would panic. The wall clock (\<open>now\<close>), the draw
  of the election timeout and the JSON codec of snapshots are arguments. A method runs to its end before
  the next one on the same node starts; a client call is cut where it waits: \<open>RaftNode_propose\<close> is the
  part up to the wait of \<open>proposeAndWait\<close>, \<open>RaftNode_committed\<close> the poll. The heartbeat that
  \<open>becomeLeaderLocked\<close> starts in the background is a later call of \<open>RaftNode_maybeHeartbeat\<close>.
\<close>

datatype raftRole = roleFollower | roleCandidate | roleLeader

record RaftNode = BaseNode +
  rn_currentTerm :: nat
  rn_votedFor :: node_id
  rn_role :: raftRole
  rn_raftLeader :: node_id
  rn_votes :: nat
  rn_lastHeard :: int
  rn_timeout :: int
  rn_nextIndex :: "(node_id, nat) fmap"
  rn_matchIndex :: "(node_id, nat) fmap"
  rn_applied :: nat

definition RaftNode_resetTimeout :: "int \<Rightarrow> RaftNode \<Rightarrow> RaftNode" where
  "RaftNode_resetTimeout draw n = n\<lparr>rn_timeout := (150 + draw) * 1000000\<rparr>"

definition RaftNode_touch :: "int \<Rightarrow> RaftNode \<Rightarrow> RaftNode" where
  "RaftNode_touch now n = n\<lparr>rn_lastHeard := now\<rparr>"

definition NewRaftNode :: "node_id \<Rightarrow> string \<Rightarrow> int \<Rightarrow> int \<Rightarrow> RaftNode" where
  "NewRaftNode i clusterID now draw =
     RaftNode_touch now (RaftNode_resetTimeout draw
       (BaseNode.extend (newBaseNode i clusterID StrategyRaft RoleFollower)
          (RaftNode.fields 0 [] roleFollower [] 0 0 0 fmempty fmempty 0)))"

definition RaftNode_majority :: "RaftNode \<Rightarrow> nat" where
  "RaftNode_majority n = (length (BaseNode_GetPeers n) + 1) div 2 + 1"

definition RaftNode_stepDownLocked :: "nat \<Rightarrow> RaftNode \<Rightarrow> RaftNode" where
  "RaftNode_stepDownLocked newTerm n =
     n\<lparr>rn_currentTerm := newTerm, rn_role := roleFollower, rn_votedFor := [], rn_raftLeader := []\<rparr>"

section \<open>Elections\<close>

definition RaftNode_maybeElect :: "int \<Rightarrow> int \<Rightarrow> RaftNode \<Rightarrow> (RaftNode \<times> Action list) option" where
  "RaftNode_maybeElect now draw n =
     (if rn_role n = roleLeader \<or> now - rn_lastHeard n < rn_timeout n then Some (n, [])
      else (let n1 = RaftNode_touch now (RaftNode_resetTimeout draw
                (n\<lparr>rn_currentTerm := rn_currentTerm n + 1, rn_role := roleCandidate, rn_votedFor := bn_id n,
                   rn_votes := 1, rn_raftLeader := []\<rparr>));
                term = rn_currentTerm n1
            in Option.bind (Log_LastIndexTerm (bn_log n1)) (\<lambda>(lastIdx, lastTerm).
                 Some (n1, map (\<lambda>p. Send ((msg_of MsgVoteRequest (bn_id n1) p)
                     \<lparr>m_Term := term, m_LastLogIndex := lastIdx, m_LastLogTerm := lastTerm\<rparr>)) (BaseNode_GetPeers n1)))))"

definition RaftNode_handleVoteRequest :: "int \<Rightarrow> Message \<Rightarrow> RaftNode \<Rightarrow> (RaftNode \<times> Action list) option" where
  "RaftNode_handleVoteRequest now msg n =
     (let n1 = (if m_Term msg > rn_currentTerm n then RaftNode_stepDownLocked (m_Term msg) n else n) in
      Option.bind
        (if m_Term msg = rn_currentTerm n1 \<and> (rn_votedFor n1 = [] \<or> rn_votedFor n1 = m_SenderID msg)
         then Option.bind (Log_LastIndexTerm (bn_log n1)) (\<lambda>(myIdx, myTerm).
                let upToDate = (m_LastLogTerm msg > myTerm \<or> (m_LastLogTerm msg = myTerm \<and> m_LastLogIndex msg \<ge> myIdx))
                in if upToDate then Some (RaftNode_touch now (n1\<lparr>rn_votedFor := m_SenderID msg\<rparr>), True) else Some (n1, False))
         else Some (n1, False))
        (\<lambda>(n2, grant). Some (n2, [Send ((msg_of MsgVoteResponse (bn_id n2) (m_SenderID msg))
                                  \<lparr>m_Term := rn_currentTerm n2, m_VoteGranted := grant\<rparr>)])))"

definition RaftNode_becomeLeaderLocked :: "int \<Rightarrow> RaftNode \<Rightarrow> RaftNode \<times> Action list" where
  "RaftNode_becomeLeaderLocked now n =
     (let n1 = n\<lparr>rn_role := roleLeader, rn_raftLeader := bn_id n\<rparr>;
          last = Log_LastIndex (bn_log n1);
          n2 = fold (\<lambda>p n. n\<lparr>rn_nextIndex := fmupd p (last + 1) (rn_nextIndex n),
                             rn_matchIndex := fmupd p 0 (rn_matchIndex n)\<rparr>) (BaseNode_GetPeers n1) n1;
          n3 = BaseNode_setRole RoleLeader n2
      in (n3, [BaseNode_publishEvent now EvtLeaderElected
                (fmap_of_list [(''leader'', EStr (bn_id n3)), (''term'', ENum (int (rn_currentTerm n3)))]) n3]))"

definition RaftNode_handleVoteResponse :: "int \<Rightarrow> Message \<Rightarrow> RaftNode \<Rightarrow> RaftNode \<times> Action list" where
  "RaftNode_handleVoteResponse now msg n =
     (if m_Term msg > rn_currentTerm n then (RaftNode_stepDownLocked (m_Term msg) n, [])
      else if rn_role n \<noteq> roleCandidate \<or> m_Term msg \<noteq> rn_currentTerm n then (n, [])
      else if m_VoteGranted msg then
        (let n1 = n\<lparr>rn_votes := rn_votes n + 1\<rparr>
         in if rn_votes n1 \<ge> RaftNode_majority n1 then RaftNode_becomeLeaderLocked now n1 else (n1, []))
      else (n, []))"

section \<open>Replication\<close>

definition RaftNode_sendSnapshot :: "((string, KVEntry) fmap \<Rightarrow> string) \<Rightarrow> node_id \<Rightarrow> nat \<Rightarrow> RaftNode \<Rightarrow> Action list" where
  "RaftNode_sendSnapshot jm peer term n =
     (let (snapIdx, snapTerm) = Log_SnapshotBoundary (bn_log n)
      in [Send ((msg_of MsgInstallSnap (bn_id n) peer)\<lparr>m_Term := term, m_PrevLogIndex := snapIdx,
            m_PrevLogTerm := snapTerm, m_Snapshot := Store_SnapshotBytes jm (bn_store n)\<rparr>)])"

definition RaftNode_sendAppend :: "((string, KVEntry) fmap \<Rightarrow> string) \<Rightarrow> node_id \<Rightarrow> RaftNode \<Rightarrow> Action list option" where
  "RaftNode_sendAppend jm peer n =
     (if rn_role n \<noteq> roleLeader then Some []
      else (let term = rn_currentTerm n;
                ni = (if zget (rn_nextIndex n) peer = 0 then 1 else zget (rn_nextIndex n) peer);
                prevIndex = ni - 1;
                (snapIdx, _) = Log_SnapshotBoundary (bn_log n)
            in if prevIndex < snapIdx then Some (RaftNode_sendSnapshot jm peer term n)
               else Option.bind (Log_TermAt (bn_log n) prevIndex) (\<lambda>prevTerm.
                    Option.bind (Log_GetFrom (bn_log n) ni) (\<lambda>entries.
                      Some [Send ((msg_of MsgAppendEntries (bn_id n) peer)\<lparr>m_Term := term, m_PrevLogIndex := prevIndex,
                        m_PrevLogTerm := prevTerm, m_Entries := entries, m_LeaderCommit := Log_CommitIndex (bn_log n)\<rparr>)]))))"

fun sendAppend_all :: "((string, KVEntry) fmap \<Rightarrow> string) \<Rightarrow> node_id list \<Rightarrow> RaftNode \<Rightarrow> Action list option" where
  "sendAppend_all jm [] n = Some []"
| "sendAppend_all jm (p # ps) n =
     Option.bind (RaftNode_sendAppend jm p n) (\<lambda>as. Option.bind (sendAppend_all jm ps n) (\<lambda>bs. Some (as @ bs)))"

definition RaftNode_maybeHeartbeat :: "((string, KVEntry) fmap \<Rightarrow> string) \<Rightarrow> RaftNode \<Rightarrow> Action list option" where
  "RaftNode_maybeHeartbeat jm n =
     (if rn_role n \<noteq> roleLeader then Some [] else sendAppend_all jm (BaseNode_GetPeers n) n)"

definition RaftNode_maybeCompact :: "RaftNode \<Rightarrow> RaftNode option" where
  "RaftNode_maybeCompact n =
     (let (snapIdx, _) = Log_SnapshotBoundary (bn_log n); applied = rn_applied n
      in if applied \<le> snapIdx \<or> applied - snapIdx \<le> 30 then Some n
         else Option.bind (Log_TermAt (bn_log n) applied) (\<lambda>term.
              if term = 0 then Some n
              else map_option (\<lambda>l. n\<lparr>bn_log := l\<rparr>) (Log_Compact (bn_log n) applied term)))"

definition kv_of_entry :: "LogEntry \<Rightarrow> KVEntry" where
  "kv_of_entry e =
     \<lparr>kv_Key = le_Key e, kv_Value = le_Value e, kv_VClock = le_VClock e, kv_Timestamp = le_Timestamp e,
      kv_NodeID = le_OriginID e, kv_Tombstone = (le_Op e = OpDelete), kv_Version = le_Index e\<rparr>"

function apply_loop :: "nat \<Rightarrow> nat \<Rightarrow> RaftNode \<Rightarrow> RaftNode option" where
  "apply_loop i hi n =
     (if i \<le> hi then
        (case Log_Get (bn_log n) i of
           None \<Rightarrow> None
         | Some None \<Rightarrow> Some n
         | Some (Some e) \<Rightarrow>
             apply_loop (i + 1) hi (n\<lparr>bn_store := Store_Set (bn_store n) (kv_of_entry e), rn_applied := i\<rparr>))
      else Some n)"
  by pat_completeness auto
termination
  by (relation "measure (\<lambda>(i, hi, n). hi + 1 - i)") auto

declare apply_loop.simps [simp del]

definition RaftNode_applyCommitted :: "nat \<Rightarrow> RaftNode \<Rightarrow> RaftNode option" where
  "RaftNode_applyCommitted hi n = apply_loop (rn_applied n + 1) hi n"

text \<open>
  \<open>advance_loop\<close> runs \<open>N\<close> down to \<open>commit\<close>; \<open>replica_count\<close> is the inner loop.
\<close>

definition replica_count :: "nat \<Rightarrow> RaftNode \<Rightarrow> nat" where
  "replica_count N n = fold (\<lambda>p count. if zget (rn_matchIndex n) p \<ge> N then count + 1 else count) (BaseNode_GetPeers n) 1"

fun advance_loop :: "nat \<Rightarrow> nat \<Rightarrow> RaftNode \<Rightarrow> RaftNode option" where
  "advance_loop commit 0 n = Some n"
| "advance_loop commit (Suc N') n =
     (let N = Suc N' in
      if N > commit then
        Option.bind (Log_TermAt (bn_log n) N) (\<lambda>t.
          if t \<noteq> rn_currentTerm n then advance_loop commit N' n
          else if replica_count N n \<ge> RaftNode_majority n
               then RaftNode_applyCommitted N (n\<lparr>bn_log := Log_SetCommitIndex (bn_log n) N\<rparr>)
               else advance_loop commit N' n)
      else Some n)"

definition RaftNode_advanceCommitLocked :: "RaftNode \<Rightarrow> RaftNode option" where
  "RaftNode_advanceCommitLocked n = advance_loop (Log_CommitIndex (bn_log n)) (Log_LastIndex (bn_log n)) n"

text \<open>The common head of \<open>handleAppendEntries\<close> and \<open>handleInstallSnap\<close>: a current leader is heard.\<close>

definition accept_leader :: "int \<Rightarrow> Message \<Rightarrow> RaftNode \<Rightarrow> RaftNode" where
  "accept_leader now msg n =
     (let n1 = (if m_Term msg > rn_currentTerm n then RaftNode_stepDownLocked (m_Term msg) n else n);
          n2 = n1\<lparr>rn_role := roleFollower\<rparr>;
          n3 = (if rn_raftLeader n2 \<noteq> m_SenderID msg
                then BaseNode_setRole RoleFollower (n2\<lparr>rn_raftLeader := m_SenderID msg\<rparr>) else n2)
      in RaftNode_touch now n3)"

definition append_ack :: "RaftNode \<Rightarrow> Message \<Rightarrow> bool \<Rightarrow> nat \<Rightarrow> Action" where
  "append_ack n msg ok idx =
     Send ((msg_of MsgAppendAck (bn_id n) (m_SenderID msg))\<lparr>m_Term := rn_currentTerm n, m_Success := ok, m_ConflictIndex := idx\<rparr>)"

definition RaftNode_handleAppendEntries :: "int \<Rightarrow> Message \<Rightarrow> RaftNode \<Rightarrow> (RaftNode \<times> Action list) option" where
  "RaftNode_handleAppendEntries now msg n =
     (if m_Term msg < rn_currentTerm n then Some (n, [append_ack n msg False 0])
      else (let n1 = accept_leader now msg n in
        Option.bind (Log_Matches (bn_log n1) (m_PrevLogIndex msg) (m_PrevLogTerm msg)) (\<lambda>ok.
          if \<not> ok then Some (n1, [append_ack n1 msg False (Log_LastIndex (bn_log n1) + 1)])
          else Option.bind (Log_AppendAfter (bn_log n1) (m_PrevLogIndex msg) (m_Entries msg)) (\<lambda>(l, last).
            let n2 = n1\<lparr>bn_log := l\<rparr> in
            Option.bind
              (if m_LeaderCommit msg > Log_CommitIndex l
               then (let newCommit = (if last < m_LeaderCommit msg then last else m_LeaderCommit msg)
                     in RaftNode_applyCommitted newCommit (n2\<lparr>bn_log := Log_SetCommitIndex l newCommit\<rparr>))
               else Some n2)
              (\<lambda>n3. Some (n3, [append_ack n3 msg True last]))))))"

definition RaftNode_handleInstallSnap ::
  "(string \<Rightarrow> (string, KVEntry) fmap option) \<Rightarrow> int \<Rightarrow> Message \<Rightarrow> RaftNode \<Rightarrow> RaftNode \<times> Action list" where
  "RaftNode_handleInstallSnap ju now msg n =
     (if m_Term msg < rn_currentTerm n then (n, [append_ack n msg False 0])
      else (let n1 = accept_leader now msg n;
                snapIdx = m_PrevLogIndex msg; snapTerm = m_PrevLogTerm msg;
                (cur, _) = Log_SnapshotBoundary (bn_log n1);
                n2 = (if snapIdx > cur
                      then n1\<lparr>bn_store := (case Store_RestoreSnapshot ju (bn_store n1) (m_Snapshot msg) of
                                             None \<Rightarrow> bn_store n1 | Some s \<Rightarrow> s),
                              bn_log := Log_InstallSnapshot (bn_log n1) snapIdx snapTerm,
                              rn_applied := (if rn_applied n1 < snapIdx then snapIdx else rn_applied n1)\<rparr>
                      else n1)
            in (n2, [append_ack n2 msg True (Log_LastIndex (bn_log n2))])))"

definition RaftNode_handleAppendAck :: "Message \<Rightarrow> RaftNode \<Rightarrow> RaftNode option" where
  "RaftNode_handleAppendAck msg n =
     (if m_Term msg > rn_currentTerm n
      then Some (BaseNode_setRole RoleFollower (RaftNode_stepDownLocked (m_Term msg) n))
      else if rn_role n \<noteq> roleLeader then Some n
      else if m_Success msg
      then RaftNode_advanceCommitLocked
             (n\<lparr>rn_matchIndex := fmupd (m_SenderID msg) (m_ConflictIndex msg) (rn_matchIndex n),
                rn_nextIndex := fmupd (m_SenderID msg) (m_ConflictIndex msg + 1) (rn_nextIndex n)\<rparr>)
      else if zget (rn_nextIndex n) (m_SenderID msg) > 1
      then Some (n\<lparr>rn_nextIndex := fmupd (m_SenderID msg) (zget (rn_nextIndex n) (m_SenderID msg) - 1) (rn_nextIndex n)\<rparr>)
      else Some n)"

definition RaftNode_HandleMessage ::
  "(string \<Rightarrow> (string, KVEntry) fmap option) \<Rightarrow> int \<Rightarrow> Message \<Rightarrow> RaftNode \<Rightarrow> (RaftNode \<times> Action list) option" where
  "RaftNode_HandleMessage ju now msg n =
     (if BaseNode_isPaused n then Some (n, [])
      else case m_Type msg of
        MsgVoteRequest \<Rightarrow> RaftNode_handleVoteRequest now msg n
      | MsgVoteResponse \<Rightarrow> Some (RaftNode_handleVoteResponse now msg n)
      | MsgAppendEntries \<Rightarrow> RaftNode_handleAppendEntries now msg n
      | MsgAppendAck \<Rightarrow> map_option (\<lambda>n'. (n', [])) (RaftNode_handleAppendAck msg n)
      | MsgInstallSnap \<Rightarrow> Some (RaftNode_handleInstallSnap ju now msg n)
      | _ \<Rightarrow> Some (n, []))"

text \<open>The two tickers.\<close>

definition RaftNode_electTick :: "int \<Rightarrow> int \<Rightarrow> RaftNode \<Rightarrow> (RaftNode \<times> Action list) option" where
  "RaftNode_electTick now draw n =
     (if BaseNode_isPaused n then Some (RaftNode_touch now n, []) else RaftNode_maybeElect now draw n)"

definition RaftNode_beatTick :: "((string, KVEntry) fmap \<Rightarrow> string) \<Rightarrow> RaftNode \<Rightarrow> (RaftNode \<times> Action list) option" where
  "RaftNode_beatTick jm n =
     (if BaseNode_isPaused n then Some (n, [])
      else Option.bind (RaftNode_maybeHeartbeat jm n) (\<lambda>as. Option.bind (RaftNode_maybeCompact n) (\<lambda>n'. Some (n', as))))"

section \<open>Client calls\<close>

datatype RaftError = NodePaused node_id | NoLeaderYet | NotLeader node_id | CommitTimeout | RaftKeyNotFound string

text \<open>\<open>proposeAndWait\<close> up to the wait: the error, or the node, the index to wait for, and the sends.\<close>

definition RaftNode_propose ::
  "((string, KVEntry) fmap \<Rightarrow> string) \<Rightarrow> int \<Rightarrow> string \<Rightarrow> bytes \<Rightarrow> OpType \<Rightarrow> RaftNode \<Rightarrow>
     (RaftError + RaftNode \<times> nat \<times> Action list) option" where
  "RaftNode_propose jm now key val op n =
     (if rn_role n \<noteq> roleLeader
      then Some (Inl (if rn_raftLeader n = [] then NoLeaderYet else NotLeader (rn_raftLeader n)))
      else (let term = rn_currentTerm n;
                (n1, ts) = BaseNode_HLCNow now n;
                entry = \<lparr>le_Index = 0, le_Term = term, le_Key = key, le_Value = val, le_Op = op, le_Timestamp = ts,
                         le_OriginID = bn_id n, le_VClock = None\<rparr>;
                (l, idx) = Log_Append (bn_log n1) entry;
                n2 = n1\<lparr>bn_log := l, rn_matchIndex := fmupd (bn_id n1) idx (rn_matchIndex n1)\<rparr>
            in Option.bind (sendAppend_all jm (BaseNode_GetPeers n2) n2) (\<lambda>as. Some (Inr (n2, idx, as)))))"

definition RaftNode_committed :: "nat \<Rightarrow> RaftNode \<Rightarrow> bool" where
  "RaftNode_committed idx n = (Log_CommitIndex (bn_log n) \<ge> idx)"

definition RaftNode_Write ::
  "((string, KVEntry) fmap \<Rightarrow> string) \<Rightarrow> int \<Rightarrow> string \<Rightarrow> bytes \<Rightarrow> RaftNode \<Rightarrow> (RaftError + RaftNode \<times> nat \<times> Action list) option" where
  "RaftNode_Write jm now key val n =
     (if BaseNode_isPaused n then Some (Inl (NodePaused (bn_id n))) else RaftNode_propose jm now key val OpSet n)"

text \<open>The end of \<open>Write\<close>: the poll at \<open>idx\<close> succeeded, or the deadline passed.\<close>

definition RaftNode_Write_finish :: "int \<Rightarrow> string \<Rightarrow> nat \<Rightarrow> RaftNode \<Rightarrow> RaftError + RaftNode \<times> KVEntry option" where
  "RaftNode_Write_finish now key idx n =
     (if RaftNode_committed idx n
      then Inr (n\<lparr>bn_metrics := NodeMetrics_RecordWrite now 0 (bn_metrics n)\<rparr>, Store_Get (bn_store n) key)
      else Inl CommitTimeout)"

definition RaftNode_Delete ::
  "((string, KVEntry) fmap \<Rightarrow> string) \<Rightarrow> int \<Rightarrow> string \<Rightarrow> RaftNode \<Rightarrow> (RaftError + RaftNode \<times> nat \<times> Action list) option" where
  "RaftNode_Delete jm now key n =
     (if BaseNode_isPaused n then Some (Inl (NodePaused (bn_id n))) else RaftNode_propose jm now key None OpDelete n)"

definition RaftNode_Read :: "int \<Rightarrow> string \<Rightarrow> RaftNode \<Rightarrow> RaftError + RaftNode \<times> KVEntry" where
  "RaftNode_Read now key n =
     (if BaseNode_isPaused n then Inl (NodePaused (bn_id n))
      else if rn_role n \<noteq> roleLeader
      then Inl (if rn_raftLeader n = [] then NoLeaderYet else NotLeader (rn_raftLeader n))
      else (case Store_Get (bn_store n) key of
              None \<Rightarrow> Inl (RaftKeyNotFound key)
            | Some e \<Rightarrow> Inr (n\<lparr>bn_metrics := NodeMetrics_RecordRead now 0 (bn_metrics n)\<rparr>, e)))"

definition RaftNode_RaftLeader :: "RaftNode \<Rightarrow> node_id \<times> bool" where
  "RaftNode_RaftLeader n = (rn_raftLeader n, rn_role n = roleLeader)"

end
