(* ===== verification/RaftCluster.thy ===== *)
theory RaftCluster
  imports Raft
begin

text \<open>
  A cluster of Raft nodes, and what each method does to the parts of a node the safety proofs look at
  (theories \<open>RaftElection\<close> and \<open>RaftLog\<close>). The network is a multiset of messages in flight: the
  fabric delivers a message at most once, may delay it beyond others and may lose it (theory \<open>Fabric\<close>).
  A step is one method call on one node, a delivery or a loss. History variables record every vote
  and every leadership; \<open>rs_logs\<close> records, for the last entry of a leader's log, the whole log up to
  it (used by theory \<open>RaftLog\<close>).
\<close>

record RaftSys =
  rs_ids :: "node_id list"
  rs_node :: "node_id \<Rightarrow> RaftNode"
  rs_net :: "Message multiset"
  rs_voted :: "node_id \<times> nat \<rightharpoonup> node_id"
  rs_leaders :: "(nat \<times> node_id) set"
  rs_logs :: "nat \<times> nat \<rightharpoonup> LogEntry list"

text \<open>A cluster is made by creating the nodes and introducing each to all others.\<close>

definition init_node :: "string \<Rightarrow> int \<Rightarrow> (node_id \<Rightarrow> int) \<Rightarrow> node_id list \<Rightarrow> node_id \<Rightarrow> RaftNode" where
  "init_node cid now draw ids i = fold BaseNode_AddPeer (filter (\<lambda>j. j \<noteq> i) ids) (NewRaftNode i cid now (draw i))"

definition init_raft :: "string \<Rightarrow> int \<Rightarrow> (node_id \<Rightarrow> int) \<Rightarrow> node_id list \<Rightarrow> RaftSys" where
  "init_raft cid now draw ids =
     \<lparr>rs_ids = ids, rs_node = init_node cid now draw ids, rs_net = {#}, rs_voted = Map.empty, rs_leaders = {}, rs_logs = Map.empty\<rparr>"

definition note_log :: "RaftNode \<Rightarrow> (nat \<times> nat \<rightharpoonup> LogEntry list) \<Rightarrow> (nat \<times> nat \<rightharpoonup> LogEntry list)" where
  "note_log n H =
     (let es = rl_entries (bn_log n) in
      if rn_role n = roleLeader \<and> es \<noteq> [] \<and> le_Term (last es) = rn_currentTerm n
      then H((le_Index (last es), rn_currentTerm n) \<mapsto> es) else H)"

definition raft_update :: "node_id \<Rightarrow> RaftNode \<Rightarrow> Message multiset \<Rightarrow> Action list \<Rightarrow> RaftSys \<Rightarrow> RaftSys" where
  "raft_update i n' gone as s =
     s\<lparr>rs_node := (rs_node s)(i := n'), rs_net := rs_net s - gone + mset (sent_of as),
       rs_voted := (if rn_votedFor n' \<noteq> [] then (rs_voted s)((i, rn_currentTerm n') \<mapsto> rn_votedFor n') else rs_voted s),
       rs_leaders := (if rn_role n' = roleLeader then insert (rn_currentTerm n', i) (rs_leaders s) else rs_leaders s),
       rs_logs := note_log n' (rs_logs s)\<rparr>"

text \<open>The methods a step may call on a node, other than message delivery; \<open>CHeartbeat\<close> is the heartbeat a
  new leader sends from a goroutine of its own.\<close>

datatype RaftCall = CElect int int | CBeat | CHeartbeat | CWrite int string bytes | CDelete int string | CWriteFinish int string nat
  | CRead int string | CPause int | CResume int | CStop | CSkew int

definition of_client :: "(RaftError + RaftNode \<times> nat \<times> Action list) option \<Rightarrow> (RaftNode \<times> Action list) option" where
  "of_client r = (case r of Some (Inr (n, idx, as)) \<Rightarrow> Some (n, as) | _ \<Rightarrow> None)"

fun raft_call :: "((string, KVEntry) fmap \<Rightarrow> string) \<Rightarrow> RaftCall \<Rightarrow> RaftNode \<Rightarrow> (RaftNode \<times> Action list) option" where
  "raft_call jm (CElect now draw) n = RaftNode_electTick now draw n"
| "raft_call jm CBeat n = RaftNode_beatTick jm n"
| "raft_call jm CHeartbeat n = map_option (\<lambda>as. (n, as)) (RaftNode_maybeHeartbeat jm n)"
| "raft_call jm (CWrite now key val) n = of_client (RaftNode_Write jm now key val n)"
| "raft_call jm (CDelete now key) n = of_client (RaftNode_Delete jm now key n)"
| "raft_call jm (CWriteFinish now key idx) n = (case RaftNode_Write_finish now key idx n of Inl e \<Rightarrow> None | Inr (n', r) \<Rightarrow> Some (n', []))"
| "raft_call jm (CRead now key) n = (case RaftNode_Read now key n of Inl e \<Rightarrow> None | Inr (n', r) \<Rightarrow> Some (n', []))"
| "raft_call jm (CPause now) n = Some (BaseNode_Pause now n)"
| "raft_call jm (CResume now) n = Some (BaseNode_Resume now n)"
| "raft_call jm CStop n = Some (BaseNode_Stop n, [])"
| "raft_call jm (CSkew ms) n = Some (BaseNode_SetClockSkewMillis ms n, [])"

inductive raft_step ::
  "((string, KVEntry) fmap \<Rightarrow> string) \<Rightarrow> (string \<Rightarrow> (string, KVEntry) fmap option) \<Rightarrow> RaftSys \<Rightarrow> RaftSys \<Rightarrow> bool"
  for jm ju where
  call: "i \<in> set (rs_ids s) \<Longrightarrow> raft_call jm c (rs_node s i) = Some (n', as) \<Longrightarrow>
         raft_step jm ju s (raft_update i n' {#} as s)"
| deliver: "m \<in># rs_net s \<Longrightarrow> m_TargetID m \<in> set (rs_ids s) \<Longrightarrow>
            RaftNode_HandleMessage ju now m (rs_node s (m_TargetID m)) = Some (n', as) \<Longrightarrow>
            raft_step jm ju s (raft_update (m_TargetID m) n' {#m#} as s)"
| lose: "raft_step jm ju s (s\<lparr>rs_net := rs_net s - {#m#}\<rparr>)"

section \<open>What the methods leave alone\<close>

lemma frame_refl: "\<exists>st ap. n = n\<lparr>bn_store := st, rn_applied := ap\<rparr>"
  by (rule exI [of _ "bn_store n"], rule exI [of _ "rn_applied n"]) simp

lemma apply_loop_frame: "apply_loop i hi n = Some n' \<Longrightarrow> \<exists>st ap. n' = n\<lparr>bn_store := st, rn_applied := ap\<rparr>"
proof (induction i hi n rule: apply_loop.induct)
  case (1 i hi n)
  note unf = "1.prems" [unfolded apply_loop.simps [of i hi n]]
  show ?case
  proof (cases "i \<le> hi \<and> (\<exists>e. Log_Get (bn_log n) i = Some (Some e))")
    case True
    then obtain e where e: "i \<le> hi" "Log_Get (bn_log n) i = Some (Some e)" by blast
    then have "apply_loop (i + 1) hi (n\<lparr>bn_store := Store_Set (bn_store n) (kv_of_entry e), rn_applied := i\<rparr>) = Some n'"
      using unf by simp
    from "1.IH" [OF e(1) e(2) refl this] show ?thesis by auto
  next
    case False
    then have "n' = n" using unf by (auto split: option.splits if_splits)
    then show ?thesis using frame_refl by simp
  qed
qed

lemma applyCommitted_frame:
  "RaftNode_applyCommitted hi n = Some n' \<Longrightarrow> \<exists>st ap. n' = n\<lparr>bn_store := st, rn_applied := ap\<rparr>"
  unfolding RaftNode_applyCommitted_def by (rule apply_loop_frame)

lemma advance_loop_frame:
  "advance_loop commit N n = Some n' \<Longrightarrow>
   \<exists>ci st ap. n' = n\<lparr>bn_log := (bn_log n)\<lparr>rl_commitIndex := ci\<rparr>, bn_store := st, rn_applied := ap\<rparr>"
proof (induction N)
  case 0
  then have "n' = n\<lparr>bn_log := (bn_log n)\<lparr>rl_commitIndex := rl_commitIndex (bn_log n)\<rparr>, bn_store := bn_store n, rn_applied := rn_applied n\<rparr>"
    by simp
  then show ?case by blast
next
  case (Suc N)
  show ?case
  proof (cases "Suc N > commit")
    case True
    then obtain t where t: "Log_TermAt (bn_log n) (Suc N) = Some t" using Suc.prems by (auto simp: Let_def Option.bind_eq_Some_conv)
    show ?thesis
    proof (cases "t = rn_currentTerm n \<and> replica_count (Suc N) n \<ge> RaftNode_majority n")
      case commits: True
      then have "RaftNode_applyCommitted (Suc N) (n\<lparr>bn_log := Log_SetCommitIndex (bn_log n) (Suc N)\<rparr>) = Some n'"
        using Suc.prems True t by (simp add: Let_def)
      from applyCommitted_frame [OF this] obtain st ap where
        n': "n' = n\<lparr>bn_log := Log_SetCommitIndex (bn_log n) (Suc N), bn_store := st, rn_applied := ap\<rparr>" by auto
      have "\<exists>ci. Log_SetCommitIndex (bn_log n) (Suc N) = (bn_log n)\<lparr>rl_commitIndex := ci\<rparr>"
        unfolding Log_SetCommitIndex_def by (metis ReplicationLog.surjective ReplicationLog.update_convs(2))
      then show ?thesis using n' by metis
    next
      case False
      then have "advance_loop commit N n = Some n'" using Suc.prems True t by (auto simp: Let_def split: if_splits)
      then show ?thesis by (rule Suc.IH)
    qed
  next
    case False
    then have "n' = n\<lparr>bn_log := (bn_log n)\<lparr>rl_commitIndex := rl_commitIndex (bn_log n)\<rparr>, bn_store := bn_store n, rn_applied := rn_applied n\<rparr>"
      using Suc.prems by simp
    then show ?thesis by blast
  qed
qed

section \<open>Quiet methods\<close>

text \<open>
  Most methods neither vote nor count votes: they keep term, vote and vote count, or move to a later term
  as a follower without a vote, and they send no vote messages.
\<close>

definition vote_msg :: "Message \<Rightarrow> bool" where
  "vote_msg m \<longleftrightarrow> m_Type m = MsgVoteRequest \<or> m_Type m = MsgVoteResponse \<and> m_VoteGranted m"

definition same_vote :: "RaftNode \<Rightarrow> RaftNode \<Rightarrow> bool" where
  "same_vote n n' \<longleftrightarrow> bn_id n' = bn_id n \<and> bn_peers n' = bn_peers n \<and>
     (rn_currentTerm n' = rn_currentTerm n \<and> rn_votedFor n' = rn_votedFor n \<and> rn_votes n' = rn_votes n \<and>
        rn_role n' \<in> {rn_role n, roleFollower} \<or>
      rn_currentTerm n < rn_currentTerm n' \<and> rn_votedFor n' = [] \<and> rn_role n' = roleFollower)"

definition sends_ok :: "RaftNode \<Rightarrow> node_id set \<Rightarrow> Action list \<Rightarrow> bool" where
  "sends_ok n T as \<longleftrightarrow> (\<forall>m \<in> set (sent_of as). m_SenderID m = bn_id n \<and> m_TargetID m \<in> T)"

definition quiet :: "RaftNode \<Rightarrow> node_id set \<Rightarrow> RaftNode \<Rightarrow> Action list \<Rightarrow> bool" where
  "quiet n T n' as \<longleftrightarrow> same_vote n n' \<and> sends_ok n T as \<and> (\<forall>m \<in> set (sent_of as). \<not> vote_msg m)"

lemma msg_of_fields [simp]:
  "m_Type (msg_of t a b) = t" "m_SenderID (msg_of t a b) = a" "m_TargetID (msg_of t a b) = b" "m_VoteGranted (msg_of t a b) = False"
  by (simp_all add: msg_of_def)

lemma sendAppend_msgs:
  "RaftNode_sendAppend jm p n = Some as \<Longrightarrow>
   \<forall>m \<in> set (sent_of as). m_SenderID m = bn_id n \<and> m_TargetID m = p \<and> \<not> vote_msg m"
  by (auto simp: RaftNode_sendAppend_def RaftNode_sendSnapshot_def Let_def Log_SnapshotBoundary_def vote_msg_def
      Option.bind_eq_Some_conv split: if_splits)

lemma sendAppend_all_msgs:
  "sendAppend_all jm ps n = Some as \<Longrightarrow>
   \<forall>m \<in> set (sent_of as). m_SenderID m = bn_id n \<and> m_TargetID m \<in> set ps \<and> \<not> vote_msg m"
proof (induction ps arbitrary: as)
  case (Cons p ps)
  then obtain bs cs where "RaftNode_sendAppend jm p n = Some bs" "sendAppend_all jm ps n = Some cs" "as = bs @ cs"
    by (auto simp: Option.bind_eq_Some_conv)
  then show ?case using sendAppend_msgs [of jm p n bs] Cons.IH [of cs] by auto
qed simp

lemma accept_leader_vote: "rn_currentTerm n \<le> m_Term msg \<Longrightarrow> same_vote n (accept_leader now msg n)"
  by (auto simp: accept_leader_def same_vote_def RaftNode_stepDownLocked_def RaftNode_touch_def BaseNode_setRole_def Let_def)

lemma append_ack_ok [simp]: "sent_of [append_ack n msg ok idx] = [(msg_of MsgAppendAck (bn_id n) (m_SenderID msg))
    \<lparr>m_Term := rn_currentTerm n, m_Success := ok, m_ConflictIndex := idx\<rparr>]"
  by (simp add: append_ack_def)

lemma same_vote_refl [simp]: "same_vote n n"
  by (simp add: same_vote_def)

lemma same_vote_frame:
  "same_vote n n1 \<Longrightarrow> same_vote n (n1\<lparr>bn_log := l, bn_store := st, rn_applied := ap\<rparr>)"
  "same_vote n n1 \<Longrightarrow> same_vote n (n1\<lparr>bn_log := l\<rparr>)"
  "same_vote n n1 \<Longrightarrow> same_vote n (n1\<lparr>bn_store := st, rn_applied := ap\<rparr>)"
  by (simp_all add: same_vote_def)

lemma quiet_ack: "same_vote n n' \<Longrightarrow> m_SenderID msg \<in> T \<Longrightarrow> quiet n T n' [append_ack n' msg ok idx]"
  by (simp add: quiet_def sends_ok_def vote_msg_def) (simp add: same_vote_def)

text \<open>The log \<open>handleAppendEntries\<close> installs, and where the node is afterwards.\<close>

lemma appendEntries_cases:
  assumes "RaftNode_handleAppendEntries now msg n = Some (n', as)"
  obtains "m_Term msg < rn_currentTerm n" "n' = n" "as = [append_ack n msg False 0]"
  | idx where "rn_currentTerm n \<le> m_Term msg" "n' = accept_leader now msg n" "as = [append_ack n' msg False idx]"
  | l last ci st ap where "rn_currentTerm n \<le> m_Term msg"
      "Log_Matches (bn_log n) (m_PrevLogIndex msg) (m_PrevLogTerm msg) = Some True"
      "Log_AppendAfter (bn_log n) (m_PrevLogIndex msg) (m_Entries msg) = Some (l, last)"
      "n' = (accept_leader now msg n)\<lparr>bn_log := l\<lparr>rl_commitIndex := ci\<rparr>, bn_store := st, rn_applied := ap\<rparr>"
      "as = [append_ack n' msg True last]"
proof (cases "m_Term msg < rn_currentTerm n")
  case True
  then have "n' = n" "as = [append_ack n msg False 0]" using assms by (auto simp: RaftNode_handleAppendEntries_def)
  with True show thesis by (rule that(1))
next
  case False
  let ?n1 = "accept_leader now msg n"
  have log: "bn_log ?n1 = bn_log n"
    by (simp add: accept_leader_def RaftNode_stepDownLocked_def RaftNode_touch_def BaseNode_setRole_def Let_def)
  obtain ok where ok: "Log_Matches (bn_log n) (m_PrevLogIndex msg) (m_PrevLogTerm msg) = Some ok"
    using assms False by (auto simp: RaftNode_handleAppendEntries_def Let_def log Option.bind_eq_Some_conv)
  show thesis
  proof (cases ok)
    case notok: False
    then have n': "n' = ?n1" and "as = [append_ack ?n1 msg False (Log_LastIndex (bn_log ?n1) + 1)]"
      using assms False ok by (auto simp: RaftNode_handleAppendEntries_def Let_def log)
    then have "as = [append_ack n' msg False (Log_LastIndex (bn_log ?n1) + 1)]" by simp
    with False n' show thesis by (intro that(2)) simp_all
  next
    case True
    then obtain l last where l: "Log_AppendAfter (bn_log n) (m_PrevLogIndex msg) (m_Entries msg) = Some (l, last)"
      using assms False ok by (auto simp: RaftNode_handleAppendEntries_def Let_def log Option.bind_eq_Some_conv)
    let ?n2 = "?n1\<lparr>bn_log := l\<rparr>"
    let ?c = "if last < m_LeaderCommit msg then last else m_LeaderCommit msg"
    have n3: "(if m_LeaderCommit msg > Log_CommitIndex l
         then RaftNode_applyCommitted ?c (?n2\<lparr>bn_log := Log_SetCommitIndex l ?c\<rparr>) else Some ?n2) = Some n'"
      and as: "as = [append_ack n' msg True last]"
      using assms False ok True l
      by (auto simp: RaftNode_handleAppendEntries_def Let_def log Option.bind_eq_Some_conv split: if_splits)
    have "\<exists>ci. Log_SetCommitIndex l ?c = l\<lparr>rl_commitIndex := ci\<rparr>"
      unfolding Log_SetCommitIndex_def by (metis ReplicationLog.surjective ReplicationLog.update_convs(2))
    then obtain ci st ap where "n' = ?n1\<lparr>bn_log := l\<lparr>rl_commitIndex := ci\<rparr>, bn_store := st, rn_applied := ap\<rparr>"
    proof (cases "m_LeaderCommit msg > Log_CommitIndex l")
      case True
      then have "RaftNode_applyCommitted ?c (?n2\<lparr>bn_log := Log_SetCommitIndex l ?c\<rparr>) = Some n'" using n3 by simp
      then obtain st ap where "n' = (?n2\<lparr>bn_log := Log_SetCommitIndex l ?c\<rparr>)\<lparr>bn_store := st, rn_applied := ap\<rparr>"
        using applyCommitted_frame by blast
      then show thesis using that \<open>\<exists>ci. _\<close> by auto
    next
      case False
      then have "n' = ?n1\<lparr>bn_log := l\<lparr>rl_commitIndex := rl_commitIndex l\<rparr>, bn_store := bn_store ?n1, rn_applied := rn_applied ?n1\<rparr>"
        using n3 by auto
      then show thesis using that by blast
    qed
    then show thesis using False ok True l as by (intro that(3)) simp_all
  qed
qed

lemma quiet_appendEntries:
  assumes "RaftNode_handleAppendEntries now msg n = Some (n', as)" and "m_SenderID msg \<in> T"
  shows "quiet n T n' as"
  using assms(1)
proof (cases rule: appendEntries_cases)
  case 1
  then show ?thesis using quiet_ack [of n n msg T] assms(2) by simp
next
  case (2 idx)
  then show ?thesis using quiet_ack [OF accept_leader_vote assms(2)] by simp
next
  case (3 l last ci st ap)
  then have "same_vote n n'" using same_vote_frame(1) [OF accept_leader_vote] by simp
  then show ?thesis using quiet_ack [OF _ assms(2)] 3(5) by simp
qed

lemma quiet_installSnap:
  assumes "RaftNode_handleInstallSnap ju now msg n = (n', as)" and "m_SenderID msg \<in> T"
  shows "quiet n T n' as"
proof (cases "m_Term msg < rn_currentTerm n")
  case True
  then show ?thesis using assms quiet_ack [of n n msg T] by (auto simp: RaftNode_handleInstallSnap_def)
next
  case False
  then have v: "same_vote n (accept_leader now msg n)" by (intro accept_leader_vote) simp
  obtain idx where as: "as = [append_ack n' msg True idx]"
    using assms(1) False by (auto simp: RaftNode_handleInstallSnap_def Let_def Log_SnapshotBoundary_def)
  have "same_vote n n'"
    using assms(1) False v unfolding same_vote_def
    by (auto simp: RaftNode_handleInstallSnap_def Let_def Log_SnapshotBoundary_def split: if_splits)
  then show ?thesis unfolding as using assms(2) by (rule quiet_ack)
qed

lemma appendAck_cases:
  assumes "RaftNode_handleAppendAck msg n = Some n'"
  shows "rn_currentTerm n < m_Term msg \<and> n' = BaseNode_setRole RoleFollower (RaftNode_stepDownLocked (m_Term msg) n) \<or>
     same_vote n n' \<and> rn_currentTerm n' = rn_currentTerm n \<and> rn_role n' = rn_role n \<and>
       (\<exists>ci. bn_log n' = (bn_log n)\<lparr>rl_commitIndex := ci\<rparr>)"
proof -
  have log: "\<exists>ci. bn_log n = (bn_log n)\<lparr>rl_commitIndex := ci\<rparr>"
    by (rule exI [of _ "rl_commitIndex (bn_log n)"]) simp
  consider "rn_currentTerm n < m_Term msg" | "rn_role n = roleLeader \<and> m_Success msg" "\<not> rn_currentTerm n < m_Term msg"
    | "\<not> (rn_role n = roleLeader \<and> m_Success msg)" "\<not> rn_currentTerm n < m_Term msg" by blast
  then show ?thesis
  proof cases
    case 1
    then show ?thesis using assms by (simp add: RaftNode_handleAppendAck_def)
  next
    case 2
    let ?n1 = "n\<lparr>rn_matchIndex := fmupd (m_SenderID msg) (m_ConflictIndex msg) (rn_matchIndex n),
              rn_nextIndex := fmupd (m_SenderID msg) (m_ConflictIndex msg + 1) (rn_nextIndex n)\<rparr>"
    have "RaftNode_advanceCommitLocked ?n1 = Some n'"
      using assms 2 by (simp add: RaftNode_handleAppendAck_def)
    then obtain ci st ap where n': "n' = ?n1\<lparr>bn_log := (bn_log ?n1)\<lparr>rl_commitIndex := ci\<rparr>, bn_store := st, rn_applied := ap\<rparr>"
      using advance_loop_frame unfolding RaftNode_advanceCommitLocked_def by blast
    have "same_vote n n'" "rn_currentTerm n' = rn_currentTerm n" "rn_role n' = rn_role n"
      "bn_log n' = (bn_log n)\<lparr>rl_commitIndex := ci\<rparr>"
      by (simp_all add: same_vote_def n')
    then show ?thesis by (intro disjI2 conjI exI [of _ ci])
  next
    case 3
    define r where "r = (if rn_role n = roleLeader \<and> zget (rn_nextIndex n) (m_SenderID msg) > 1
      then n\<lparr>rn_nextIndex := fmupd (m_SenderID msg) (zget (rn_nextIndex n) (m_SenderID msg) - 1) (rn_nextIndex n)\<rparr> else n)"
    have "RaftNode_handleAppendAck msg n = Some r" using 3 by (simp add: RaftNode_handleAppendAck_def r_def)
    then have "n' = r" using assms by simp
    then have "same_vote n n'" "rn_currentTerm n' = rn_currentTerm n" "rn_role n' = rn_role n" "bn_log n' = bn_log n"
      by (simp_all add: same_vote_def r_def)
    then show ?thesis using log by simp
  qed
qed

lemma quiet_appendAck: "RaftNode_handleAppendAck msg n = Some n' \<Longrightarrow> quiet n T n' []"
  using appendAck_cases [of msg n n']
  by (auto simp: quiet_def sends_ok_def same_vote_def RaftNode_stepDownLocked_def BaseNode_setRole_def)

lemma maybeCompact_frame: "RaftNode_maybeCompact n = Some n' \<Longrightarrow> \<exists>l. n' = n\<lparr>bn_log := l\<rparr>"
proof -
  assume c: "RaftNode_maybeCompact n = Some n'"
  have "n' = n \<or> (\<exists>l. n' = n\<lparr>bn_log := l\<rparr>)"
    using c by (auto simp: RaftNode_maybeCompact_def Let_def Log_SnapshotBoundary_def Option.bind_eq_Some_conv split: if_splits)
  moreover have "n = n\<lparr>bn_log := bn_log n\<rparr>" by simp
  ultimately show ?thesis by metis
qed

lemma propose_frame:
  assumes "RaftNode_propose jm now key val op n = Some (Inr (n', idx, as))"
  shows "same_vote n n' \<and> rn_role n = roleLeader \<and> rn_role n' = roleLeader \<and> rn_currentTerm n' = rn_currentTerm n \<and>
     (\<exists>e. le_Term e = rn_currentTerm n \<and> bn_log n' = fst (Log_Append (bn_log n) e)) \<and>
     sendAppend_all jm (bn_peers n') n' = Some as"
proof -
  obtain h ts where h: "HLC_Now (bn_hlc n) now = (h, ts)" by fastforce
  define e where "e = \<lparr>le_Index = 0, le_Term = rn_currentTerm n, le_Key = key, le_Value = val, le_Op = op,
    le_Timestamp = ts, le_OriginID = bn_id n, le_VClock = None\<rparr>"
  obtain l i where l: "Log_Append (bn_log n) e = (l, i)" by fastforce
  define n2 where "n2 = n\<lparr>bn_hlc := h, bn_log := l, rn_matchIndex := fmupd (bn_id n) i (rn_matchIndex n)\<rparr>"
  have role: "rn_role n = roleLeader" using assms by (auto simp: RaftNode_propose_def split: if_splits)
  then have eq: "RaftNode_propose jm now key val op n =
      Option.bind (sendAppend_all jm (bn_peers n2) n2) (\<lambda>as. Some (Inr (n2, i, as)))"
    using l unfolding RaftNode_propose_def BaseNode_HLCNow_def h e_def [symmetric] n2_def BaseNode_GetPeers_def
    by (simp add: h e_def Let_def)
  have "Option.bind (sendAppend_all jm (bn_peers n2) n2) (\<lambda>as. Some (Inr (n2, i, as))) = Some (Inr (n', idx, as) :: RaftError + RaftNode \<times> nat \<times> Action list)"
    using eq [symmetric] assms by (rule trans)
  then have "n' = n2" "sendAppend_all jm (bn_peers n2) n2 = Some as"
    by (auto simp: Option.bind_eq_Some_conv)
  moreover have "same_vote n n2" "rn_role n2 = roleLeader" "rn_currentTerm n2 = rn_currentTerm n"
    "le_Term e = rn_currentTerm n" "bn_log n2 = fst (Log_Append (bn_log n) e)"
    using role by (simp_all add: same_vote_def n2_def e_def l [unfolded e_def])
  ultimately show ?thesis using role by blast
qed

lemma quiet_sends:
  assumes "sendAppend_all jm (bn_peers n') n' = Some as" and "same_vote n n'" and "set (bn_peers n) \<subseteq> T"
  shows "quiet n T n' as"
  using sendAppend_all_msgs [OF assms(1)] assms(2,3) unfolding quiet_def sends_ok_def by (auto simp: same_vote_def)

lemma quiet_propose:
  assumes "RaftNode_propose jm now key val op n = Some (Inr (n', idx, as))" and "set (bn_peers n) \<subseteq> T"
  shows "quiet n T n' as"
  using propose_frame [OF assms(1)] assms(2) quiet_sends by blast

lemma quiet_heartbeat:
  assumes "RaftNode_maybeHeartbeat jm n = Some as" and "set (bn_peers n) \<subseteq> T"
  shows "quiet n T n as"
  using assms(1) quiet_sends [OF _ same_vote_refl assms(2)]
  by (auto simp: RaftNode_maybeHeartbeat_def BaseNode_GetPeers_def quiet_def sends_ok_def split: if_splits)

lemma quiet_beat:
  assumes "RaftNode_beatTick jm n = Some (n', as)" and "set (bn_peers n) \<subseteq> T"
  shows "quiet n T n' as"
proof (cases "BaseNode_isPaused n")
  case True
  then show ?thesis using assms by (simp add: RaftNode_beatTick_def quiet_def sends_ok_def)
next
  case False
  then have h: "RaftNode_maybeHeartbeat jm n = Some as" and c: "RaftNode_maybeCompact n = Some n'"
    using assms(1) by (auto simp: RaftNode_beatTick_def Option.bind_eq_Some_conv)
  have "same_vote n n'" using maybeCompact_frame [OF c] by (auto simp: same_vote_def)
  then show ?thesis using quiet_heartbeat [OF h assms(2)] by (simp add: quiet_def)
qed

lemma quiet_call:
  assumes "raft_call jm c n = Some (n', as)" and "\<forall>now draw. c \<noteq> CElect now draw" and "set (bn_peers n) \<subseteq> T"
  shows "quiet n T n' as"
proof (cases c)
  case CBeat
  then show ?thesis using assms quiet_beat by simp
next
  case CHeartbeat
  then show ?thesis using assms quiet_heartbeat by auto
next
  case (CWrite now key val)
  then show ?thesis
    using assms(1) quiet_propose [OF _ assms(3)]
    by (auto simp: of_client_def RaftNode_Write_def split: if_splits option.splits sum.splits)
next
  case (CDelete now key)
  then show ?thesis
    using assms(1) quiet_propose [OF _ assms(3)]
    by (auto simp: of_client_def RaftNode_Delete_def split: if_splits option.splits sum.splits)
qed (use assms in \<open>auto simp: quiet_def sends_ok_def same_vote_def RaftNode_Write_finish_def RaftNode_Read_def
      BaseNode_Pause_def BaseNode_Resume_def BaseNode_Stop_def BaseNode_SetClockSkewMillis_def
      BaseNode_publishStateChange_def Let_def split: if_splits option.splits sum.splits\<close>)

section \<open>The three methods that vote\<close>

lemma elect_cases:
  assumes "RaftNode_electTick now draw n = Some (n', as)" and "set (bn_peers n) \<subseteq> T"
  obtains "quiet n T n' as"
  | li lt where "bn_id n' = bn_id n" "bn_peers n' = bn_peers n" "rn_currentTerm n' = rn_currentTerm n + 1"
      "rn_role n' = roleCandidate" "rn_votedFor n' = bn_id n" "rn_votes n' = 1" "bn_log n' = bn_log n"
      "sent_of as = map (\<lambda>p. (msg_of MsgVoteRequest (bn_id n) p)\<lparr>m_Term := rn_currentTerm n + 1, m_LastLogIndex := li, m_LastLogTerm := lt\<rparr>) (bn_peers n)"
proof -
  have idle: "quiet n T (RaftNode_touch now n) []" "quiet n T n []"
    by (simp_all add: quiet_def sends_ok_def same_vote_def RaftNode_touch_def)
  show thesis
  proof (cases "BaseNode_isPaused n \<or> rn_role n = roleLeader \<or> now - rn_lastHeard n < rn_timeout n")
    case True
    then have "(n' = RaftNode_touch now n \<or> n' = n) \<and> as = []"
      using assms(1) by (auto simp: RaftNode_electTick_def RaftNode_maybeElect_def split: if_splits)
    then show thesis using that(1) idle by blast
  next
    case False
    define n1 where "n1 = RaftNode_touch now (RaftNode_resetTimeout draw
      (n\<lparr>rn_currentTerm := rn_currentTerm n + 1, rn_role := roleCandidate, rn_votedFor := bn_id n, rn_votes := 1, rn_raftLeader := []\<rparr>))"
    have f: "bn_id n1 = bn_id n" "bn_peers n1 = bn_peers n" "rn_currentTerm n1 = rn_currentTerm n + 1" "rn_role n1 = roleCandidate"
      "rn_votedFor n1 = bn_id n" "rn_votes n1 = 1" "bn_log n1 = bn_log n"
      by (simp_all add: n1_def RaftNode_touch_def RaftNode_resetTimeout_def)
    obtain li lt where n': "n' = n1" and as: "as = map (\<lambda>p. Send ((msg_of MsgVoteRequest (bn_id n1) p)
          \<lparr>m_Term := rn_currentTerm n1, m_LastLogIndex := li, m_LastLogTerm := lt\<rparr>)) (bn_peers n1)"
      using assms(1) False
      unfolding RaftNode_electTick_def RaftNode_maybeElect_def Let_def n1_def [symmetric] BaseNode_GetPeers_def
      by (auto simp: Option.bind_eq_Some_conv)
    have "sent_of as = map (\<lambda>p. (msg_of MsgVoteRequest (bn_id n) p)
        \<lparr>m_Term := rn_currentTerm n + 1, m_LastLogIndex := li, m_LastLogTerm := lt\<rparr>) (bn_peers n)"
      by (simp add: as f)
    with f show thesis unfolding n' [symmetric] by (rule that(2))
  qed
qed

lemma voteRequest_cases:
  assumes "RaftNode_handleVoteRequest now msg n = Some (n', as)"
  obtains g where "sent_of as = [(msg_of MsgVoteResponse (bn_id n) (m_SenderID msg))\<lparr>m_Term := rn_currentTerm n', m_VoteGranted := g\<rparr>]"
    "bn_id n' = bn_id n" "bn_peers n' = bn_peers n" "bn_log n' = bn_log n" "rn_votes n' = rn_votes n"
    "rn_currentTerm n \<le> rn_currentTerm n'"
    "rn_currentTerm n < rn_currentTerm n' \<longrightarrow> rn_role n' = roleFollower \<and> rn_currentTerm n' = m_Term msg"
    "rn_currentTerm n' = rn_currentTerm n \<longrightarrow> rn_role n' = rn_role n"
    "g \<longrightarrow> rn_votedFor n' = m_SenderID msg \<and> rn_currentTerm n' = m_Term msg \<and>
       (rn_currentTerm n' = rn_currentTerm n \<longrightarrow> rn_votedFor n \<in> {[], m_SenderID msg})"
    "\<not> g \<longrightarrow> rn_votedFor n' = (if rn_currentTerm n' = rn_currentTerm n then rn_votedFor n else [])"
proof -
  define n1 where "n1 = (if m_Term msg > rn_currentTerm n then RaftNode_stepDownLocked (m_Term msg) n else n)"
  have n1: "bn_id n1 = bn_id n" "bn_peers n1 = bn_peers n" "bn_log n1 = bn_log n" "rn_votes n1 = rn_votes n"
    "rn_currentTerm n \<le> rn_currentTerm n1"
    "rn_currentTerm n < rn_currentTerm n1 \<longrightarrow> rn_role n1 = roleFollower \<and> rn_currentTerm n1 = m_Term msg \<and> rn_votedFor n1 = []"
    "rn_currentTerm n1 = rn_currentTerm n \<longrightarrow> rn_role n1 = rn_role n \<and> rn_votedFor n1 = rn_votedFor n"
    by (auto simp: n1_def RaftNode_stepDownLocked_def)
  obtain n2 g where n2: "(if m_Term msg = rn_currentTerm n1 \<and> (rn_votedFor n1 = [] \<or> rn_votedFor n1 = m_SenderID msg)
         then Option.bind (Log_LastIndexTerm (bn_log n1)) (\<lambda>(myIdx, myTerm).
                let upToDate = (m_LastLogTerm msg > myTerm \<or> (m_LastLogTerm msg = myTerm \<and> m_LastLogIndex msg \<ge> myIdx))
                in if upToDate then Some (RaftNode_touch now (n1\<lparr>rn_votedFor := m_SenderID msg\<rparr>), True) else Some (n1, False))
         else Some (n1, False)) = Some (n2, g)"
    "n' = n2" "as = [Send ((msg_of MsgVoteResponse (bn_id n2) (m_SenderID msg))\<lparr>m_Term := rn_currentTerm n2, m_VoteGranted := g\<rparr>)]"
    using assms unfolding RaftNode_handleVoteRequest_def n1_def [symmetric] Let_def by (auto simp: Option.bind_eq_Some_conv)
  have "g \<and> m_Term msg = rn_currentTerm n1 \<and> rn_votedFor n1 \<in> {[], m_SenderID msg} \<and>
      n2 = RaftNode_touch now (n1\<lparr>rn_votedFor := m_SenderID msg\<rparr>) \<or> \<not> g \<and> n2 = n1"
    using n2(1) by (auto simp: Let_def Option.bind_eq_Some_conv split: if_splits)
  then consider "g" "m_Term msg = rn_currentTerm n1" "rn_votedFor n1 \<in> {[], m_SenderID msg}"
      "n2 = RaftNode_touch now (n1\<lparr>rn_votedFor := m_SenderID msg\<rparr>)" | "\<not> g" "n2 = n1" by blast
  then show thesis
  proof cases
    case 1
    have f: "bn_id n' = bn_id n1" "bn_peers n' = bn_peers n1" "bn_log n' = bn_log n1" "rn_votes n' = rn_votes n1"
      "rn_currentTerm n' = rn_currentTerm n1" "rn_role n' = rn_role n1" "rn_votedFor n' = m_SenderID msg"
      using 1(4) n2(2) by (simp_all add: RaftNode_touch_def)
    show thesis
    proof (rule that [of g])
      show "sent_of as = [(msg_of MsgVoteResponse (bn_id n) (m_SenderID msg))\<lparr>m_Term := rn_currentTerm n', m_VoteGranted := g\<rparr>]"
        using n2(2,3) f(1) n1(1) by simp
    qed (use f n1 1(1-3) in auto)
  next
    case 2
    have f: "n' = n1" using 2 n2(2) by simp
    show thesis
    proof (rule that [of g])
      show "sent_of as = [(msg_of MsgVoteResponse (bn_id n) (m_SenderID msg))\<lparr>m_Term := rn_currentTerm n', m_VoteGranted := g\<rparr>]"
        using n2(2,3) f n1(1) by simp
    qed (use f n1 2(1) in auto)
  qed
qed

lemma becomeLeader_fields:
  assumes "RaftNode_becomeLeaderLocked now n = (n', as)"
  shows "bn_id n' = bn_id n" "bn_peers n' = bn_peers n" "bn_log n' = bn_log n" "rn_votes n' = rn_votes n"
    "rn_currentTerm n' = rn_currentTerm n" "rn_votedFor n' = rn_votedFor n" "rn_role n' = roleLeader" "sent_of as = []"
proof -
  have fold: "bn_id (fold (\<lambda>p n. n\<lparr>rn_nextIndex := fmupd p k (rn_nextIndex n), rn_matchIndex := fmupd p 0 (rn_matchIndex n)\<rparr>) ps x) = bn_id x \<and>
      bn_peers (fold (\<lambda>p n. n\<lparr>rn_nextIndex := fmupd p k (rn_nextIndex n), rn_matchIndex := fmupd p 0 (rn_matchIndex n)\<rparr>) ps x) = bn_peers x \<and>
      bn_log (fold (\<lambda>p n. n\<lparr>rn_nextIndex := fmupd p k (rn_nextIndex n), rn_matchIndex := fmupd p 0 (rn_matchIndex n)\<rparr>) ps x) = bn_log x \<and>
      rn_votes (fold (\<lambda>p n. n\<lparr>rn_nextIndex := fmupd p k (rn_nextIndex n), rn_matchIndex := fmupd p 0 (rn_matchIndex n)\<rparr>) ps x) = rn_votes x \<and>
      rn_currentTerm (fold (\<lambda>p n. n\<lparr>rn_nextIndex := fmupd p k (rn_nextIndex n), rn_matchIndex := fmupd p 0 (rn_matchIndex n)\<rparr>) ps x) = rn_currentTerm x \<and>
      rn_votedFor (fold (\<lambda>p n. n\<lparr>rn_nextIndex := fmupd p k (rn_nextIndex n), rn_matchIndex := fmupd p 0 (rn_matchIndex n)\<rparr>) ps x) = rn_votedFor x \<and>
      rn_role (fold (\<lambda>p n. n\<lparr>rn_nextIndex := fmupd p k (rn_nextIndex n), rn_matchIndex := fmupd p 0 (rn_matchIndex n)\<rparr>) ps x) = rn_role x"
    for k ps and x :: RaftNode
    by (induction ps arbitrary: x) simp_all
  show "bn_id n' = bn_id n" "bn_peers n' = bn_peers n" "bn_log n' = bn_log n" "rn_votes n' = rn_votes n"
    "rn_currentTerm n' = rn_currentTerm n" "rn_votedFor n' = rn_votedFor n" "rn_role n' = roleLeader" "sent_of as = []"
    using assms unfolding RaftNode_becomeLeaderLocked_def Let_def
    by (auto simp: fold BaseNode_setRole_def BaseNode_publishEvent_def)
qed

text \<open>A response is ignored, ends the candidacy, or is counted; the count may make a leader.\<close>

lemma voteResponse_cases:
  assumes "RaftNode_handleVoteResponse now msg n = (n', as)"
  obtains "quiet n T n' as" "as = []" "bn_log n' = bn_log n"
  | "rn_role n = roleCandidate" "m_Term msg = rn_currentTerm n" "m_VoteGranted msg" "sent_of as = []"
      "bn_id n' = bn_id n" "bn_peers n' = bn_peers n" "bn_log n' = bn_log n" "rn_votes n' = rn_votes n + 1"
      "rn_currentTerm n' = rn_currentTerm n" "rn_votedFor n' = rn_votedFor n"
      "rn_role n' = roleCandidate \<or> rn_role n' = roleLeader \<and> RaftNode_majority n \<le> rn_votes n'"
proof -
  consider "rn_currentTerm n < m_Term msg"
    | "\<not> rn_currentTerm n < m_Term msg" "rn_role n \<noteq> roleCandidate \<or> m_Term msg \<noteq> rn_currentTerm n \<or> \<not> m_VoteGranted msg"
    | "rn_role n = roleCandidate" "m_Term msg = rn_currentTerm n" "m_VoteGranted msg" by fastforce
  then show thesis
  proof cases
    case 1
    then have "n' = RaftNode_stepDownLocked (m_Term msg) n" "as = []" using assms by (simp_all add: RaftNode_handleVoteResponse_def)
    then show thesis using 1
      by (intro that(1)) (simp_all add: quiet_def sends_ok_def same_vote_def RaftNode_stepDownLocked_def)
  next
    case 2
    then have "n' = n" "as = []" using assms by (auto simp: RaftNode_handleVoteResponse_def split: if_splits)
    then show thesis by (intro that(1)) (simp_all add: quiet_def sends_ok_def)
  next
    case 3
    define n1 where "n1 = n\<lparr>rn_votes := rn_votes n + 1\<rparr>"
    have f: "bn_id n1 = bn_id n" "bn_peers n1 = bn_peers n" "bn_log n1 = bn_log n" "rn_votes n1 = rn_votes n + 1"
      "rn_currentTerm n1 = rn_currentTerm n" "rn_votedFor n1 = rn_votedFor n" "rn_role n1 = rn_role n"
      by (simp_all add: n1_def)
    have maj: "RaftNode_majority n1 = RaftNode_majority n" by (simp add: RaftNode_majority_def BaseNode_GetPeers_def f)
    have r: "(if rn_votes n1 \<ge> RaftNode_majority n1 then RaftNode_becomeLeaderLocked now n1 else (n1, [])) = (n', as)"
      using assms 3 unfolding RaftNode_handleVoteResponse_def n1_def Let_def by simp
    show thesis
    proof (cases "rn_votes n1 \<ge> RaftNode_majority n1")
      case True
      then have "RaftNode_becomeLeaderLocked now n1 = (n', as)" using r by simp
      note b = becomeLeader_fields [OF this]
      show thesis by (rule that(2)) (use 3 b f True maj in simp_all)
    next
      case False
      then have n': "n1 = n'" "as = []" using r by simp_all
      show thesis by (rule that(2)) (use 3 f n' in auto)
    qed
  qed
qed

section \<open>Running a schedule\<close>

text \<open>
  An executable scheduler: an event calls a method on a node, or delivers or loses the message at a position
  of the list of messages in flight. What it computes is a run of the step relation.
\<close>

datatype RaftEvent = ECall node_id RaftCall | EDeliver int nat | ELose nat

definition drop_at :: "nat \<Rightarrow> 'a list \<Rightarrow> 'a list" where
  "drop_at k xs = take k xs @ drop (Suc k) xs"

fun raft_exec :: "((string, KVEntry) fmap \<Rightarrow> string) \<Rightarrow> (string \<Rightarrow> (string, KVEntry) fmap option) \<Rightarrow> RaftEvent list \<Rightarrow>
    RaftSys \<times> Message list \<Rightarrow> (RaftSys \<times> Message list) option" where
  "raft_exec jm ju [] (s, ms) = Some (s, ms)"
| "raft_exec jm ju (ECall i c # es) (s, ms) =
     (if i \<in> set (rs_ids s)
      then case raft_call jm c (rs_node s i) of
             None \<Rightarrow> None
           | Some (n', as) \<Rightarrow> raft_exec jm ju es (raft_update i n' {#} [] s, ms @ sent_of as)
      else None)"
| "raft_exec jm ju (EDeliver now k # es) (s, ms) =
     (if k < length ms \<and> m_TargetID (ms ! k) \<in> set (rs_ids s)
      then case RaftNode_HandleMessage ju now (ms ! k) (rs_node s (m_TargetID (ms ! k))) of
             None \<Rightarrow> None
           | Some (n', as) \<Rightarrow> raft_exec jm ju es (raft_update (m_TargetID (ms ! k)) n' {#} [] s, drop_at k ms @ sent_of as)
      else None)"
| "raft_exec jm ju (ELose k # es) (s, ms) = (if k < length ms then raft_exec jm ju es (s, drop_at k ms) else None)"

lemma mset_drop_at: "k < length xs \<Longrightarrow> mset (drop_at k xs) = mset xs - {#xs ! k#}"
  unfolding drop_at_def by (metis add_diff_cancel_right' id_take_nth_drop mset.simps(2) mset_append union_mset_add_mset_right add_mset_add_single)

lemma update_net:
  "(raft_update i n' {#} [] s)\<lparr>rs_net := mset ms - gone + mset (sent_of as)\<rparr> = raft_update i n' gone as (s\<lparr>rs_net := mset ms\<rparr>)"
  by (simp add: raft_update_def)

lemma raft_exec_steps:
  "raft_exec jm ju es (s, ms) = Some (s', ms') \<Longrightarrow> (raft_step jm ju)\<^sup>*\<^sup>* (s\<lparr>rs_net := mset ms\<rparr>) (s'\<lparr>rs_net := mset ms'\<rparr>)"
proof (induction es arbitrary: s ms)
  case (Cons e es)
  show ?case
  proof (cases e)
    case (ECall i c)
    then obtain n' as where i: "i \<in> set (rs_ids s)" and c: "raft_call jm c (rs_node s i) = Some (n', as)"
      and rest: "raft_exec jm ju es (raft_update i n' {#} [] s, ms @ sent_of as) = Some (s', ms')"
      using Cons.prems by (auto split: if_splits option.splits)
    have "raft_step jm ju (s\<lparr>rs_net := mset ms\<rparr>) (raft_update i n' {#} as (s\<lparr>rs_net := mset ms\<rparr>))"
      by (rule raft_step.call) (use i c in simp_all)
    then show ?thesis using Cons.IH [OF rest] update_net [of ms "{#}" as i n' s] by (simp add: converse_rtranclp_into_rtranclp)
  next
    case (EDeliver now k)
    let ?m = "ms ! k"
    obtain n' as where k: "k < length ms" "m_TargetID ?m \<in> set (rs_ids s)"
      and c: "RaftNode_HandleMessage ju now ?m (rs_node s (m_TargetID ?m)) = Some (n', as)"
      and rest: "raft_exec jm ju es (raft_update (m_TargetID ?m) n' {#} [] s, drop_at k ms @ sent_of as) = Some (s', ms')"
      using Cons.prems EDeliver by (auto split: if_splits option.splits)
    have "raft_step jm ju (s\<lparr>rs_net := mset ms\<rparr>) (raft_update (m_TargetID ?m) n' {#?m#} as (s\<lparr>rs_net := mset ms\<rparr>))"
      by (rule raft_step.deliver) (use k c in simp_all)
    then show ?thesis
      using Cons.IH [OF rest] update_net [of ms "{#?m#}" as "m_TargetID ?m" n' s] mset_drop_at [OF k(1)]
      by (simp add: converse_rtranclp_into_rtranclp)
  next
    case (ELose k)
    then have k: "k < length ms" and rest: "raft_exec jm ju es (s, drop_at k ms) = Some (s', ms')"
      using Cons.prems by (auto split: if_splits)
    have "raft_step jm ju (s\<lparr>rs_net := mset ms\<rparr>) (s\<lparr>rs_net := mset ms - {#ms ! k#}\<rparr>)"
      using raft_step.lose [of jm ju "s\<lparr>rs_net := mset ms\<rparr>" "ms ! k"] by simp
    then show ?thesis using Cons.IH [OF rest] mset_drop_at [OF k] by (simp add: converse_rtranclp_into_rtranclp)
  qed
qed simp

lemma raft_exec_reach:
  assumes "raft_exec jm ju es (init_raft cid now draw ids, []) = Some (s, ms)"
  shows "(raft_step jm ju)\<^sup>*\<^sup>* (init_raft cid now draw ids) (s\<lparr>rs_net := mset ms\<rparr>)"
proof -
  have "(init_raft cid now draw ids)\<lparr>rs_net := mset []\<rparr> = init_raft cid now draw ids" by (simp add: init_raft_def)
  then show ?thesis using raft_exec_steps [OF assms] by simp
qed

end
