(* ===== verification/RaftElection.thy ===== *)
theory RaftElection
  imports RaftCluster
begin

text \<open>
  Election safety of the Raft node: over every interleaving of elections, deliveries, losses and client
  calls, at most one node becomes leader in a term. The invariant follows one vote from the request to
  the count: for a candidate \<open>c\<close>, a voter \<open>p\<close> and a term \<open>t\<close> there is at most one request or grant in
  flight, and none once the vote has been counted, so that \<open>rn_votes\<close> is the size of a set of voters.
\<close>

definition vote_for :: "node_id \<Rightarrow> node_id \<Rightarrow> nat \<Rightarrow> Message \<Rightarrow> bool" where
  "vote_for c p t m \<longleftrightarrow> m_Term m = t \<and>
     (m_Type m = MsgVoteRequest \<and> m_SenderID m = c \<and> m_TargetID m = p \<or>
      m_Type m = MsgVoteResponse \<and> m_VoteGranted m \<and> m_SenderID m = p \<and> m_TargetID m = c)"

definition inflight :: "Message multiset \<Rightarrow> node_id \<Rightarrow> node_id \<Rightarrow> nat \<Rightarrow> nat" where
  "inflight N c p t = size (filter_mset (vote_for c p t) N)"

definition elected :: "node_id set \<Rightarrow> (node_id \<times> nat \<rightharpoonup> node_id) \<Rightarrow> nat \<Rightarrow> node_id \<Rightarrow> bool" where
  "elected ids V t i \<longleftrightarrow> (\<exists>S \<subseteq> ids. card ids div 2 + 1 \<le> card S \<and> (\<forall>p \<in> S. V (p, t) = Some i))"

definition counted :: "Message multiset \<Rightarrow> (node_id \<times> nat \<rightharpoonup> node_id) \<Rightarrow> RaftNode \<Rightarrow> node_id set \<Rightarrow> bool" where
  "counted N V n S \<longleftrightarrow> S \<subseteq> set (bn_peers n) \<and> rn_votes n = card S + 1 \<and>
     (\<forall>p \<in> S. V (p, rn_currentTerm n) = Some (bn_id n) \<and> inflight N (bn_id n) p (rn_currentTerm n) = 0)"

definition node_ok :: "node_id set \<Rightarrow> (node_id \<times> nat \<rightharpoonup> node_id) \<Rightarrow> (nat \<times> node_id) set \<Rightarrow> node_id \<Rightarrow> RaftNode \<Rightarrow> bool" where
  "node_ok ids V L i n \<longleftrightarrow> bn_id n = i \<and> set (bn_peers n) = ids - {i} \<and> distinct (bn_peers n) \<and>
     V (i, rn_currentTerm n) = (if rn_votedFor n = [] then None else Some (rn_votedFor n)) \<and>
     (\<forall>t > rn_currentTerm n. V (i, t) = None) \<and> (rn_role n \<noteq> roleFollower \<longrightarrow> rn_votedFor n = i) \<and>
     (rn_role n = roleLeader \<longrightarrow> (rn_currentTerm n, i) \<in> L)"

definition vmsg_ok :: "node_id set \<Rightarrow> (node_id \<Rightarrow> nat) \<Rightarrow> (node_id \<times> nat \<rightharpoonup> node_id) \<Rightarrow> Message \<Rightarrow> bool" where
  "vmsg_ok ids tm V m \<longleftrightarrow> m_SenderID m \<in> ids \<and> m_TargetID m \<in> ids \<and>
     (m_Type m = MsgVoteRequest \<longrightarrow> m_SenderID m \<noteq> m_TargetID m \<and> m_Term m \<le> tm (m_SenderID m)) \<and>
     (m_Type m = MsgVoteResponse \<and> m_VoteGranted m \<longrightarrow>
        m_SenderID m \<noteq> m_TargetID m \<and> m_Term m \<le> tm (m_TargetID m) \<and> V (m_SenderID m, m_Term m) = Some (m_TargetID m))"

definition vote_inv :: "RaftSys \<Rightarrow> bool" where
  "vote_inv s \<longleftrightarrow> [] \<notin> set (rs_ids s) \<and>
     (\<forall>i \<in> set (rs_ids s). node_ok (set (rs_ids s)) (rs_voted s) (rs_leaders s) i (rs_node s i)) \<and>
     (\<forall>i \<in> set (rs_ids s). rn_role (rs_node s i) = roleCandidate \<longrightarrow> (\<exists>S. counted (rs_net s) (rs_voted s) (rs_node s i) S)) \<and>
     (\<forall>m \<in># rs_net s. vmsg_ok (set (rs_ids s)) (\<lambda>i. rn_currentTerm (rs_node s i)) (rs_voted s) m) \<and>
     (\<forall>c p t. inflight (rs_net s) c p t \<le> 1) \<and>
     (\<forall>(t, i) \<in> rs_leaders s. elected (set (rs_ids s)) (rs_voted s) t i)"

lemma vote_invD:
  assumes "vote_inv s"
  shows "[] \<notin> set (rs_ids s)"
    "i \<in> set (rs_ids s) \<Longrightarrow> node_ok (set (rs_ids s)) (rs_voted s) (rs_leaders s) i (rs_node s i)"
    "i \<in> set (rs_ids s) \<Longrightarrow> rn_role (rs_node s i) = roleCandidate \<Longrightarrow> \<exists>S. counted (rs_net s) (rs_voted s) (rs_node s i) S"
    "m \<in># rs_net s \<Longrightarrow> vmsg_ok (set (rs_ids s)) (\<lambda>i. rn_currentTerm (rs_node s i)) (rs_voted s) m"
    "inflight (rs_net s) c p t \<le> 1"
    "(t, i) \<in> rs_leaders s \<Longrightarrow> elected (set (rs_ids s)) (rs_voted s) t i"
  using assms unfolding vote_inv_def by auto

section \<open>Votes in flight\<close>

lemma inflight_union [simp]: "inflight (N + M) c p t = inflight N c p t + inflight M c p t"
  by (simp add: inflight_def)

lemma inflight_empty [simp]: "inflight {#} c p t = 0"
  by (simp add: inflight_def)

lemma inflight_add [simp]: "inflight (add_mset m N) c p t = (if vote_for c p t m then 1 else 0) + inflight N c p t"
  by (simp add: inflight_def)

lemma inflight_diff_le [simp]: "inflight (N - M) c p t \<le> inflight N c p t"
  unfolding inflight_def by (intro size_mset_mono multiset_filter_mono) simp

lemma inflight_remove:
  assumes "m \<in># N"
  shows "inflight N c p t = (if vote_for c p t m then 1 else 0) + inflight (N - {#m#}) c p t"
proof -
  have "N = add_mset m (N - {#m#})" using assms by simp
  then show ?thesis by (metis inflight_add)
qed

lemma inflight_none: "(\<forall>m \<in> set ms. \<not> vote_for c p t m) \<Longrightarrow> inflight (mset ms) c p t = 0"
  by (simp add: inflight_def filter_mset_eq_conv)

lemma vote_for_vote_msg: "vote_for c p t m \<Longrightarrow> vote_msg m"
  by (auto simp: vote_for_def vote_msg_def)

lemma inflight_future:
  assumes "vote_inv s" and "rn_currentTerm (rs_node s c) < t"
  shows "inflight (rs_net s) c p t = 0"
proof -
  have "\<not> vote_for c p t m" if "m \<in># rs_net s" for m
    using vote_invD(4) [OF assms(1) that] assms(2) by (auto simp: vote_for_def vmsg_ok_def)
  then show ?thesis by (simp add: inflight_def filter_mset_eq_conv)
qed

section \<open>One step of one node\<close>

definition new_votes :: "node_id \<Rightarrow> RaftNode \<Rightarrow> (node_id \<times> nat \<rightharpoonup> node_id) \<Rightarrow> (node_id \<times> nat \<rightharpoonup> node_id)" where
  "new_votes i n' V = (if rn_votedFor n' \<noteq> [] then V((i, rn_currentTerm n') \<mapsto> rn_votedFor n') else V)"

lemma new_votes_other [simp]: "p \<noteq> i \<Longrightarrow> new_votes i n' V (p, t) = V (p, t)"
  by (simp add: new_votes_def)

definition vote_keeps :: "RaftNode \<Rightarrow> RaftNode \<Rightarrow> bool" where
  "vote_keeps n n' \<longleftrightarrow> bn_id n' = bn_id n \<and> bn_peers n' = bn_peers n \<and> rn_currentTerm n \<le> rn_currentTerm n' \<and>
     (rn_currentTerm n' = rn_currentTerm n \<longrightarrow> rn_votedFor n' = rn_votedFor n \<or> rn_votedFor n = []) \<and>
     (rn_role n' \<noteq> roleFollower \<longrightarrow> rn_votedFor n' = bn_id n)"

lemma new_votes_extend:
  assumes "node_ok ids V L i n" and "vote_keeps n n'"
  shows "V (p, t) = Some c \<Longrightarrow> new_votes i n' V (p, t) = Some c"
    and "node_ok ids (new_votes i n' V) (if rn_role n' = roleLeader then insert (rn_currentTerm n', i) L else L) i n'"
proof -
  have none: "V (i, rn_currentTerm n') = None \<or> V (i, rn_currentTerm n') = Some (rn_votedFor n')"
    and unvoted: "rn_votedFor n' = [] \<Longrightarrow> V (i, rn_currentTerm n') = None"
    using assms unfolding node_ok_def vote_keeps_def by (cases "rn_currentTerm n' = rn_currentTerm n"; auto)+
  show "V (p, t) = Some c \<Longrightarrow> new_votes i n' V (p, t) = Some c" using none by (auto simp: new_votes_def)
  have future: "\<forall>t > rn_currentTerm n'. V (i, t) = None" using assms unfolding node_ok_def vote_keeps_def by auto
  show "node_ok ids (new_votes i n' V) (if rn_role n' = roleLeader then insert (rn_currentTerm n', i) L else L) i n'"
    using assms unvoted future unfolding node_ok_def vote_keeps_def by (auto simp: new_votes_def)
qed

lemma elected_mono: "elected ids V t i \<Longrightarrow> (\<And>p. V (p, t) = Some i \<Longrightarrow> V' (p, t) = Some i) \<Longrightarrow> elected ids V' t i"
  unfolding elected_def by (metis (no_types, opaque_lifting))

lemma counted_mono:
  assumes "counted N V n S" and "\<And>p. V (p, rn_currentTerm n) = Some (bn_id n) \<Longrightarrow> V' (p, rn_currentTerm n) = Some (bn_id n)"
    and "\<And>p. inflight N' (bn_id n) p (rn_currentTerm n) \<le> inflight N (bn_id n) p (rn_currentTerm n)"
  shows "counted N' V' n S"
  using assms unfolding counted_def by (metis le_zero_eq)

lemma vmsg_ok_mono:
  assumes "vmsg_ok ids tm V m" and "\<And>p t c. V (p, t) = Some c \<Longrightarrow> V' (p, t) = Some c" and "\<And>i. tm i \<le> tm' i"
  shows "vmsg_ok ids tm' V' m"
  using assms(1,2) order_trans [OF _ assms(3)] unfolding vmsg_ok_def by blast

lemma update_fields [simp]:
  "rs_ids (raft_update i n' gone as s) = rs_ids s"
  "rs_node (raft_update i n' gone as s) = (rs_node s)(i := n')"
  "rs_net (raft_update i n' gone as s) = rs_net s - gone + mset (sent_of as)"
  "rs_voted (raft_update i n' gone as s) = new_votes i n' (rs_voted s)"
  "rs_leaders (raft_update i n' gone as s) = (if rn_role n' = roleLeader then insert (rn_currentTerm n', i) (rs_leaders s) else rs_leaders s)"
  by (simp_all add: raft_update_def new_votes_def)

text \<open>What a step has to show for the invariant: the vote is kept, no vote is in flight twice, messages are
  truthful, and a candidate or new leader has its votes.\<close>

lemma vote_step:
  fixes s gone as i n'
  defines "s' \<equiv> raft_update i n' gone as s"
  assumes inv: "vote_inv s" and i: "i \<in> set (rs_ids s)" and keeps: "vote_keeps (rs_node s i) n'"
    and flight: "\<And>c p t. inflight (rs_net s') c p t \<le> inflight (rs_net s) c p t \<or>
      c = i \<and> t = rn_currentTerm n' \<and> rn_currentTerm (rs_node s i) < t \<and> inflight (rs_net s') c p t \<le> 1"
    and msgs: "\<And>m. m \<in> set (sent_of as) \<Longrightarrow>
      vmsg_ok (set (rs_ids s)) (\<lambda>j. rn_currentTerm (rs_node s' j)) (rs_voted s') m"
    and cand: "rn_role n' = roleCandidate \<Longrightarrow> \<exists>S. counted (rs_net s') (rs_voted s') n' S"
    and leader: "rn_role n' = roleLeader \<Longrightarrow> elected (set (rs_ids s)) (rs_voted s') (rn_currentTerm n') i"
  shows "vote_inv s'"
proof -
  note ok = vote_invD(2) [OF inv i]
  have id: "bn_id (rs_node s i) = i" using ok by (simp add: node_ok_def)
  have ext: "rs_voted s (p, t) = Some c \<Longrightarrow> rs_voted s' (p, t) = Some c" for p t c
    using new_votes_extend(1) [OF ok keeps] by (simp add: s'_def)
  have nodes: "node_ok (set (rs_ids s)) (rs_voted s') (rs_leaders s') j (rs_node s' j)" if "j \<in> set (rs_ids s)" for j
  proof (cases "j = i")
    case True
    then show ?thesis using new_votes_extend(2) [OF ok keeps] by (simp add: s'_def)
  next
    case False
    then show ?thesis using vote_invD(2) [OF inv that] by (auto simp: s'_def node_ok_def)
  qed
  have cands: "\<exists>S. counted (rs_net s') (rs_voted s') (rs_node s' j) S"
    if j: "j \<in> set (rs_ids s)" and role: "rn_role (rs_node s' j) = roleCandidate" for j
  proof (cases "j = i")
    case True
    then show ?thesis using cand role by (simp add: s'_def)
  next
    case False
    then have same: "rs_node s' j = rs_node s j" by (simp add: s'_def)
    then obtain S where S: "counted (rs_net s) (rs_voted s) (rs_node s j) S" using vote_invD(3) [OF inv j] role by auto
    have "bn_id (rs_node s j) = j" using vote_invD(2) [OF inv j] by (simp add: node_ok_def)
    then have "counted (rs_net s') (rs_voted s') (rs_node s j) S"
      using flight False by (intro counted_mono [OF S] ext) auto
    then show ?thesis using same by auto
  qed
  have tm: "rn_currentTerm (rs_node s j) \<le> rn_currentTerm (rs_node s' j)" for j
    using keeps by (simp add: s'_def vote_keeps_def)
  have "vmsg_ok (set (rs_ids s)) (\<lambda>i. rn_currentTerm (rs_node s' i)) (rs_voted s') m" if m: "m \<in># rs_net s'" for m
  proof (cases "m \<in> set (sent_of as)")
    case False
    then have "m \<in># rs_net s" using m by (auto simp: s'_def dest: in_diffD)
    then show ?thesis by (rule vmsg_ok_mono [OF vote_invD(4) [OF inv]]) (use ext tm in simp_all)
  qed (rule msgs)
  moreover have "inflight (rs_net s') c p t \<le> 1" for c p t
    using flight [of c p t] vote_invD(5) [OF inv, of c p t] by linarith
  moreover have "elected (set (rs_ids s)) (rs_voted s') t j" if "(t, j) \<in> rs_leaders s'" for t j
  proof (cases "(t, j) \<in> rs_leaders s")
    case True
    then show ?thesis by (rule elected_mono [OF vote_invD(6) [OF inv]]) (rule ext)
  next
    case False
    then have "rn_role n' = roleLeader" "t = rn_currentTerm n'" "j = i" using that by (auto simp: s'_def split: if_splits)
    then show ?thesis using leader by simp
  qed
  ultimately show ?thesis
    using nodes cands vote_invD(1) [OF inv] unfolding vote_inv_def s'_def update_fields(1) by (auto simp del: update_fields(2-))
qed

section \<open>The invariant is kept\<close>

lemma majority_card:
  assumes "node_ok (set ids) V L i n" and "i \<in> set ids"
  shows "RaftNode_majority n = card (set ids) div 2 + 1"
proof -
  have "length (bn_peers n) = card (set ids - {i})" using assms(1) by (metis node_ok_def distinct_card)
  then have "length (bn_peers n) + 1 = card (set ids)" using assms(2) by (metis List.finite_set Suc_eq_plus1 card.remove)
  then show ?thesis by (simp add: RaftNode_majority_def BaseNode_GetPeers_def)
qed

lemma quiet_step:
  assumes inv: "vote_inv s" and i: "i \<in> set (rs_ids s)" and q: "quiet (rs_node s i) (set (rs_ids s)) n' as"
  shows "vote_inv (raft_update i n' gone as s)"
proof (rule vote_step [OF inv i])
  let ?n = "rs_node s i"
  note ok = vote_invD(2) [OF inv i]
  have id: "bn_id ?n = i" using ok by (simp add: node_ok_def)
  have sv: "same_vote ?n n'" and so: "sends_ok ?n (set (rs_ids s)) as" and nv: "\<forall>m \<in> set (sent_of as). \<not> vote_msg m"
    using q by (auto simp: quiet_def)
  show keeps: "vote_keeps ?n n'" using sv ok unfolding same_vote_def vote_keeps_def node_ok_def by auto
  have none: "inflight (mset (sent_of as)) c p t = 0" for c p t using nv vote_for_vote_msg by (intro inflight_none) blast
  then have le: "inflight (rs_net (raft_update i n' gone as s)) c p t \<le> inflight (rs_net s) c p t" for c p t by simp
  then show "inflight (rs_net (raft_update i n' gone as s)) c p t \<le> inflight (rs_net s) c p t \<or>
      c = i \<and> t = rn_currentTerm n' \<and> rn_currentTerm ?n < t \<and> inflight (rs_net (raft_update i n' gone as s)) c p t \<le> 1" for c p t
    by blast
  show "vmsg_ok (set (rs_ids s)) (\<lambda>j. rn_currentTerm (rs_node (raft_update i n' gone as s) j)) (rs_voted (raft_update i n' gone as s)) m"
    if "m \<in> set (sent_of as)" for m
    using that so nv i id by (auto simp: sends_ok_def vmsg_ok_def vote_msg_def)
  show "\<exists>S. counted (rs_net (raft_update i n' gone as s)) (rs_voted (raft_update i n' gone as s)) n' S" if "rn_role n' = roleCandidate"
  proof -
    have eq: "rn_role ?n = roleCandidate" "rn_currentTerm n' = rn_currentTerm ?n" "rn_votes n' = rn_votes ?n" "bn_id n' = bn_id ?n"
      "bn_peers n' = bn_peers ?n" using that sv by (auto simp: same_vote_def)
    then obtain S where "counted (rs_net s) (rs_voted s) ?n S" using vote_invD(3) [OF inv i] by blast
    then have "counted (rs_net (raft_update i n' gone as s)) (rs_voted (raft_update i n' gone as s)) ?n S"
      by (rule counted_mono) (use new_votes_extend(1) [OF ok keeps] le in simp_all)
    then have "counted (rs_net (raft_update i n' gone as s)) (rs_voted (raft_update i n' gone as s)) n' S"
      unfolding counted_def eq .
    then show ?thesis by blast
  qed
  show "elected (set (rs_ids s)) (rs_voted (raft_update i n' gone as s)) (rn_currentTerm n') i" if "rn_role n' = roleLeader"
  proof -
    have "rn_role ?n = roleLeader" "rn_currentTerm n' = rn_currentTerm ?n" using that sv by (auto simp: same_vote_def)
    then have "(rn_currentTerm n', i) \<in> rs_leaders s" using ok by (simp add: node_ok_def)
    from vote_invD(6) [OF inv this] show ?thesis
      by (rule elected_mono) (use new_votes_extend(1) [OF ok keeps] in simp)
  qed
qed

lemma elect_step:
  assumes inv: "vote_inv s" and i: "i \<in> set (rs_ids s)" and e: "RaftNode_electTick now draw (rs_node s i) = Some (n', as)"
  shows "vote_inv (raft_update i n' {#} as s)"
proof -
  let ?n = "rs_node s i" and ?s' = "raft_update i n' {#} as s"
  note ok = vote_invD(2) [OF inv i]
  have id: "bn_id ?n = i" and peers: "set (bn_peers ?n) = set (rs_ids s) - {i}" "distinct (bn_peers ?n)"
    using ok by (auto simp: node_ok_def)
  have "set (bn_peers ?n) \<subseteq> set (rs_ids s)" using peers(1) by simp
  with e show ?thesis
  proof (rule elect_cases)
    fix li lt
    assume f: "bn_id n' = bn_id ?n" "bn_peers n' = bn_peers ?n" "rn_currentTerm n' = rn_currentTerm ?n + 1"
      "rn_role n' = roleCandidate" "rn_votedFor n' = bn_id ?n" "rn_votes n' = 1"
      and sent: "sent_of as = map (\<lambda>p. (msg_of MsgVoteRequest (bn_id ?n) p)
          \<lparr>m_Term := rn_currentTerm ?n + 1, m_LastLogIndex := li, m_LastLogTerm := lt\<rparr>) (bn_peers ?n)"
    let ?req = "\<lambda>p. (msg_of MsgVoteRequest (bn_id ?n) p)\<lparr>m_Term := rn_currentTerm ?n + 1, m_LastLogIndex := li, m_LastLogTerm := lt\<rparr>"
    have vf: "vote_for c p t (?req q) \<longleftrightarrow> c = i \<and> q = p \<and> t = rn_currentTerm n'" for c p t q
      by (auto simp: vote_for_def id f(3))
    have le1: "size (filter_mset (\<lambda>q. q = p) (mset (bn_peers ?n))) \<le> 1" for p
      using peers(2) by (simp add: distinct_count_atmost_1 filter_eq_replicate_mset)
    have flight: "inflight (mset (sent_of as)) c p t =
        (if c = i \<and> t = rn_currentTerm n' then size (filter_mset (\<lambda>q. q = p) (mset (bn_peers ?n))) else 0)" for c p t
      unfolding inflight_def sent mset_map filter_mset_image_mset size_image_mset vf by simp
    show ?thesis
    proof (rule vote_step [OF inv i])
      show "vote_keeps ?n n'" using f by (simp add: vote_keeps_def)
      show "inflight (rs_net ?s') c p t \<le> inflight (rs_net s) c p t \<or>
          c = i \<and> t = rn_currentTerm n' \<and> rn_currentTerm ?n < t \<and> inflight (rs_net ?s') c p t \<le> 1" for c p t
      proof (cases "c = i \<and> t = rn_currentTerm n'")
        case True
        then show ?thesis using flight [of c p t] le1 [of p] inflight_future [OF inv, of c t p] f(3) by simp
      next
        case False
        then have "inflight (mset (sent_of as)) c p t = 0" using flight [of c p t] unfolding if_not_P [OF False] by simp
        then show ?thesis by simp
      qed
      show "vmsg_ok (set (rs_ids s)) (\<lambda>j. rn_currentTerm (rs_node ?s' j)) (rs_voted ?s') m" if "m \<in> set (sent_of as)" for m
      proof -
        obtain q where q: "m = ?req q" "q \<in> set (rs_ids s)" "q \<noteq> i" using \<open>m \<in> set (sent_of as)\<close> peers(1) unfolding sent set_map by blast
        show ?thesis unfolding q(1) using q(2,3) i f(3) by (simp add: vmsg_ok_def id)
      qed
      have "counted (rs_net ?s') (rs_voted ?s') n' {}" using f by (simp add: counted_def)
      then show "\<exists>S. counted (rs_net ?s') (rs_voted ?s') n' S" by blast
      show "rn_role n' = roleLeader \<Longrightarrow> elected (set (rs_ids s)) (rs_voted ?s') (rn_currentTerm n') i" using f by simp
    qed
  qed (rule quiet_step [OF inv i])
qed

lemma voteRequest_step:
  assumes inv: "vote_inv s" and m: "m \<in># rs_net s" "m_Type m = MsgVoteRequest"
    and h: "RaftNode_handleVoteRequest now m (rs_node s (m_TargetID m)) = Some (n', as)"
  shows "vote_inv (raft_update (m_TargetID m) n' {#m#} as s)"
  using h
proof (rule voteRequest_cases)
  let ?i = "m_TargetID m" let ?n = "rs_node s ?i" and ?s' = "raft_update ?i n' {#m#} as s"
  fix g
  assume sent: "sent_of as = [(msg_of MsgVoteResponse (bn_id ?n) (m_SenderID m))\<lparr>m_Term := rn_currentTerm n', m_VoteGranted := g\<rparr>]"
    and f: "bn_id n' = bn_id ?n" "bn_peers n' = bn_peers ?n" "rn_votes n' = rn_votes ?n" "rn_currentTerm ?n \<le> rn_currentTerm n'"
    "rn_currentTerm ?n < rn_currentTerm n' \<longrightarrow> rn_role n' = roleFollower \<and> rn_currentTerm n' = m_Term m"
    "rn_currentTerm n' = rn_currentTerm ?n \<longrightarrow> rn_role n' = rn_role ?n"
    and g: "g \<longrightarrow> rn_votedFor n' = m_SenderID m \<and> rn_currentTerm n' = m_Term m \<and>
       (rn_currentTerm n' = rn_currentTerm ?n \<longrightarrow> rn_votedFor ?n \<in> {[], m_SenderID m})"
    and ng: "\<not> g \<longrightarrow> rn_votedFor n' = (if rn_currentTerm n' = rn_currentTerm ?n then rn_votedFor ?n else [])"
  have mok: "m_SenderID m \<in> set (rs_ids s)" "?i \<in> set (rs_ids s)" "m_SenderID m \<noteq> ?i" "m_Term m \<le> rn_currentTerm (rs_node s (m_SenderID m))"
    using vote_invD(4) [OF inv m(1)] m(2) by (auto simp: vmsg_ok_def)
  note ok = vote_invD(2) [OF inv mok(2)]
  have id: "bn_id ?n = ?i" and nonempty: "m_SenderID m \<noteq> []" "?i \<noteq> []" using ok mok vote_invD(1) [OF inv] by (auto simp: node_ok_def)
  have keeps: "vote_keeps ?n n'"
    unfolding vote_keeps_def
  proof (intro conjI impI)
    show "rn_votedFor n' = rn_votedFor ?n \<or> rn_votedFor ?n = []" if "rn_currentTerm n' = rn_currentTerm ?n" using that g ng by auto
    show "rn_votedFor n' = bn_id ?n" if r: "rn_role n' \<noteq> roleFollower"
    proof -
      have same: "rn_currentTerm n' = rn_currentTerm ?n" "rn_role n' = rn_role ?n" using r f by fastforce+
      then have "rn_votedFor ?n = ?i" using r ok by (simp add: node_ok_def)
      then show ?thesis using g ng same mok(3) nonempty id by auto
    qed
  qed (use f in simp_all)
  have le: "inflight (rs_net ?s') c p t \<le> inflight (rs_net s) c p t" for c p t
  proof -
    have "vote_for c p t ((msg_of MsgVoteResponse (bn_id ?n) (m_SenderID m))\<lparr>m_Term := rn_currentTerm n', m_VoteGranted := g\<rparr>)
        \<Longrightarrow> vote_for c p t m"
      using g m(2) by (auto simp: vote_for_def id)
    then show ?thesis using inflight_remove [OF m(1), of c p t] by (simp add: sent)
  qed
  show ?thesis
  proof (rule vote_step [OF inv mok(2) keeps])
    show "inflight (rs_net ?s') c p t \<le> inflight (rs_net s) c p t \<or>
        c = ?i \<and> t = rn_currentTerm n' \<and> rn_currentTerm ?n < t \<and> inflight (rs_net ?s') c p t \<le> 1" for c p t
      using le by blast
    show "vmsg_ok (set (rs_ids s)) (\<lambda>j. rn_currentTerm (rs_node ?s' j)) (rs_voted ?s') m'" if "m' \<in> set (sent_of as)" for m'
      using that mok g nonempty by (auto simp: sent vmsg_ok_def id new_votes_def)
    show "\<exists>S. counted (rs_net ?s') (rs_voted ?s') n' S" if r: "rn_role n' = roleCandidate"
    proof -
      have same: "rn_currentTerm n' = rn_currentTerm ?n" "rn_role ?n = roleCandidate" using r f by fastforce+
      then obtain S where "counted (rs_net s) (rs_voted s) ?n S" using vote_invD(3) [OF inv mok(2)] by blast
      then have "counted (rs_net ?s') (rs_voted ?s') ?n S"
        by (rule counted_mono) (use new_votes_extend(1) [OF ok keeps] le in simp_all)
      then have "counted (rs_net ?s') (rs_voted ?s') n' S" unfolding counted_def f same .
      then show ?thesis by blast
    qed
    show "elected (set (rs_ids s)) (rs_voted ?s') (rn_currentTerm n') ?i" if r: "rn_role n' = roleLeader"
    proof -
      have "rn_currentTerm n' = rn_currentTerm ?n" "rn_role ?n = roleLeader" using r f by fastforce+
      then have "(rn_currentTerm n', ?i) \<in> rs_leaders s" using ok by (simp add: node_ok_def)
      from vote_invD(6) [OF inv this] show ?thesis by (rule elected_mono) (use new_votes_extend(1) [OF ok keeps] in simp)
    qed
  qed
qed

lemma voteResponse_step:
  assumes inv: "vote_inv s" and m: "m \<in># rs_net s" "m_Type m = MsgVoteResponse" "m_TargetID m \<in> set (rs_ids s)"
    and h: "RaftNode_handleVoteResponse now m (rs_node s (m_TargetID m)) = (n', as)"
  shows "vote_inv (raft_update (m_TargetID m) n' {#m#} as s)"
  using h
proof (rule voteResponse_cases)
  let ?i = "m_TargetID m" let ?n = "rs_node s ?i" and ?s' = "raft_update ?i n' {#m#} as s" and ?p = "m_SenderID m"
  assume r: "rn_role ?n = roleCandidate" "m_Term m = rn_currentTerm ?n" "m_VoteGranted m"
    and sent: "sent_of as = []"
    and f: "bn_id n' = bn_id ?n" "bn_peers n' = bn_peers ?n" "rn_votes n' = rn_votes ?n + 1"
      "rn_currentTerm n' = rn_currentTerm ?n" "rn_votedFor n' = rn_votedFor ?n"
    and won: "rn_role n' = roleCandidate \<or> rn_role n' = roleLeader \<and> RaftNode_majority ?n \<le> rn_votes n'"
  have mok: "?p \<in> set (rs_ids s)" "?p \<noteq> ?i" "rs_voted s (?p, rn_currentTerm ?n) = Some ?i"
    using vote_invD(4) [OF inv m(1)] m(2) r by (auto simp: vmsg_ok_def)
  note ok = vote_invD(2) [OF inv m(3)]
  have id: "bn_id ?n = ?i" "rn_votedFor ?n = ?i" "?i \<noteq> []" and peers: "set (bn_peers ?n) = set (rs_ids s) - {?i}"
    using ok r m(3) vote_invD(1) [OF inv] by (auto simp: node_ok_def)
  have keeps: "vote_keeps ?n n'" using f id by (simp add: vote_keeps_def)
  have ext: "rs_voted s (q, t) = Some c \<Longrightarrow> rs_voted ?s' (q, t) = Some c" for q t c
    using new_votes_extend(1) [OF ok keeps] by simp
  have le: "inflight (rs_net ?s') c p t \<le> inflight (rs_net s) c p t" for c p t by (simp add: sent)
  obtain S where S: "counted (rs_net s) (rs_voted s) ?n S" using vote_invD(3) [OF inv m(3) r(1)] by blast
  have vf: "vote_for ?i ?p (rn_currentTerm ?n) m" using m(2) r by (simp add: vote_for_def)
  have one: "inflight (rs_net s) ?i ?p (rn_currentTerm ?n) = 1" "inflight (rs_net ?s') ?i ?p (rn_currentTerm ?n) = 0"
    using inflight_remove [OF m(1), of ?i ?p "rn_currentTerm ?n"] vote_invD(5) [OF inv, of ?i ?p "rn_currentTerm ?n"] vf
    by (simp_all add: sent)
  have new: "?p \<notin> S" "finite S" using S one(1) unfolding counted_def id
    by (auto dest: finite_subset [OF _ List.finite_set])
  have votes: "\<forall>q \<in> insert ?p S. rs_voted ?s' (q, rn_currentTerm ?n) = Some ?i \<and> inflight (rs_net ?s') ?i q (rn_currentTerm ?n) = 0"
    using S one(2) mok(3) ext le unfolding counted_def id by (metis insert_iff le_zero_eq)
  have S': "counted (rs_net ?s') (rs_voted ?s') n' (insert ?p S)"
    using S new votes mok(1,2) peers unfolding counted_def f id by simp
  show ?thesis
  proof (rule vote_step [OF inv m(3) keeps])
    show "inflight (rs_net ?s') c p t \<le> inflight (rs_net s) c p t \<or>
        c = ?i \<and> t = rn_currentTerm n' \<and> rn_currentTerm ?n < t \<and> inflight (rs_net ?s') c p t \<le> 1" for c p t
      using le by blast
    show "\<exists>S. counted (rs_net ?s') (rs_voted ?s') n' S" using S' by blast
    show "elected (set (rs_ids s)) (rs_voted ?s') (rn_currentTerm n') ?i" if "rn_role n' = roleLeader"
    proof -
      have "insert ?p S \<subseteq> set (rs_ids s) - {?i}" using S mok(1,2) peers unfolding counted_def by auto
      then have "insert ?i (insert ?p S) \<subseteq> set (rs_ids s)" "?i \<notin> insert ?p S" using m(3) by auto
      moreover from this(2) have "card (insert ?i (insert ?p S)) = rn_votes n'"
        using S' new(2) unfolding counted_def by (simp del: update_fields)
      moreover have "rs_voted ?s' (?i, rn_currentTerm ?n) = Some ?i" using f(4,5) id by (simp add: new_votes_def)
      ultimately show ?thesis
        using won that votes majority_card [OF ok m(3)] unfolding elected_def f(4)
        by (intro exI [of _ "insert ?i (insert ?p S)"]) auto
    qed
  qed (simp add: sent)
qed (rule quiet_step [OF inv m(3)])

lemma handle_step:
  assumes inv: "vote_inv s" and m: "m \<in># rs_net s" "m_TargetID m \<in> set (rs_ids s)"
    and h: "RaftNode_HandleMessage ju now m (rs_node s (m_TargetID m)) = Some (n', as)"
  shows "vote_inv (raft_update (m_TargetID m) n' {#m#} as s)"
proof -
  have origin: "m_SenderID m \<in> set (rs_ids s)" using vote_invD(4) [OF inv m(1)] by (simp add: vmsg_ok_def)
  have idle: "quiet (rs_node s (m_TargetID m)) (set (rs_ids s)) (rs_node s (m_TargetID m)) []"
    by (simp add: quiet_def sends_ok_def)
  note quiets = quiet_step [OF inv m(2)] quiet_appendEntries [OF _ origin] quiet_installSnap [OF _ origin] quiet_appendAck idle
  note dispatch = h [unfolded RaftNode_HandleMessage_def]
  show ?thesis
  proof (cases "BaseNode_isPaused (rs_node s (m_TargetID m))")
    case True
    then show ?thesis using dispatch quiets(1,5) by simp
  next
    case False
    show ?thesis
    proof (cases "m_Type m")
      case MsgVoteRequest
      then show ?thesis using dispatch False voteRequest_step [OF inv m(1)] by simp
    next
      case MsgVoteResponse
      then show ?thesis using dispatch False voteResponse_step [OF inv m(1) _ m(2)] by simp
    next
      case MsgAppendEntries
      then show ?thesis using dispatch False quiets(1,2) by simp
    next
      case MsgAppendAck
      then show ?thesis using dispatch False quiets(1,4) by auto
    next
      case MsgInstallSnap
      then show ?thesis using dispatch False quiets(1,3) by simp
    qed (use dispatch False quiets(1,5) in simp_all)
  qed
qed

lemma vote_inv_step: "raft_step jm ju s s' \<Longrightarrow> vote_inv s \<Longrightarrow> vote_inv s'"
proof (induction rule: raft_step.induct)
  case (call i s c n' as)
  have peers: "set (bn_peers (rs_node s i)) \<subseteq> set (rs_ids s)"
    using vote_invD(2) [OF call.prems call.hyps(1)] by (auto simp: node_ok_def)
  show ?case
  proof (cases "\<exists>now draw. c = CElect now draw")
    case True
    then show ?thesis using call elect_step by auto
  next
    case False
    then have "quiet (rs_node s i) (set (rs_ids s)) n' as" using quiet_call [OF call.hyps(2) _ peers] by blast
    then show ?thesis by (rule quiet_step [OF call.prems call.hyps(1)])
  qed
next
  case (deliver m s now n' as)
  then show ?case using handle_step by blast
next
  case (lose s m)
  have "\<exists>S. counted (rs_net s - {#m#}) (rs_voted s) (rs_node s i) S" if i: "i \<in> set (rs_ids s)" "rn_role (rs_node s i) = roleCandidate" for i
  proof -
    obtain S where "counted (rs_net s) (rs_voted s) (rs_node s i) S" using vote_invD(3) [OF lose i] by blast
    then have "counted (rs_net s - {#m#}) (rs_voted s) (rs_node s i) S" by (rule counted_mono) simp_all
    then show ?thesis by blast
  qed
  moreover have "inflight (rs_net s - {#m#}) c p t \<le> 1" for c p t using vote_invD(5) [OF lose] inflight_diff_le order_trans by blast
  ultimately show ?case using lose unfolding vote_inv_def by (auto dest: in_diffD)
qed

lemma init_node_fields:
  assumes "distinct ids"
  shows "bn_id (init_node cid now draw ids i) = i" "bn_peers (init_node cid now draw ids i) = filter (\<lambda>j. j \<noteq> i) ids"
    "rn_currentTerm (init_node cid now draw ids i) = 0" "rn_votedFor (init_node cid now draw ids i) = []"
    "rn_role (init_node cid now draw ids i) = roleFollower" "bn_log (init_node cid now draw ids i) = NewReplicationLog"
  using assms unfolding init_node_def fold_AddPeer
  by (simp_all add: fold_AddPeer_distinct NewRaftNode_def newBaseNode_def RaftNode_touch_def RaftNode_resetTimeout_def
      BaseNode.defs RaftNode.defs)

lemma vote_inv_init: "distinct ids \<Longrightarrow> [] \<notin> set ids \<Longrightarrow> vote_inv (init_raft cid now draw ids)"
  by (auto simp: vote_inv_def init_raft_def node_ok_def init_node_fields)

lemma vote_inv_reach:
  assumes "(raft_step jm ju)\<^sup>*\<^sup>* s s'" and "vote_inv s"
  shows "vote_inv s'"
  using assms by (induction rule: rtranclp_induct) (use vote_inv_step in blast)+

lemma elected_unique:
  assumes "finite ids" and "elected ids V t i" and "elected ids V t j"
  shows "i = j"
proof -
  obtain S where S: "S \<subseteq> ids" "card ids div 2 + 1 \<le> card S" "\<forall>p \<in> S. V (p, t) = Some i" using assms(2) unfolding elected_def by blast
  obtain T where T: "T \<subseteq> ids" "card ids div 2 + 1 \<le> card T" "\<forall>p \<in> T. V (p, t) = Some j" using assms(3) unfolding elected_def by blast
  have fin: "finite S" "finite T" using S(1) T(1) assms(1) by (auto intro: finite_subset)
  have "card (S \<union> T) \<le> card ids" using S(1) T(1) assms(1) by (intro card_mono) auto
  then have "card (S \<inter> T) \<noteq> 0" using card_Un_Int [OF fin] S(2) T(2) by linarith
  then have "S \<inter> T \<noteq> {}" by auto
  then obtain p where "p \<in> S" "p \<in> T" by blast
  then show ?thesis using S(3) T(3) by force
qed

definition demo_ids :: "node_id list" where
  "demo_ids = [''a'', ''b'', ''c'']"

lemma demo_election:
  "map_option (\<lambda>(s, ms). (rn_role (rs_node s ''a''), rn_currentTerm (rs_node s ''a''), (1, ''a'') \<in> rs_leaders s))
     (raft_exec (\<lambda>_. []) (\<lambda>_. None) [ECall ''a'' (CElect 10000000000 0), EDeliver 10000000001 0, EDeliver 10000000002 1]
       (init_raft ''k'' 0 (\<lambda>_. 0) demo_ids, [])) = Some (roleLeader, 1, True)"
  by code_simp

text \<open>
  C2. Raft election safety. In every run of a cluster of Raft nodes from its initial state (any
  interleaving of election timeouts, heartbeats, client calls, pauses, message deliveries in any order and
  message losses), two nodes that have become leader in the same term are the same node; in particular two
  nodes that are leaders at the same moment have different terms.
\<close>

theorem raft_election_safety:
  assumes "(raft_step jm ju)\<^sup>*\<^sup>* (init_raft cid now draw ids) s" and "distinct ids" and "[] \<notin> set ids"
  shows "((t, i) \<in> rs_leaders s \<and> (t, j) \<in> rs_leaders s \<longrightarrow> i = j) \<and>
    (i \<in> set ids \<and> j \<in> set ids \<and> rn_role (rs_node s i) = roleLeader \<and> rn_role (rs_node s j) = roleLeader \<and>
       rn_currentTerm (rs_node s i) = rn_currentTerm (rs_node s j) \<longrightarrow> i = j)"
proof -
  have inv: "vote_inv s" using vote_inv_reach [OF assms(1) vote_inv_init [OF assms(2,3)]] .
  have ids: "rs_ids s = ids" using assms(1) by (induction rule: rtranclp_induct) (auto simp: init_raft_def elim: raft_step.cases)
  have one: "(t, i) \<in> rs_leaders s \<Longrightarrow> (t, j) \<in> rs_leaders s \<Longrightarrow> i = j" for t i j
    using elected_unique [OF List.finite_set] vote_invD(6) [OF inv] by blast
  moreover have "(rn_currentTerm (rs_node s i), i) \<in> rs_leaders s" if "i \<in> set ids" "rn_role (rs_node s i) = roleLeader" for i
    using vote_invD(2) [OF inv, of i] that ids by (simp add: node_ok_def)
  ultimately show ?thesis by metis
qed

theorem raft_election_safety_witness:
  "\<exists>s. (raft_step (\<lambda>_. []) (\<lambda>_. None))\<^sup>*\<^sup>* (init_raft ''k'' 0 (\<lambda>_. 0) demo_ids) s \<and>
     (1, ''a'') \<in> rs_leaders s \<and> (1, ''b'') \<notin> rs_leaders s"
proof -
  obtain s ms where e: "raft_exec (\<lambda>_. []) (\<lambda>_. None) [ECall ''a'' (CElect 10000000000 0), EDeliver 10000000001 0, EDeliver 10000000002 1]
       (init_raft ''k'' 0 (\<lambda>_. 0) demo_ids, []) = Some (s, ms)" and l: "(1, ''a'') \<in> rs_leaders s"
    using demo_election by auto
  let ?s = "s\<lparr>rs_net := mset ms\<rparr>"
  have r: "(raft_step (\<lambda>_. []) (\<lambda>_. None))\<^sup>*\<^sup>* (init_raft ''k'' 0 (\<lambda>_. 0) demo_ids) ?s" by (rule raft_exec_reach [OF e])
  have d: "distinct demo_ids" "[] \<notin> set demo_ids" by (simp_all add: demo_ids_def)
  have "(1, ''b'') \<notin> rs_leaders ?s" using raft_election_safety [OF r d, of 1 "''a''" "''b''"] l by auto
  then show ?thesis using r l by (intro exI [of _ ?s]) simp
qed

end
