(* ===== verification/RaftLog.thy ===== *)
theory RaftLog
  imports RaftElection
begin

text \<open>
  The logs of a Raft cluster: log matching, as long as no log has been compacted, and a run in which
  two nodes commit different entries at the same index. The history variable \<open>rs_logs\<close> maps an
  index and a term to the log up to the entry created there; all logs and all messages agree with it.
\<close>

definition no_snap :: "RaftSys \<Rightarrow> bool" where
  "no_snap s \<longleftrightarrow> (\<forall>i \<in> set (rs_ids s). rl_snapshotIndex (bn_log (rs_node s i)) = 0)"

definition flat :: "ReplicationLog \<Rightarrow> bool" where
  "flat l \<longleftrightarrow> rl_snapshotIndex l = 0 \<and> rl_nextIndex l = length (rl_entries l) + 1"

definition log_ok :: "(nat \<times> nat \<rightharpoonup> LogEntry list) \<Rightarrow> LogEntry list \<Rightarrow> bool" where
  "log_ok H es \<longleftrightarrow> (\<forall>k < length es. le_Index (es ! k) = k + 1 \<and> H (k + 1, le_Term (es ! k)) = Some (take (k + 1) es))"

lemma log_okD: "log_ok H es \<Longrightarrow> k < length es \<Longrightarrow> le_Index (es ! k) = k + 1 \<and> H (k + 1, le_Term (es ! k)) = Some (take (k + 1) es)"
  by (simp add: log_ok_def)

lemma log_ok_Nil [simp]: "log_ok H []"
  by (simp add: log_ok_def)

lemma log_ok_prefix: "log_ok H (xs @ ys) \<Longrightarrow> log_ok H xs"
  unfolding log_ok_def
proof (intro allI impI)
  fix k
  assume all: "\<forall>k < length (xs @ ys). le_Index ((xs @ ys) ! k) = k + 1 \<and> H (k + 1, le_Term ((xs @ ys) ! k)) = Some (take (k + 1) (xs @ ys))"
    and k: "k < length xs"
  have "(xs @ ys) ! k = xs ! k" "take (k + 1) (xs @ ys) = take (k + 1) xs" using k by (simp_all add: nth_append)
  with all k show "le_Index (xs ! k) = k + 1 \<and> H (k + 1, le_Term (xs ! k)) = Some (take (k + 1) xs)"
    by (metis length_append trans_less_add1)
qed

lemma log_ok_mono: "log_ok H es \<Longrightarrow> H \<subseteq>\<^sub>m H' \<Longrightarrow> log_ok H' es"
  unfolding log_ok_def map_le_def dom_def by (metis (mono_tags, lifting) mem_Collect_eq option.distinct(1))

text \<open>Two logs that have an entry of the same index and term in common agree up to it.\<close>

lemma log_ok_agree:
  assumes "log_ok H es" and "log_ok H fs" and "k < length es" and "k < length fs" and "le_Term (es ! k) = le_Term (fs ! k)"
  shows "take (k + 1) es = take (k + 1) fs"
proof -
  have "Some (take (k + 1) es) = Some (take (k + 1) fs)"
    using log_okD [OF assms(1,3)] log_okD [OF assms(2,4)] assms(5) by simp
  then show ?thesis by simp
qed

lemma log_ok_snoc:
  assumes "log_ok H es" and "le_Index e = length es + 1" and "H (length es + 1, le_Term e) = Some (es @ [e])"
  shows "log_ok H (es @ [e])"
  using assms unfolding log_ok_def by (auto simp: nth_append less_Suc_eq)

section \<open>\<open>AppendAfter\<close> on such logs\<close>

lemma appendOne_ok:
  assumes l: "flat l" "log_ok H (rl_entries l)" and e: "log_ok H (pre @ [e])"
    and pre: "take (length pre) (rl_entries l) = pre" "length pre \<le> length (rl_entries l)"
    and step: "Log_appendOne e l = Some l'"
  shows "flat l' \<and> log_ok H (rl_entries l') \<and> take (length pre + 1) (rl_entries l') = pre @ [e]"
proof -
  have idx: "le_Index e = length pre + 1" using log_okD [OF e, of "length pre"] by simp
  have inv: "log_inv l" using l log_okD [OF l(2)] by (simp add: log_inv_def flat_def)
  have l': "l' = (if log_skips l e then l else cut_append l e)" using appendOne_eq [OF inv, of e] step by simp
  have skips: "log_skips l e \<longleftrightarrow> length pre < length (rl_entries l) \<and> le_Term (rl_entries l ! length pre) = le_Term e"
    using l(1) pre(2) idx by (auto simp: log_skips_def log_at_def flat_def)
  show ?thesis
  proof (cases "log_skips l e")
    case True
    then have "take (length pre + 1) (rl_entries l) = take (length pre + 1) (pre @ [e])"
      by (intro log_ok_agree [OF l(2) e]) (use skips in simp_all)
    then show ?thesis using l l' True by simp
  next
    case False
    then have "rl_entries l' = pre @ [e]" "rl_nextIndex l' = length pre + 2" "rl_snapshotIndex l' = 0"
      using l' l(1) idx pre(1) by (simp_all add: cut_append_def flat_def)
    then show ?thesis using e by (simp add: flat_def)
  qed
qed

lemma appendLoop_ok:
  assumes "flat l" "log_ok H (rl_entries l)" "log_ok H (pre @ es)" "take (length pre) (rl_entries l) = pre"
    "length pre \<le> length (rl_entries l)" "Log_appendLoop es l = Some l'"
  shows "flat l' \<and> log_ok H (rl_entries l')"
  using assms
proof (induction es arbitrary: pre l)
  case (Cons e es)
  then obtain l1 where one: "Log_appendOne e l = Some l1" and rest: "Log_appendLoop es l1 = Some l'"
    by (auto simp: Option.bind_eq_Some_conv)
  have pe: "log_ok H (pre @ [e])" using log_ok_prefix [of H "pre @ [e]" es] Cons.prems(3) by simp
  note l1 = appendOne_ok [OF Cons.prems(1,2) pe Cons.prems(4,5) one]
  have "length pre + 1 \<le> length (rl_entries l1)" using arg_cong [OF l1 [THEN conjunct2, THEN conjunct2], of length] by simp
  then show ?case using Cons.IH [of l1 "pre @ [e]"] l1 rest Cons.prems(3) by simp
qed simp

section \<open>What the methods do to the log\<close>

definition same_log :: "RaftNode \<Rightarrow> RaftNode \<Rightarrow> bool" where
  "same_log n n' \<longleftrightarrow> rl_entries (bn_log n') = rl_entries (bn_log n) \<and>
     rl_snapshotIndex (bn_log n') = rl_snapshotIndex (bn_log n) \<and> rl_nextIndex (bn_log n') = rl_nextIndex (bn_log n)"

lemma same_log_refl [simp]: "bn_log n' = bn_log n \<Longrightarrow> same_log n n'"
  by (simp add: same_log_def)

lemma same_log_flat: "same_log n n' \<Longrightarrow> flat (bn_log n') = flat (bn_log n)"
  by (simp add: same_log_def flat_def)

text \<open>An append message a leader may send: a slice of its own log.\<close>

definition append_of :: "RaftNode \<Rightarrow> Message \<Rightarrow> bool" where
  "append_of n m \<longleftrightarrow> rn_role n = roleLeader \<and> m_Term m = rn_currentTerm n \<and> m_SenderID m = bn_id n \<and>
     m_Entries m = drop (m_PrevLogIndex m) (rl_entries (bn_log n)) \<and>
     (0 < m_PrevLogIndex m \<and> m_Entries m \<noteq> [] \<longrightarrow> m_PrevLogTerm m = le_Term (rl_entries (bn_log n) ! (m_PrevLogIndex m - 1)))"

definition appends_of :: "RaftNode \<Rightarrow> Action list \<Rightarrow> bool" where
  "appends_of n as \<longleftrightarrow> (\<forall>m \<in> set (sent_of as). m_Type m = MsgAppendEntries \<longrightarrow> append_of n m)"

lemma appends_of_Nil [simp]: "sent_of as = [] \<Longrightarrow> appends_of n as"
  by (simp add: appends_of_def)

lemma flat_GetFrom:
  assumes "flat l" and "0 < i"
  shows "Log_GetFrom l i = Some (drop (i - 1) (rl_entries l))"
  using assms by (auto simp: Log_GetFrom_def flat_def Log_pos_def slice_from_def Let_def nat_diff_distrib)

lemma flat_TermAt:
  assumes "flat l" and "0 < i" and "i \<le> length (rl_entries l)"
  shows "Log_TermAt l i = Some (le_Term (rl_entries l ! (i - 1)))"
  using assms by (auto simp: Log_TermAt_def flat_def Log_pos_def go_at_def nat_diff_distrib)

lemma sendAppend_appends:
  assumes "flat (bn_log n)" and "RaftNode_sendAppend jm p n = Some as"
  shows "appends_of n as"
proof (cases "rn_role n = roleLeader")
  case True
  define ni where "ni = (if zget (rn_nextIndex n) p = 0 then 1 else zget (rn_nextIndex n) p)"
  have ni: "0 < ni" by (simp add: ni_def)
  have snap: "Log_SnapshotBoundary (bn_log n) = (0, rl_snapshotTerm (bn_log n))" using assms(1) by (simp add: Log_SnapshotBoundary_def flat_def)
  obtain pt where pt: "Log_TermAt (bn_log n) (ni - 1) = Some pt"
    and as: "as = [Send ((msg_of MsgAppendEntries (bn_id n) p)\<lparr>m_Term := rn_currentTerm n, m_PrevLogIndex := ni - 1,
       m_PrevLogTerm := pt, m_Entries := drop (ni - 1) (rl_entries (bn_log n)), m_LeaderCommit := Log_CommitIndex (bn_log n)\<rparr>)]"
    using assms(2) True snap flat_GetFrom [OF assms(1) ni]
    unfolding RaftNode_sendAppend_def Let_def ni_def [symmetric] by (auto simp: Option.bind_eq_Some_conv)
  have "pt = le_Term (rl_entries (bn_log n) ! (ni - 2))" if "0 < ni - 1" "ni - 1 < length (rl_entries (bn_log n))"
    using pt flat_TermAt [OF assms(1), of "ni - 1"] that by (simp add: numeral_2_eq_2)
  then show ?thesis using True by (auto simp: appends_of_def append_of_def as numeral_2_eq_2)
qed (use assms(2) in \<open>simp add: RaftNode_sendAppend_def\<close>)

lemma sendAppend_all_appends: "flat (bn_log n) \<Longrightarrow> sendAppend_all jm ps n = Some as \<Longrightarrow> appends_of n as"
proof (induction ps arbitrary: as)
  case (Cons p ps)
  then obtain bs cs where "RaftNode_sendAppend jm p n = Some bs" "sendAppend_all jm ps n = Some cs" "as = bs @ cs"
    by (auto simp: Option.bind_eq_Some_conv)
  then show ?case using sendAppend_appends [OF Cons.prems(1)] Cons.IH [OF Cons.prems(1)] unfolding appends_of_def by auto
qed simp

lemma heartbeat_appends: "flat (bn_log n) \<Longrightarrow> RaftNode_maybeHeartbeat jm n = Some as \<Longrightarrow> appends_of n as"
  using sendAppend_all_appends [of n jm "bn_peers n" as]
  by (auto simp: RaftNode_maybeHeartbeat_def BaseNode_GetPeers_def split: if_splits)

lemma maybeCompact_flat:
  assumes "RaftNode_maybeCompact n = Some n'" and "flat (bn_log n)" and "rl_snapshotIndex (bn_log n') = 0"
  shows "n' = n"
proof (rule ccontr)
  assume ne: "n' \<noteq> n"
  obtain a t l where l: "Log_Compact (bn_log n) a t = Some l" "n' = n\<lparr>bn_log := l\<rparr>"
    using assms(1) ne unfolding RaftNode_maybeCompact_def Let_def Log_SnapshotBoundary_def
    by (auto simp: Option.bind_eq_Some_conv split: if_splits)
  have "l = bn_log n \<or> 0 < rl_snapshotIndex l"
    using l(1) assms(2) unfolding Log_Compact_def Let_def flat_def by (auto simp: Option.bind_eq_Some_conv split: if_splits)
  then show False using assms(3) l(2) ne by auto
qed

text \<open>A call that is not a proposal keeps the log; a proposal appends one entry of the leader's term.\<close>

definition appended_entry :: "RaftNode \<Rightarrow> RaftNode \<Rightarrow> bool" where
  "appended_entry n n' \<longleftrightarrow> rn_role n = roleLeader \<and> rn_role n' = roleLeader \<and> rn_currentTerm n' = rn_currentTerm n \<and>
     (\<exists>e. le_Term e = rn_currentTerm n \<and> bn_log n' = fst (Log_Append (bn_log n) e))"

lemma flat_Append: "flat l \<Longrightarrow> flat (fst (Log_Append l e)) \<and>
    rl_entries (fst (Log_Append l e)) = rl_entries l @ [e\<lparr>le_Index := length (rl_entries l) + 1\<rparr>]"
  by (simp add: Log_Append_def flat_def Let_def)

lemma propose_log:
  assumes "RaftNode_propose jm now key val op n = Some (Inr (n', idx, as))" and "flat (bn_log n)"
  shows "appended_entry n n' \<and> appends_of n' as"
proof -
  note f = propose_frame [OF assms(1)]
  then have "appended_entry n n'" "sendAppend_all jm (bn_peers n') n' = Some as" by (auto simp: appended_entry_def)
  then show ?thesis using sendAppend_all_appends [of n' jm "bn_peers n'" as] flat_Append [OF assms(2)] by (auto simp: appended_entry_def)
qed

lemma call_log:
  assumes c: "raft_call jm c n = Some (n', as)" and flat: "flat (bn_log n)" and snap: "rl_snapshotIndex (bn_log n') = 0"
  shows "(same_log n n' \<or> appended_entry n n') \<and> appends_of n' as"
proof (cases c)
  case (CElect now draw)
  then show ?thesis using c
    by (auto simp: RaftNode_electTick_def RaftNode_maybeElect_def Let_def appends_of_def Option.bind_eq_Some_conv
        RaftNode_touch_def RaftNode_resetTimeout_def split: if_splits)
next
  case CBeat
  show ?thesis
  proof (cases "BaseNode_isPaused n")
    case False
    then have "RaftNode_maybeHeartbeat jm n = Some as" "RaftNode_maybeCompact n = Some n'"
      using c CBeat by (auto simp: RaftNode_beatTick_def Option.bind_eq_Some_conv)
    then show ?thesis using heartbeat_appends [OF flat] maybeCompact_flat [OF _ flat snap] by auto
  qed (use c CBeat in \<open>simp add: RaftNode_beatTick_def\<close>)
next
  case CHeartbeat
  then show ?thesis using c heartbeat_appends [OF flat] by auto
next
  case (CWrite now key val)
  then show ?thesis using c propose_log [OF _ flat]
    by (auto simp: of_client_def RaftNode_Write_def split: if_splits option.splits sum.splits)
next
  case (CDelete now key)
  then show ?thesis using c propose_log [OF _ flat]
    by (auto simp: of_client_def RaftNode_Delete_def split: if_splits option.splits sum.splits)
qed (use c in \<open>auto simp: RaftNode_Write_finish_def RaftNode_Read_def
      BaseNode_Pause_def BaseNode_Resume_def BaseNode_Stop_def BaseNode_SetClockSkewMillis_def
      BaseNode_publishStateChange_def Let_def split: if_splits option.splits sum.splits\<close>)

lemma accept_leader_fields:
  "bn_log (accept_leader now msg n) = bn_log n" "rn_role (accept_leader now msg n) = roleFollower"
  by (simp_all add: accept_leader_def RaftNode_stepDownLocked_def RaftNode_touch_def BaseNode_setRole_def Let_def)

lemma installSnap_log:
  assumes "RaftNode_handleInstallSnap ju now msg n = (n', as)" and "flat (bn_log n)" and "rl_snapshotIndex (bn_log n') = 0"
  shows "same_log n n' \<and> appends_of n' as"
proof (cases "m_Term msg < rn_currentTerm n")
  case True
  then show ?thesis using assms(1) by (auto simp: RaftNode_handleInstallSnap_def appends_of_def)
next
  case False
  have "appends_of n' as"
    using assms(1) False by (auto simp: RaftNode_handleInstallSnap_def Let_def Log_SnapshotBoundary_def appends_of_def)
  moreover have "bn_log n' = bn_log n"
    using assms False
    by (auto simp: RaftNode_handleInstallSnap_def Let_def Log_SnapshotBoundary_def accept_leader_fields flat_def
        Log_InstallSnapshot_def split: if_splits)
  ultimately show ?thesis by simp
qed

lemma handle_log:
  assumes h: "RaftNode_HandleMessage ju now m n = Some (n', as)" and flat: "flat (bn_log n)" and snap: "rl_snapshotIndex (bn_log n') = 0"
  obtains "same_log n n'" "appends_of n' as"
  | l last where "m_Type m = MsgAppendEntries" "rn_role n' = roleFollower" "appends_of n' as"
      "Log_Matches (bn_log n) (m_PrevLogIndex m) (m_PrevLogTerm m) = Some True"
      "Log_appendLoop (m_Entries m) (bn_log n) = Some l"
      "rl_entries (bn_log n') = rl_entries l" "rl_snapshotIndex (bn_log n') = rl_snapshotIndex l" "rl_nextIndex (bn_log n') = rl_nextIndex l"
proof -
  note dispatch = h [unfolded RaftNode_HandleMessage_def]
  show thesis
  proof (cases "BaseNode_isPaused n")
    case True
    then show thesis using dispatch that(1) by simp
  next
    case False
    show thesis
    proof (cases "m_Type m")
      case MsgVoteRequest
      then have "RaftNode_handleVoteRequest now m n = Some (n', as)" using dispatch False by simp
      then show thesis by (rule voteRequest_cases) (rule that(1), simp_all add: appends_of_def)
    next
      case MsgVoteResponse
      then have "RaftNode_handleVoteResponse now m n = (n', as)" using dispatch False by simp
      then show thesis by (rule voteResponse_cases) (rule that(1); simp)+
    next
      case MsgAppendEntries
      then have "RaftNode_handleAppendEntries now m n = Some (n', as)" using dispatch False by simp
      then show thesis
      proof (cases rule: appendEntries_cases)
        case (3 l last ci st ap)
        then show thesis using MsgAppendEntries
          by (intro that(2) [of l]) (auto simp: Log_AppendAfter_def accept_leader_fields appends_of_def)
      qed (rule that(1); simp add: accept_leader_fields appends_of_def)+
    next
      case MsgAppendAck
      then have as: "as = []" and a: "RaftNode_handleAppendAck m n = Some n'" using dispatch False by auto
      have "same_log n n'" using appendAck_cases [OF a]
        by (auto simp: same_log_def BaseNode_setRole_def RaftNode_stepDownLocked_def)
      then show thesis using as by (intro that(1)) simp_all
    next
      case MsgInstallSnap
      then have "RaftNode_handleInstallSnap ju now m n = (n', as)" using dispatch False by simp
      then show thesis using installSnap_log [OF _ flat snap] that(1) by blast
    qed (use dispatch False in \<open>simp_all add: that(1)\<close>)
  qed
qed

text \<open>How the role may change: only a candidate becomes a leader, within its term.\<close>

definition role_ok :: "RaftNode \<Rightarrow> RaftNode \<Rightarrow> bool" where
  "role_ok n n' \<longleftrightarrow> rn_currentTerm n \<le> rn_currentTerm n' \<and>
     (rn_role n' = roleLeader \<longrightarrow> rn_currentTerm n' = rn_currentTerm n \<and> rn_role n \<in> {roleLeader, roleCandidate}) \<and>
     (rn_role n' = roleCandidate \<longrightarrow> rn_currentTerm n < rn_currentTerm n' \<or> rn_currentTerm n' = rn_currentTerm n \<and> rn_role n = roleCandidate)"

lemma quiet_role: "quiet n T n' as \<Longrightarrow> role_ok n n'"
  by (auto simp: quiet_def same_vote_def role_ok_def)

lemma call_role:
  assumes "raft_call jm c n = Some (n', as)"
  shows "role_ok n n'"
proof (cases "\<exists>now draw. c = CElect now draw")
  case True
  then obtain now draw where "RaftNode_electTick now draw n = Some (n', as)" using assms by auto
  then show ?thesis by (rule elect_cases [OF _ subset_UNIV]) (erule quiet_role, simp add: role_ok_def)
next
  case False
  then show ?thesis using quiet_call [OF assms _ subset_UNIV] quiet_role by blast
qed

lemma handle_role:
  assumes h: "RaftNode_HandleMessage ju now m n = Some (n', as)"
  shows "role_ok n n'"
proof -
  note dispatch = h [unfolded RaftNode_HandleMessage_def]
  have idle: "role_ok n n" by (simp add: role_ok_def)
  show ?thesis
  proof (cases "BaseNode_isPaused n \<or> m_Type m \<notin> {MsgVoteRequest, MsgVoteResponse, MsgAppendEntries, MsgAppendAck, MsgInstallSnap}")
    case True
    then have "n' = n" using dispatch by (auto split: MessageType.splits)
    then show ?thesis using idle by simp
  next
    case False
    then consider "RaftNode_handleVoteRequest now m n = Some (n', as)" | "RaftNode_handleVoteResponse now m n = (n', as)"
      | "RaftNode_handleAppendEntries now m n = Some (n', as)" | "RaftNode_handleAppendAck m n = Some n'"
      | "RaftNode_handleInstallSnap ju now m n = (n', as)" using dispatch by auto
    then show ?thesis
    proof cases
      case 1
      then show ?thesis
        by (rule voteRequest_cases) (use idle in \<open>auto simp: role_ok_def\<close>)
    next
      case 2
      then show ?thesis by (rule voteResponse_cases) (erule quiet_role, auto simp: role_ok_def)
    next
      case 3
      show ?thesis by (rule quiet_role [OF quiet_appendEntries [OF 3 UNIV_I]])
    next
      case 4
      show ?thesis by (rule quiet_role [OF quiet_appendAck [OF 4]])
    next
      case 5
      show ?thesis by (rule quiet_role [OF quiet_installSnap [OF 5 UNIV_I]])
    qed
  qed
qed

section \<open>The invariant of the logs\<close>

definition slice_ok :: "(nat \<times> nat \<rightharpoonup> LogEntry list) \<Rightarrow> Message \<Rightarrow> bool" where
  "slice_ok H m \<longleftrightarrow> (\<exists>pre. length pre = m_PrevLogIndex m \<and> log_ok H (pre @ m_Entries m) \<and>
     (pre \<noteq> [] \<longrightarrow> le_Term (last pre) = m_PrevLogTerm m))"

definition logs_inv :: "RaftSys \<Rightarrow> bool" where
  "logs_inv s \<longleftrightarrow> vote_inv s \<and>
     (\<forall>i \<in> set (rs_ids s). flat (bn_log (rs_node s i)) \<and> log_ok (rs_logs s) (rl_entries (bn_log (rs_node s i)))) \<and>
     (\<forall>i \<in> set (rs_ids s). rn_role (rs_node s i) = roleLeader \<longrightarrow>
        (\<forall>k es. rs_logs s (k, rn_currentTerm (rs_node s i)) = Some es \<longrightarrow> k \<le> length (rl_entries (bn_log (rs_node s i))))) \<and>
     (\<forall>m \<in># rs_net s. m_Type m = MsgAppendEntries \<and> m_Entries m \<noteq> [] \<longrightarrow> slice_ok (rs_logs s) m) \<and>
     (\<forall>k t. rs_logs s (k, t) \<noteq> None \<longrightarrow> (\<exists>c. (t, c) \<in> rs_leaders s)) \<and>
     (\<forall>i \<in> set (rs_ids s). (rn_role (rs_node s i) = roleCandidate \<longrightarrow> (rn_currentTerm (rs_node s i), i) \<notin> rs_leaders s) \<and>
        (\<forall>t > rn_currentTerm (rs_node s i). (t, i) \<notin> rs_leaders s))"

lemma logs_invD:
  assumes "logs_inv s"
  shows "vote_inv s" "i \<in> set (rs_ids s) \<Longrightarrow> flat (bn_log (rs_node s i))"
    "i \<in> set (rs_ids s) \<Longrightarrow> log_ok (rs_logs s) (rl_entries (bn_log (rs_node s i)))"
    "i \<in> set (rs_ids s) \<Longrightarrow> rn_role (rs_node s i) = roleLeader \<Longrightarrow> rs_logs s (k, rn_currentTerm (rs_node s i)) = Some es \<Longrightarrow>
       k \<le> length (rl_entries (bn_log (rs_node s i)))"
    "m \<in># rs_net s \<Longrightarrow> m_Type m = MsgAppendEntries \<Longrightarrow> m_Entries m \<noteq> [] \<Longrightarrow> slice_ok (rs_logs s) m"
    "rs_logs s (k, t) \<noteq> None \<Longrightarrow> \<exists>c. (t, c) \<in> rs_leaders s"
    "i \<in> set (rs_ids s) \<Longrightarrow> rn_role (rs_node s i) = roleCandidate \<Longrightarrow> (rn_currentTerm (rs_node s i), i) \<notin> rs_leaders s"
    "i \<in> set (rs_ids s) \<Longrightarrow> rn_currentTerm (rs_node s i) < t \<Longrightarrow> (t, i) \<notin> rs_leaders s"
  using assms unfolding logs_inv_def by auto

lemma leader_unique: "vote_inv s \<Longrightarrow> (t, i) \<in> rs_leaders s \<Longrightarrow> (t, j) \<in> rs_leaders s \<Longrightarrow> i = j"
  using elected_unique [OF List.finite_set] vote_invD(6) by blast

lemma leader_known:
  "vote_inv s \<Longrightarrow> i \<in> set (rs_ids s) \<Longrightarrow> rn_role (rs_node s i) = roleLeader \<Longrightarrow> (rn_currentTerm (rs_node s i), i) \<in> rs_leaders s"
  using vote_invD(2) [of s i] by (simp add: node_ok_def)

lemma slice_ok_mono: "slice_ok H m \<Longrightarrow> H \<subseteq>\<^sub>m H' \<Longrightarrow> slice_ok H' m"
  unfolding slice_ok_def using log_ok_mono by blast

lemma append_of_slice:
  assumes "append_of n m" and "log_ok H (rl_entries (bn_log n))" and "m_Entries m \<noteq> []"
  shows "slice_ok H m"
proof -
  let ?es = "rl_entries (bn_log n)" let ?p = "m_PrevLogIndex m"
  have m: "m_Entries m = drop ?p ?es" "?p < length ?es" "0 < ?p \<longrightarrow> m_PrevLogTerm m = le_Term (?es ! (?p - 1))"
    using assms(1,3) by (auto simp: append_of_def)
  then have "take ?p ?es \<noteq> [] \<longrightarrow> le_Term (last (take ?p ?es)) = m_PrevLogTerm m" by (auto simp: last_conv_nth min_def)
  then show ?thesis unfolding slice_ok_def using m assms(2) by (intro exI [of _ "take ?p ?es"]) simp
qed

lemma update_logs [simp]: "rs_logs (raft_update i n' gone as s) = note_log n' (rs_logs s)"
  by (simp add: raft_update_def)

text \<open>Recording a log that is already recorded changes nothing.\<close>

lemma note_log_same:
  assumes "log_ok H (rl_entries (bn_log n))"
  shows "note_log n H = H"
proof -
  let ?es = "rl_entries (bn_log n)"
  have "H (le_Index (last ?es), le_Term (last ?es)) = Some ?es" if "?es \<noteq> []"
    using log_okD [OF assms, of "length ?es - 1"] that by (simp add: last_conv_nth)
  then show ?thesis by (auto simp: note_log_def Let_def)
qed

lemma log_step:
  fixes s gone as i n'
  defines "s' \<equiv> raft_update i n' gone as s"
  assumes inv: "logs_inv s" and vinv: "vote_inv s'" and i: "i \<in> set (rs_ids s)" and role: "role_ok (rs_node s i) n'"
    and ext: "rs_logs s \<subseteq>\<^sub>m rs_logs s'" and flat: "flat (bn_log n')" and ok: "log_ok (rs_logs s') (rl_entries (bn_log n'))"
    and bound: "\<And>k es. rn_role n' = roleLeader \<Longrightarrow> rs_logs s' (k, rn_currentTerm n') = Some es \<Longrightarrow> k \<le> length (rl_entries (bn_log n'))"
    and fresh: "\<And>k t. rs_logs s' (k, t) \<noteq> None \<Longrightarrow> rs_logs s (k, t) \<noteq> None \<or> t = rn_currentTerm n' \<and> rn_role n' = roleLeader"
    and sent: "appends_of n' as"
  shows "logs_inv s'"
  unfolding logs_inv_def
proof (intro conjI ballI allI impI)
  show "vote_inv s'" by fact
  have ids: "set (rs_ids s') = set (rs_ids s)" by (simp add: s'_def)
  fix j assume j: "j \<in> set (rs_ids s')"
  show "flat (bn_log (rs_node s' j))" "log_ok (rs_logs s') (rl_entries (bn_log (rs_node s' j)))"
    using logs_invD(2,3) [OF inv] j ids flat ok log_ok_mono [OF _ ext] by (auto simp: s'_def)
  show "k \<le> length (rl_entries (bn_log (rs_node s' j)))"
    if r: "rn_role (rs_node s' j) = roleLeader" and k: "rs_logs s' (k, rn_currentTerm (rs_node s' j)) = Some es" for k es
  proof (cases "j = i")
    case True
    then show ?thesis using bound r k by (simp add: s'_def)
  next
    case False
    then have same: "rs_node s' j = rs_node s j" by (simp add: s'_def)
    have "\<not> (rn_currentTerm (rs_node s j) = rn_currentTerm n' \<and> rn_role n' = roleLeader)"
    proof
      assume t: "rn_currentTerm (rs_node s j) = rn_currentTerm n' \<and> rn_role n' = roleLeader"
      then have "(rn_currentTerm n', i) \<in> rs_leaders s'" by (simp add: s'_def)
      moreover have "(rn_currentTerm n', j) \<in> rs_leaders s'" using leader_known [OF vinv j r] t same by simp
      ultimately show False using leader_unique [OF vinv] False by blast
    qed
    then have "rs_logs s (k, rn_currentTerm (rs_node s j)) \<noteq> None" using fresh k same by (metis option.distinct(1))
    then show ?thesis using logs_invD(4) [OF inv] j ids r same by fastforce
  qed
  show "(rn_currentTerm (rs_node s' j), j) \<notin> rs_leaders s'" if "rn_role (rs_node s' j) = roleCandidate"
    using that j ids role logs_invD(7,8) [OF inv, of j] by (auto simp: s'_def role_ok_def)
  show "(t, j) \<notin> rs_leaders s'" if "rn_currentTerm (rs_node s' j) < t" for t
    using that j ids role logs_invD(8) [OF inv, of j t] by (cases "j = i"; fastforce simp: s'_def role_ok_def split: if_splits)
next
  fix m assume m: "m \<in># rs_net s'" "m_Type m = MsgAppendEntries \<and> m_Entries m \<noteq> []"
  show "slice_ok (rs_logs s') m"
  proof (cases "m \<in> set (sent_of as)")
    case True
    then show ?thesis using sent m(2) append_of_slice [OF _ ok] by (auto simp: appends_of_def)
  next
    case False
    then have "m \<in># rs_net s" using m(1) by (auto simp: s'_def dest: in_diffD)
    then show ?thesis using slice_ok_mono [OF _ ext] logs_invD(5) [OF inv] m(2) by blast
  qed
next
  fix k t assume "rs_logs s' (k, t) \<noteq> None"
  then show "\<exists>c. (t, c) \<in> rs_leaders s'" using fresh logs_invD(6) [OF inv, of k t] by (fastforce simp: s'_def)
qed

section \<open>Every step keeps the logs in order\<close>

lemma same_log_step:
  assumes inv: "logs_inv s" and vinv: "vote_inv (raft_update i n' gone as s)" and i: "i \<in> set (rs_ids s)"
    and role: "role_ok (rs_node s i) n'" and same: "same_log (rs_node s i) n'" and sent: "appends_of n' as"
  shows "logs_inv (raft_update i n' gone as s)"
proof -
  let ?n = "rs_node s i"
  have es: "rl_entries (bn_log n') = rl_entries (bn_log ?n)" using same by (simp add: same_log_def)
  have ok: "log_ok (rs_logs s) (rl_entries (bn_log n'))" using logs_invD(3) [OF inv i] es by simp
  have H: "rs_logs (raft_update i n' gone as s) = rs_logs s" by (simp add: note_log_same [OF ok])
  have bound: "k \<le> length (rl_entries (bn_log n'))" if r: "rn_role n' = roleLeader" and k: "rs_logs s (k, rn_currentTerm n') = Some xs" for k xs
  proof -
    have t: "rn_currentTerm n' = rn_currentTerm ?n" and "rn_role ?n \<in> {roleLeader, roleCandidate}" using role r by (auto simp: role_ok_def)
    then consider "rn_role ?n = roleLeader" | "rn_role ?n = roleCandidate" by blast
    then show ?thesis
    proof cases
      case 1
      then show ?thesis using logs_invD(4) [OF inv i] k t es by simp
    next
      case 2
      obtain c where c: "(rn_currentTerm n', c) \<in> rs_leaders s" using logs_invD(6) [OF inv] k by blast
      then have "c = i" by (intro leader_unique [OF vinv, of "rn_currentTerm n'"]) (use r in simp_all)
      then show ?thesis using logs_invD(7) [OF inv i 2] c t by simp
    qed
  qed
  show ?thesis
    by (rule log_step [OF inv vinv i role]) (use H ok bound sent same_log_flat [OF same] logs_invD(2) [OF inv i] in auto)
qed

lemma append_step:
  assumes inv: "logs_inv s" and vinv: "vote_inv (raft_update i n' gone as s)" and i: "i \<in> set (rs_ids s)"
    and role: "role_ok (rs_node s i) n'" and app: "appended_entry (rs_node s i) n'" and sent: "appends_of n' as"
  shows "logs_inv (raft_update i n' gone as s)"
proof -
  let ?n = "rs_node s i" and ?H = "rs_logs s"
  obtain e where r: "rn_role ?n = roleLeader" "rn_role n' = roleLeader" "rn_currentTerm n' = rn_currentTerm ?n"
    and e: "le_Term e = rn_currentTerm ?n" "bn_log n' = fst (Log_Append (bn_log ?n) e)"
    using app by (auto simp: appended_entry_def)
  define es where "es = rl_entries (bn_log ?n)"
  define e' where "e' = e\<lparr>le_Index := length es + 1\<rparr>"
  have n': "flat (bn_log n')" "rl_entries (bn_log n') = es @ [e']"
    using flat_Append [OF logs_invD(2) [OF inv i], of e] e(2) by (simp_all add: es_def e'_def)
  have e': "le_Index e' = length es + 1" "le_Term e' = rn_currentTerm ?n" by (simp_all add: e'_def e(1))
  have new: "?H (length es + 1, rn_currentTerm ?n) = None"
    using logs_invD(4) [OF inv i r(1), of "length es + 1"]
    by (cases "?H (length es + 1, rn_currentTerm ?n)") (simp_all add: es_def)
  have H: "rs_logs (raft_update i n' gone as s) = ?H((length es + 1, rn_currentTerm ?n) \<mapsto> es @ [e'])"
    by (simp add: note_log_def n' r e' Let_def)
  have ext: "?H \<subseteq>\<^sub>m ?H((length es + 1, rn_currentTerm ?n) \<mapsto> es @ [e'])" using new by (auto simp: map_le_def)
  have "log_ok ?H es" using logs_invD(3) [OF inv i] by (simp add: es_def)
  from log_ok_mono [OF this ext] have ok: "log_ok (?H((length es + 1, rn_currentTerm ?n) \<mapsto> es @ [e'])) (es @ [e'])"
    by (rule log_ok_snoc) (simp_all add: e')
  have bound: "k \<le> length es" if "?H (k, rn_currentTerm ?n) = Some xs" for k xs
    using logs_invD(4) [OF inv i r(1)] that by (auto simp: es_def)
  show ?thesis
  proof (rule log_step [OF inv vinv i role])
    show "k \<le> length (rl_entries (bn_log n'))" if "rs_logs (raft_update i n' gone as s) (k, rn_currentTerm n') = Some xs" for k xs
      using that bound unfolding H r(3) n'(2) by (fastforce split: if_splits)
    show "rs_logs s (k, t) \<noteq> None \<or> t = rn_currentTerm n' \<and> rn_role n' = roleLeader"
      if "rs_logs (raft_update i n' gone as s) (k, t) \<noteq> None" for k t
      using that r unfolding H by (auto split: if_splits)
  qed (use H ext ok n' sent in simp_all)
qed

text \<open>A follower that passes the consistency check has the sender's log up to the previous index.\<close>

lemma matches_prefix:
  assumes flat: "flat l" and ok: "log_ok H (rl_entries l)" and slice: "log_ok H (pre @ es)"
    and m: "Log_Matches l (length pre) t = Some True" and t: "pre \<noteq> [] \<longrightarrow> le_Term (last pre) = t"
  shows "length pre \<le> length (rl_entries l) \<and> take (length pre) (rl_entries l) = pre"
proof (cases "pre = []")
  case False
  then have pos: "0 < length pre" and nat: "nat (int (length pre) - 1) = length pre - 1" by auto
  have len: "length pre \<le> length (rl_entries l)" and tl: "le_Term (rl_entries l ! (length pre - 1)) = t"
    using m flat pos by (auto simp: Log_Matches_def flat_def Log_pos_def go_at_def nat split: if_splits)
  have lt: "length pre - 1 < length (rl_entries l)" "length pre - 1 < length pre" using len pos by linarith+
  have "le_Term (pre ! (length pre - 1)) = t" using t False by (simp add: last_conv_nth)
  then have "take (length pre - 1 + 1) (rl_entries l) = take (length pre - 1 + 1) pre"
    using tl by (intro log_ok_agree [OF ok log_ok_prefix [OF slice] lt]) simp
  then show ?thesis using len pos by simp
qed simp

lemma deliver_step:
  assumes inv: "logs_inv s" and m: "m \<in># rs_net s" and i: "m_TargetID m \<in> set (rs_ids s)"
    and h: "RaftNode_HandleMessage ju now m (rs_node s (m_TargetID m)) = Some (n', as)"
    and snap: "rl_snapshotIndex (bn_log n') = 0"
  shows "logs_inv (raft_update (m_TargetID m) n' {#m#} as s)"
proof -
  let ?n = "rs_node s (m_TargetID m)" and ?s' = "raft_update (m_TargetID m) n' {#m#} as s"
  have vinv: "vote_inv ?s'" by (rule handle_step [OF logs_invD(1) [OF inv] m i h])
  note role = handle_role [OF h] and flat = logs_invD(2) [OF inv i] and ok = logs_invD(3) [OF inv i]
  show ?thesis using h flat snap
  proof (rule handle_log)
    assume "same_log ?n n'" "appends_of n' as"
    then show ?thesis by (rule same_log_step [OF inv vinv i role])
  next
    fix l
    assume t: "m_Type m = MsgAppendEntries" and r: "rn_role n' = roleFollower" and sent: "appends_of n' as"
      and match: "Log_Matches (bn_log ?n) (m_PrevLogIndex m) (m_PrevLogTerm m) = Some True"
      and loop: "Log_appendLoop (m_Entries m) (bn_log ?n) = Some l"
      and l: "rl_entries (bn_log n') = rl_entries l" "rl_snapshotIndex (bn_log n') = rl_snapshotIndex l" "rl_nextIndex (bn_log n') = rl_nextIndex l"
    have H: "rs_logs ?s' = rs_logs s" by (simp add: note_log_def r)
    have "flat l \<and> log_ok (rs_logs s) (rl_entries l)"
    proof (cases "m_Entries m = []")
      case True
      then show ?thesis using loop flat ok by simp
    next
      case False
      then obtain pre where pre: "length pre = m_PrevLogIndex m" "log_ok (rs_logs s) (pre @ m_Entries m)"
          "pre \<noteq> [] \<longrightarrow> le_Term (last pre) = m_PrevLogTerm m"
        using logs_invD(5) [OF inv m t] unfolding slice_ok_def by blast
      note p = matches_prefix [OF flat ok pre(2) match [folded pre(1)] pre(3)]
      show ?thesis by (rule appendLoop_ok [OF flat ok pre(2) p [THEN conjunct2] p [THEN conjunct1] loop])
    qed
    then have new: "flat (bn_log n')" "log_ok (rs_logs s) (rl_entries (bn_log n'))" using l by (simp_all add: flat_def)
    show ?thesis by (rule log_step [OF inv vinv i role]) (use H new r sent in auto)
  qed
qed

lemma logs_inv_step:
  assumes "raft_step jm ju s s'" and "logs_inv s" and "no_snap s'"
  shows "logs_inv s'"
  using assms
proof (cases rule: raft_step.cases)
  case (call i c n' as)
  have snap: "rl_snapshotIndex (bn_log n') = 0" using assms(3) call(1,2) by (auto simp: no_snap_def)
  have vinv: "vote_inv s'" using vote_inv_step [OF assms(1) logs_invD(1) [OF assms(2)]] .
  note step = vinv [unfolded call(1)] call(2) call_role [OF call(3)]
  show ?thesis unfolding call(1)
    using call_log [OF call(3) logs_invD(2) [OF assms(2) call(2)] snap] same_log_step [OF assms(2) step] append_step [OF assms(2) step]
    by blast
next
  case (deliver m now n' as)
  have snap: "rl_snapshotIndex (bn_log n') = 0" using assms(3) deliver(1,3) by (auto simp: no_snap_def)
  show ?thesis unfolding deliver(1) by (rule deliver_step [OF assms(2) deliver(2-4) snap])
next
  case (lose m)
  have "vote_inv s'" using vote_inv_step [OF assms(1) logs_invD(1) [OF assms(2)]] .
  then show ?thesis using assms(2) unfolding lose logs_inv_def by (auto dest: in_diffD)
qed

section \<open>Snapshots stay\<close>

abbreviation snap_of :: "RaftNode \<Rightarrow> nat" where
  "snap_of n \<equiv> rl_snapshotIndex (bn_log n)"

lemma appendLoop_snap: "Log_appendLoop es l = Some l' \<Longrightarrow> rl_snapshotIndex l' = rl_snapshotIndex l"
proof (induction es arbitrary: l)
  case (Cons e es)
  then obtain l1 where l1: "Log_appendOne e l = Some l1" and "rl_snapshotIndex l' = rl_snapshotIndex l1" by (auto simp: Option.bind_eq_Some_conv)
  moreover have "rl_snapshotIndex l1 = rl_snapshotIndex l"
    using l1 by (auto simp: Log_appendOne_def Log_install_def Let_def split: if_splits option.splits)
  ultimately show ?case by simp
qed simp

lemma Compact_snap: "Log_Compact l a t = Some l' \<Longrightarrow> rl_snapshotIndex l \<le> rl_snapshotIndex l'"
  unfolding Log_Compact_def Let_def
  by (cases "a \<le> rl_snapshotIndex l"; cases "(if a \<ge> rl_nextIndex l then rl_nextIndex l - 1 else a) \<le> rl_snapshotIndex l")
    (clarsimp simp: Option.bind_eq_Some_conv simp del: split_paired_Ex)+

lemma maybeCompact_snap: "RaftNode_maybeCompact n = Some n' \<Longrightarrow> snap_of n \<le> snap_of n'"
  unfolding RaftNode_maybeCompact_def Let_def Log_SnapshotBoundary_def
  by (auto dest: Compact_snap simp: Option.bind_eq_Some_conv split: if_splits)

lemma propose_snap: "RaftNode_propose jm now key val op n = Some (Inr (n', idx, as)) \<Longrightarrow> snap_of n' = snap_of n"
  using propose_frame [of jm now key val op n n' idx as] by (auto simp: Log_Append_def Let_def)

lemma call_snap:
  assumes c: "raft_call jm c n = Some (n', as)"
  shows "snap_of n \<le> snap_of n'"
proof (cases c)
  case (CElect now draw)
  then show ?thesis using c
    by (auto simp: RaftNode_electTick_def RaftNode_maybeElect_def Let_def Option.bind_eq_Some_conv
        RaftNode_touch_def RaftNode_resetTimeout_def split: if_splits)
next
  case CBeat
  then show ?thesis using c maybeCompact_snap by (auto simp: RaftNode_beatTick_def Option.bind_eq_Some_conv split: if_splits)
next
  case (CWrite now key val)
  then show ?thesis using c propose_snap
    by (auto simp: of_client_def RaftNode_Write_def split: if_splits option.splits sum.splits)
next
  case (CDelete now key)
  then show ?thesis using c propose_snap
    by (auto simp: of_client_def RaftNode_Delete_def split: if_splits option.splits sum.splits)
qed (use c in \<open>auto simp: RaftNode_Write_finish_def RaftNode_Read_def
      BaseNode_Pause_def BaseNode_Resume_def BaseNode_Stop_def BaseNode_SetClockSkewMillis_def
      BaseNode_publishStateChange_def Let_def split: if_splits option.splits sum.splits\<close>)

lemma handle_snap:
  assumes h: "RaftNode_HandleMessage ju now m n = Some (n', as)"
  shows "snap_of n \<le> snap_of n'"
proof -
  note dispatch = h [unfolded RaftNode_HandleMessage_def]
  show ?thesis
  proof (cases "BaseNode_isPaused n \<or> m_Type m \<notin> {MsgVoteRequest, MsgVoteResponse, MsgAppendEntries, MsgAppendAck, MsgInstallSnap}")
    case True
    then have "n' = n" using dispatch by (auto split: MessageType.splits)
    then show ?thesis by simp
  next
    case False
    then consider "RaftNode_handleVoteRequest now m n = Some (n', as)" | "RaftNode_handleVoteResponse now m n = (n', as)"
      | "RaftNode_handleAppendEntries now m n = Some (n', as)" | "RaftNode_handleAppendAck m n = Some n'"
      | "RaftNode_handleInstallSnap ju now m n = (n', as)" using dispatch by auto
    then show ?thesis
    proof cases
      case 1
      then show ?thesis by (rule voteRequest_cases) simp
    next
      case 2
      then show ?thesis by (rule voteResponse_cases) simp_all
    next
      case 3
      then show ?thesis
        by (cases rule: appendEntries_cases) (auto simp: accept_leader_fields Log_AppendAfter_def appendLoop_snap)
    next
      case 4
      from appendAck_cases [OF this] show ?thesis by (auto simp: BaseNode_setRole_def RaftNode_stepDownLocked_def)
    next
      case 5
      then show ?thesis
        by (auto simp: RaftNode_handleInstallSnap_def Let_def Log_SnapshotBoundary_def accept_leader_fields
            Log_InstallSnapshot_def split: if_splits)
    qed
  qed
qed

lemma no_snap_back:
  assumes "raft_step jm ju s s'" and "no_snap s'"
  shows "no_snap s"
  using assms(1)
proof (cases rule: raft_step.cases)
  case (call i c n' as)
  then show ?thesis using assms(2) call_snap [OF call(3)] unfolding call(1) no_snap_def by (auto split: if_splits)
next
  case (deliver m now n' as)
  then show ?thesis using assms(2) handle_snap [OF deliver(4)] unfolding deliver(1) no_snap_def by (auto split: if_splits)
next
  case (lose m)
  then show ?thesis using assms(2) by (simp add: no_snap_def)
qed

lemma logs_inv_reach:
  assumes "(raft_step jm ju)\<^sup>*\<^sup>* s s'" and "no_snap s'" and "logs_inv s"
  shows "logs_inv s'"
  using assms by (induction rule: rtranclp_induct) (use no_snap_back logs_inv_step in blast)+

lemma logs_inv_init:
  assumes "distinct ids" and "[] \<notin> set ids"
  shows "logs_inv (init_raft cid now draw ids)"
proof -
  have "flat NewReplicationLog" "rl_entries NewReplicationLog = []" by (simp_all add: flat_def NewReplicationLog_def)
  then show ?thesis using vote_inv_init [OF assms, of cid now draw] assms(1)
    unfolding logs_inv_def by (simp add: init_raft_def init_node_fields)
qed

section \<open>Log matching\<close>

lemma flat_Get:
  assumes "flat l" and "log_ok H (rl_entries l)"
  shows "Log_Get l k = Some (if 0 < k \<and> k \<le> length (rl_entries l) then Some (rl_entries l ! (k - 1)) else None)"
proof -
  have "log_inv l" using assms(1) log_okD [OF assms(2)] by (simp add: log_inv_def flat_def)
  then show ?thesis using assms(1) by (auto simp: Get_at log_at_def flat_def)
qed


abbreviation no_json :: "(string, KVEntry) fmap \<Rightarrow> string" where
  "no_json \<equiv> \<lambda>_. []"

abbreviation no_parse :: "string \<Rightarrow> (string, KVEntry) fmap option" where
  "no_parse \<equiv> \<lambda>_. None"

text \<open>A leader is elected, writes, and one follower takes the entry.\<close>

definition demo_events :: "RaftEvent list" where
  "demo_events =
     [ECall ''a'' (CElect 200000000 0), EDeliver 201000000 0, EDeliver 202000000 1, ELose 0,
      ECall ''a'' (CWrite 203000000 ''x'' (Some ''1'')), EDeliver 204000000 0]"

lemma demo_replication:
  "map_option (\<lambda>(s, ms). (map (\<lambda>i. rl_snapshotIndex (bn_log (rs_node s i))) demo_ids,
       map_option (map_option le_Term) (Log_Get (bn_log (rs_node s ''a'')) 1),
       map_option (map_option le_Term) (Log_Get (bn_log (rs_node s ''b'')) 1), rs_ids s))
     (raft_exec no_json no_parse demo_events (init_raft ''k'' 0 (\<lambda>_. 0) demo_ids, [])) =
   Some ([0, 0, 0], Some (Some 1), Some (Some 1), demo_ids)"
  by code_simp


section \<open>Commitment\<close>

text \<open>
  A follower acknowledges an append with the last index of its whole log, leftover entries of
  an older leader included, and the leader counts it as replicated up to there. In the run below the
  leader \<open>a\<close> of term 1 holds an entry nobody else has; the leader \<open>b\<close> of term 2 takes its
  acknowledgement of an empty heartbeat for a copy of the entry it writes next and commits that entry
  alone; then \<open>a\<close>, elected again in term 3, commits its own entry at the same index.
\<close>

definition split_events :: "RaftEvent list" where
  "split_events =
     [ECall ''a'' (CElect 200000000 0), EDeliver 201000000 0, EDeliver 202000000 1, ELose 0,
      ECall ''a'' (CWrite 203000000 ''x'' (Some ''1'')), ELose 0, ELose 0,
      ECall ''b'' (CElect 400000000 0), ELose 0, EDeliver 401000000 0, EDeliver 402000000 0,
      ECall ''b'' CHeartbeat, EDeliver 403000000 0, EDeliver 404000000 0, EDeliver 405000000 0,
      ECall ''b'' (CWrite 406000000 ''z'' (Some ''2'')), EDeliver 407000000 0, ELose 0, ELose 0,
      ECall ''a'' (CElect 600000000 0), ELose 0, EDeliver 601000000 0, EDeliver 602000000 0,
      ECall ''a'' (CWrite 603000000 ''w'' (Some ''3'')), ELose 0, EDeliver 604000000 0, EDeliver 605000000 0,
      ECall ''a'' CHeartbeat, ELose 0, EDeliver 606000000 0, EDeliver 607000000 0]"

lemma split_run:
  "map_option (\<lambda>(s, ms). map (\<lambda>i. (Log_CommitIndex (bn_log (rs_node s i)),
       map_option (map_option le_Key) (Log_Get (bn_log (rs_node s i)) 1), rn_applied (rs_node s i))) [''a'', ''b''])
     (raft_exec no_json no_parse split_events (init_raft ''k'' 0 (\<lambda>_. 0) demo_ids, [])) =
   Some [(2, Some (Some ''x''), 2), (1, Some (Some ''z''), 1)]"
  by code_simp

text \<open>
  C24. The commit rule of the code does not keep the committed logs consistent: a cluster of three nodes
  reaches a state in which two nodes have committed and applied index 1 but hold different entries
  there, without any node having lost its log.
\<close>

theorem raft_commit_diverges:
  "\<exists>s e f. (raft_step no_json no_parse)\<^sup>*\<^sup>* (init_raft ''k'' 0 (\<lambda>_. 0) [''a'', ''b'', ''c'']) s \<and>
     Log_CommitIndex (bn_log (rs_node s ''a'')) \<ge> 1 \<and> Log_CommitIndex (bn_log (rs_node s ''b'')) \<ge> 1 \<and>
     rn_applied (rs_node s ''a'') \<ge> 1 \<and> rn_applied (rs_node s ''b'') \<ge> 1 \<and>
     Log_Get (bn_log (rs_node s ''a'')) 1 = Some (Some e) \<and> Log_Get (bn_log (rs_node s ''b'')) 1 = Some (Some f) \<and>
     le_Key e = ''x'' \<and> le_Key f = ''z''"
proof -
  obtain s ms where x: "raft_exec no_json no_parse split_events (init_raft ''k'' 0 (\<lambda>_. 0) demo_ids, []) = Some (s, ms)"
    using split_run by auto
  let ?s = "s\<lparr>rs_net := mset ms\<rparr>"
  have r: "(raft_step no_json no_parse)\<^sup>*\<^sup>* (init_raft ''k'' 0 (\<lambda>_. 0) [''a'', ''b'', ''c'']) ?s"
    using raft_exec_reach [OF x] by (simp add: demo_ids_def)
  obtain e f where "Log_Get (bn_log (rs_node ?s ''a'')) 1 = Some (Some e)" "le_Key e = ''x''"
      "Log_Get (bn_log (rs_node ?s ''b'')) 1 = Some (Some f)" "le_Key f = ''z''"
    using split_run x by auto
  moreover have "Log_CommitIndex (bn_log (rs_node ?s ''a'')) = 2" "Log_CommitIndex (bn_log (rs_node ?s ''b'')) = 1"
    "rn_applied (rs_node ?s ''a'') = 2" "rn_applied (rs_node ?s ''b'') = 1"
    using split_run x by simp_all
  ultimately show ?thesis using r by (intro exI [of _ ?s] exI [of _ e] exI [of _ f]) simp
qed

end
