(* ===== verification/Merkle.thy ===== *)
theory Merkle
  imports Go_Prelude
begin

text \<open>
  The Merkle tree of the anti-entropy package (\<open>internal/antientropy/merkle.go\<close>): building a tree over
  the keys of a store and finding the keys in which two stores differ by comparing two trees. The
  hex-encoded SHA-256 digest is the parameter \<open>sha\<close>. A pointer to a node is \<open>MNil\<close> or \<open>MNode\<close>; a set of
  keys (\<open>map[string]struct{}\<close>) is a finite map to \<open>unit\<close>. On an empty slice \<open>buildLevel\<close> would recurse
  forever; this is \<open>None\<close>, and \<open>BuildTree\<close> never asks for it.
\<close>

datatype merkle = MNil | MNode (mn_Hash: string) (mn_Left: merkle) (mn_Right: merkle) (mn_Key: string)

type_synonym key_set = "(string, unit) fmap"

definition emptyRootHash :: string where
  "emptyRootHash = ''empty:0000000000000000000000000000000000000000000000000000000000000000''"

definition leafHash :: "(string \<Rightarrow> string) \<Rightarrow> string \<Rightarrow> string \<Rightarrow> string" where
  "leafHash sha key val = sha (key @ ''='' @ val)"

function buildLevel :: "(string \<Rightarrow> string) \<Rightarrow> merkle list \<Rightarrow> merkle option" where
  "buildLevel sha nodes =
     (if nodes = [] then None
      else if length nodes = 1 then Some (hd nodes)
      else (let mid = length nodes div 2 in
            Option.bind (buildLevel sha (take mid nodes)) (\<lambda>left.
            Option.bind (buildLevel sha (drop mid nodes)) (\<lambda>right.
              Some (MNode (sha (mn_Hash left @ mn_Hash right)) left right [])))))"
  by pat_completeness auto
termination
proof (relation "measure (\<lambda>(sha, nodes). length nodes)", goal_cases)
  case (2 sha nodes mid)
  then have "2 \<le> length nodes" by (cases nodes; cases "tl nodes"; auto)
  then show ?case using 2 by auto
next
  case (3 sha nodes mid left)
  then have "2 \<le> length nodes" by (cases nodes; cases "tl nodes"; auto)
  then show ?case using 3 by auto
qed simp

definition BuildTree :: "(string \<Rightarrow> string) \<Rightarrow> (string, string) fmap \<Rightarrow> merkle option" where
  "BuildTree sha kv =
     (if go_len kv = 0 then Some (MNode emptyRootHash MNil MNil [])
      else (let keys = sort (go_keys kv);
                leaves = map (\<lambda>k. MNode (leafHash sha k (the (fmlookup kv k))) MNil MNil k) keys
            in buildLevel sha leaves))"

fun isLeaf :: "merkle \<Rightarrow> bool" where
  "isLeaf MNil = False"
| "isLeaf (MNode h l r k) = (l = MNil \<and> r = MNil \<and> k \<noteq> [])"

fun collectLeaves :: "merkle \<Rightarrow> key_set \<Rightarrow> key_set" where
  "collectLeaves MNil diffs = diffs"
| "collectLeaves (MNode h l r k) diffs =
     (if isLeaf (MNode h l r k) then fmupd k () diffs else collectLeaves r (collectLeaves l diffs))"

fun collectKeySet :: "merkle \<Rightarrow> key_set \<Rightarrow> key_set" where
  "collectKeySet MNil out = out"
| "collectKeySet (MNode h l r k) out =
     (if isLeaf (MNode h l r k) then fmupd k () out else collectKeySet r (collectKeySet l out))"

fun collectLeafHashes :: "merkle \<Rightarrow> (string, string) fmap \<Rightarrow> (string, string) fmap" where
  "collectLeafHashes MNil out = out"
| "collectLeafHashes (MNode h l r k) out =
     (if isLeaf (MNode h l r k) then fmupd k h out else collectLeafHashes r (collectLeafHashes l out))"

definition sameKeys :: "merkle \<Rightarrow> merkle \<Rightarrow> bool" where
  "sameKeys a b =
     (let ak = collectKeySet a fmempty; bk = collectKeySet b fmempty
      in go_len ak = go_len bk \<and> go_all (\<lambda>k _. fmlookup bk k \<noteq> None) ak)"

definition reconcile :: "merkle \<Rightarrow> merkle \<Rightarrow> key_set \<Rightarrow> key_set" where
  "reconcile a b diffs =
     (let aLeaves = collectLeafHashes a fmempty; bLeaves = collectLeafHashes b fmempty;
          diffs1 = go_range (\<lambda>k h d. case fmlookup bLeaves k of
                      None \<Rightarrow> fmupd k () d | Some bh \<Rightarrow> if bh \<noteq> h then fmupd k () d else d) aLeaves diffs
      in go_range (\<lambda>k h d. if fmlookup aLeaves k = None then fmupd k () d else d) bLeaves diffs1)"

fun diffNodes :: "merkle \<Rightarrow> merkle \<Rightarrow> key_set \<Rightarrow> key_set" where
  "diffNodes MNil MNil diffs = diffs"
| "diffNodes MNil (MNode h l r k) diffs = collectLeaves (MNode h l r k) diffs"
| "diffNodes (MNode h l r k) MNil diffs = collectLeaves (MNode h l r k) diffs"
| "diffNodes (MNode ha la ra ka) (MNode hb lb rb kb) diffs =
     (let a = MNode ha la ra ka; b = MNode hb lb rb kb in
      if ha = hb then diffs
      else if \<not> isLeaf a \<and> \<not> isLeaf b \<and> sameKeys a b then diffNodes ra rb (diffNodes la lb diffs)
      else reconcile a b diffs)"

definition Diff :: "merkle \<Rightarrow> merkle \<Rightarrow> string list" where
  "Diff a b = sort (go_keys (diffNodes a b fmempty))"

section \<open>The tree over a list of pairs\<close>

text \<open>The tree \<open>buildLevel\<close> makes of the leaves of a list of pairs, and the strings hashed in making it.\<close>

definition leaf :: "(string \<Rightarrow> string) \<Rightarrow> string \<times> string \<Rightarrow> merkle" where
  "leaf sha kv = MNode (leafHash sha (fst kv) (snd kv)) MNil MNil (fst kv)"

function mtree :: "(string \<Rightarrow> string) \<Rightarrow> (string \<times> string) list \<Rightarrow> merkle" where
  "mtree sha kvs =
     (if length kvs \<le> 1 then leaf sha (hd kvs)
      else (let l = mtree sha (take (length kvs div 2) kvs); r = mtree sha (drop (length kvs div 2) kvs)
            in MNode (sha (mn_Hash l @ mn_Hash r)) l r []))"
  by pat_completeness auto
termination by (relation "measure (\<lambda>(sha, kvs). length kvs)") auto

function hashed :: "(string \<Rightarrow> string) \<Rightarrow> (string \<times> string) list \<Rightarrow> string set" where
  "hashed sha kvs =
     (if kvs = [] then {} else if length kvs = 1 then {fst (hd kvs) @ ''='' @ snd (hd kvs)}
      else (let xs = take (length kvs div 2) kvs; ys = drop (length kvs div 2) kvs
            in insert (mn_Hash (mtree sha xs) @ mn_Hash (mtree sha ys)) (hashed sha xs \<union> hashed sha ys)))"
  by pat_completeness auto
termination
proof (relation "measure (\<lambda>(sha, kvs). length kvs)", goal_cases)
  case (2 sha kvs x y)
  then have "2 \<le> length kvs" by (cases kvs; cases "tl kvs"; auto)
  then show ?case using 2 by auto
next
  case (3 sha kvs x y)
  then have "2 \<le> length kvs" by (cases kvs; cases "tl kvs"; auto)
  then show ?case using 3 by auto
qed simp

declare buildLevel.simps [simp del] mtree.simps [simp del] hashed.simps [simp del]

text \<open>Induction over a list by splitting it in the middle.\<close>

lemma split_induct [consumes 1, case_names single split]:
  assumes "xs \<noteq> []" and "\<And>x. P [x]"
    and "\<And>xs. 2 \<le> length xs \<Longrightarrow> P (take (length xs div 2) xs) \<Longrightarrow> P (drop (length xs div 2) xs) \<Longrightarrow> P xs"
  shows "P xs"
  using assms(1)
proof (induction "length xs" arbitrary: xs rule: less_induct)
  case less
  show ?case
  proof (cases "2 \<le> length xs")
    case True
    have "take (length xs div 2) xs \<noteq> []" "length (take (length xs div 2) xs) < length xs"
      "drop (length xs div 2) xs \<noteq> []" "length (drop (length xs div 2) xs) < length xs" using True by auto
    then show ?thesis using less(1) assms(3) [OF True] by blast
  next
    case False
    then obtain x where "xs = [x]" using less.prems by (cases xs; cases "tl xs"; auto)
    then show ?thesis using assms(2) by simp
  qed
qed

lemma mtree_single [simp]: "mtree sha [x] = leaf sha x"
  by (subst mtree.simps) simp

lemma mtree_split:
  "2 \<le> length kvs \<Longrightarrow> mtree sha kvs =
     MNode (sha (mn_Hash (mtree sha (take (length kvs div 2) kvs)) @ mn_Hash (mtree sha (drop (length kvs div 2) kvs))))
       (mtree sha (take (length kvs div 2) kvs)) (mtree sha (drop (length kvs div 2) kvs)) []"
  by (subst mtree.simps) (simp add: Let_def)

lemma hashed_single [simp]: "hashed sha [x] = {fst x @ ''='' @ snd x}"
  by (subst hashed.simps) simp

lemma hashed_split:
  "2 \<le> length kvs \<Longrightarrow> hashed sha kvs =
     insert (mn_Hash (mtree sha (take (length kvs div 2) kvs)) @ mn_Hash (mtree sha (drop (length kvs div 2) kvs)))
       (hashed sha (take (length kvs div 2) kvs) \<union> hashed sha (drop (length kvs div 2) kvs))"
  by (subst hashed.simps) (auto simp: Let_def)

lemma mtree_not_nil [simp]: "mtree sha kvs \<noteq> MNil"
  by (subst mtree.simps) (simp add: Let_def leaf_def)

lemma buildLevel_single: "buildLevel sha [n] = Some n"
  by (subst buildLevel.simps) simp

lemma buildLevel_split:
  assumes "2 \<le> length ns"
  shows "buildLevel sha ns = Option.bind (buildLevel sha (take (length ns div 2) ns)) (\<lambda>left.
    Option.bind (buildLevel sha (drop (length ns div 2) ns)) (\<lambda>right. Some (MNode (sha (mn_Hash left @ mn_Hash right)) left right [])))"
  using assms by (subst buildLevel.simps) (auto simp: Let_def)

lemma buildLevel_mtree:
  assumes "kvs \<noteq> []"
  shows "buildLevel sha (map (leaf sha) kvs) = Some (mtree sha kvs)"
  using assms
proof (induction kvs rule: split_induct)
  case (single x)
  then show ?case by (simp add: buildLevel_single)
next
  case (split xs)
  then show ?case by (simp add: buildLevel_split take_map drop_map mtree_split)
qed

section \<open>What the walks collect\<close>

text \<open>Key sets are described by their domain; the trees are over distinct, non-empty keys.\<close>

definition good_keys :: "(string \<times> string) list \<Rightarrow> bool" where
  "good_keys kvs \<longleftrightarrow> (\<forall>(k, v) \<in> set kvs. k \<noteq> [] \<and> CHR ''='' \<notin> set k)"

lemma good_keys_parts: "good_keys kvs \<Longrightarrow> good_keys (take n kvs) \<and> good_keys (drop n kvs)"
  unfolding good_keys_def using in_set_takeD in_set_dropD by fast

lemma isLeaf_split: "2 \<le> length kvs \<Longrightarrow> \<not> isLeaf (mtree sha kvs)"
  by (simp add: mtree_split)

lemma isLeaf_single: "good_keys [x] \<Longrightarrow> isLeaf (leaf sha x)"
  by (cases x) (simp add: leaf_def good_keys_def)

lemma set_split: "set (take n kvs) \<union> set (drop n kvs) = set kvs"
  by (metis append_take_drop_id set_append)

lemma fst_split: "fst ` set (take n kvs) \<union> fst ` set (drop n kvs) = fst ` set kvs"
  by (metis image_Un set_split)

lemma dom_collectKeySet:
  assumes "kvs \<noteq> []" and "good_keys kvs"
  shows "fmdom' (collectKeySet (mtree sha kvs) out) = fst ` set kvs \<union> fmdom' out"
  using assms
proof (induction kvs arbitrary: out rule: split_induct)
  case (single x)
  then show ?case using isLeaf_single [of x sha] by (simp add: leaf_def)
next
  case (split xs)
  then show ?case
    using split good_keys_parts [OF split.prems] fst_split [of "length xs div 2" xs] by (auto simp: mtree_split)
qed

lemma collectLeaves_KeySet: "collectLeaves t d = collectKeySet t d"
  by (induction t arbitrary: d) auto

lemma map_of_split:
  "distinct (map fst kvs) \<Longrightarrow> map_of kvs = map_of (take n kvs) ++ map_of (drop n kvs)"
proof -
  assume d: "distinct (map fst kvs)"
  have "distinct (map fst (take n kvs) @ map fst (drop n kvs))" using d by (metis append_take_drop_id map_append)
  then have disj: "dom (map_of (drop n kvs)) \<inter> dom (map_of (take n kvs)) = {}"
    unfolding dom_map_of_conv_image_fst distinct_append set_map by (metis Int_commute)
  have "map_of kvs = map_of (drop n kvs) ++ map_of (take n kvs)" by (metis append_take_drop_id map_of_append)
  also have "\<dots> = map_of (take n kvs) ++ map_of (drop n kvs)" using disj by (rule map_add_comm)
  finally show ?thesis .
qed

lemma lookup_collectLeafHashes:
  assumes "kvs \<noteq> []" and "good_keys kvs" and "distinct (map fst kvs)"
  shows "fmlookup (collectLeafHashes (mtree sha kvs) out) k =
    (case map_of kvs k of None \<Rightarrow> fmlookup out k | Some v \<Rightarrow> Some (leafHash sha k v))"
  using assms
proof (induction kvs arbitrary: out rule: split_induct)
  case (single x)
  then show ?case using isLeaf_single [of x sha] by (simp add: leaf_def)
next
  case (split xs)
  let ?n = "length xs div 2"
  have d: "distinct (map fst (take ?n xs))" "distinct (map fst (drop ?n xs))" using split.prems(2)
    by (simp_all add: take_map [symmetric] drop_map [symmetric])
  note ih = split.IH(1) [OF _ d(1)] split.IH(2) [OF _ d(2)]
  show ?case
    using ih good_keys_parts [OF split.prems(1), of ?n] split(1)
    by (simp add: mtree_split map_of_split [OF split.prems(2), of ?n] map_add_def split: option.split)
qed

interpretation reconcile_left: slot_body
  "\<lambda>k h d. case fmlookup bLeaves k of None \<Rightarrow> fmupd k () d | Some bh \<Rightarrow> if bh \<noteq> h then fmupd k () d else d"
  "\<lambda>k h cur. if fmlookup bLeaves k = Some h then cur else Some ()" for bLeaves :: "(string, string) fmap"
  by unfold_locales (auto split: option.splits)

interpretation reconcile_right: slot_body
  "\<lambda>k (h :: string) d. if fmlookup aLeaves k = None then fmupd k () d else d"
  "\<lambda>k h cur. if fmlookup aLeaves k = None then Some () else cur" for aLeaves :: "(string, string) fmap"
  by unfold_locales auto

lemma dom_reconcile:
  "fmdom' (reconcile a b d) = fmdom' d \<union> {k. fmlookup (collectLeafHashes a fmempty) k \<noteq> fmlookup (collectLeafHashes b fmempty) k}"
  by (auto simp: reconcile_def Let_def fmdom'_alt_def fmlookup_dom_iff fmlookup_dom'_iff
      reconcile_left.range_lookup reconcile_right.range_lookup split: option.splits if_splits)

lemma sameKeys_iff: "sameKeys a b \<longleftrightarrow> fmdom' (collectKeySet a fmempty) = fmdom' (collectKeySet b fmempty)"
proof -
  let ?A = "fmdom' (collectKeySet a fmempty)" and ?B = "fmdom' (collectKeySet b fmempty)"
  have len: "go_len m = card (fmdom' m)" for m :: key_set by (metis distinct_card distinct_go_keys length_go_keys set_go_keys)
  have all: "go_all (\<lambda>k _. fmlookup (collectKeySet b fmempty) k \<noteq> None) (collectKeySet a fmempty) \<longleftrightarrow> ?A \<subseteq> ?B"
    by (auto simp: go_simps fmlookup_dom'_iff)
  show ?thesis unfolding sameKeys_def Let_def len all by (metis card_subset_eq finite_fmdom' subset_refl)
qed

section \<open>Hashes\<close>

text \<open>
  What is used of the digest: it is 64 hex digits long, none of them \<open>=\<close>, and it has no collision among the
  strings hashed for the two trees.
\<close>

definition digest_ok :: "(string \<Rightarrow> string) \<Rightarrow> string set \<Rightarrow> bool" where
  "digest_ok sha S \<longleftrightarrow> (\<forall>x. length (sha x) = 64 \<and> CHR ''='' \<notin> set (sha x)) \<and> inj_on sha S"

lemma digest_ok_mono: "digest_ok sha S \<Longrightarrow> T \<subseteq> S \<Longrightarrow> digest_ok sha T"
  unfolding digest_ok_def using inj_on_subset by blast

lemma digest_inj: "digest_ok sha S \<Longrightarrow> sha x = sha y \<Longrightarrow> x \<in> S \<Longrightarrow> y \<in> S \<Longrightarrow> x = y"
  unfolding digest_ok_def inj_on_def by blast

lemma key_value_inj:
  "CHR ''='' \<notin> set k \<Longrightarrow> CHR ''='' \<notin> set k' \<Longrightarrow> k @ ''='' @ v = k' @ ''='' @ v' \<longleftrightarrow> k = k' \<and> v = v'"
proof (induction k arbitrary: k')
  case Nil
  then show ?case by (cases k') auto
next
  case (Cons c k)
  then show ?case by (cases k') auto
qed

lemma hash_of:
  assumes "kvs \<noteq> []"
  obtains x where "mn_Hash (mtree sha kvs) = sha x" "x \<in> hashed sha kvs"
  using assms
proof (induction kvs rule: split_induct)
  case (single x)
  then show ?case by (simp add: leaf_def leafHash_def)
next
  case (split xs)
  then show ?case by (simp add: mtree_split hashed_split)
qed

lemma hash_shape:
  assumes "kvs \<noteq> []" and "digest_ok sha S"
  shows "length (mn_Hash (mtree sha kvs)) = 64" "CHR ''='' \<notin> set (mn_Hash (mtree sha kvs))"
  using hash_of [OF assms(1), of sha] assms(2) unfolding digest_ok_def by metis+

lemma split_nonempty: "2 \<le> length xs \<Longrightarrow> take (length xs div 2) xs \<noteq> [] \<and> drop (length xs div 2) xs \<noteq> []"
  by auto

text \<open>Two trees with the same root hash are over the same pairs.\<close>

lemma hash_inj:
  assumes "xs \<noteq> []" and "ys \<noteq> []" and "good_keys xs" and "good_keys ys" and "digest_ok sha (hashed sha xs \<union> hashed sha ys)"
    and "mn_Hash (mtree sha xs) = mn_Hash (mtree sha ys)"
  shows "xs = ys"
  using assms
proof (induction xs arbitrary: ys rule: split_induct)
  case (single x)
  consider y where "ys = [y]" | "2 \<le> length ys" using single.prems(1) by (cases ys; cases "tl ys"; auto)
  then show ?case
  proof cases
    case 1
    have "sha (fst x @ ''='' @ snd x) = sha (fst y @ ''='' @ snd y)" using single.prems(5) by (simp add: 1 leaf_def leafHash_def)
    then have "fst x @ ''='' @ snd x = fst y @ ''='' @ snd y" by (rule digest_inj [OF single.prems(4)]) (simp_all add: 1)
    then show ?thesis
      using single.prems(2,3) key_value_inj [of "fst x" "fst y" "snd x" "snd y"]
      by (cases x; cases y) (simp add: 1 good_keys_def)
  next
    case 2
    let ?l = "mn_Hash (mtree sha (take (length ys div 2) ys))" and ?r = "mn_Hash (mtree sha (drop (length ys div 2) ys))"
    note ne = split_nonempty [OF 2]
    have "sha (fst x @ ''='' @ snd x) = sha (?l @ ?r)" using single.prems(5) by (simp add: leaf_def leafHash_def mtree_split [OF 2])
    then have "fst x @ ''='' @ snd x = ?l @ ?r" by (rule digest_inj [OF single.prems(4)]) (simp_all add: hashed_split [OF 2])
    then have "CHR ''='' \<in> set (?l @ ?r)" by (metis in_set_conv_decomp append_Cons append_Nil)
    then show ?thesis using hash_shape(2) [OF _ single.prems(4)] ne by auto
  qed
next
  case (split xs)
  let ?l = "\<lambda>zs. take (length zs div 2) zs" and ?r = "\<lambda>zs. drop (length zs div 2) zs"
  let ?h = "\<lambda>zs. mn_Hash (mtree sha zs)"
  note nx = split_nonempty [OF split.hyps]
  consider y where "ys = [y]" | "2 \<le> length ys" using split.prems(1) by (cases ys; cases "tl ys"; auto)
  then show ?case
  proof cases
    case 1
    have "sha (fst y @ ''='' @ snd y) = sha (?h (?l xs) @ ?h (?r xs))"
      using split.prems(5) by (simp add: 1 leaf_def leafHash_def mtree_split [OF split.hyps])
    then have "fst y @ ''='' @ snd y = ?h (?l xs) @ ?h (?r xs)"
      by (rule digest_inj [OF split.prems(4)]) (simp_all add: 1 hashed_split [OF split.hyps])
    then have "CHR ''='' \<in> set (?h (?l xs) @ ?h (?r xs))" by (metis in_set_conv_decomp append_Cons append_Nil)
    then show ?thesis using hash_shape(2) [OF _ split.prems(4)] nx by auto
  next
    case 2
    note ny = split_nonempty [OF 2]
    have "sha (?h (?l xs) @ ?h (?r xs)) = sha (?h (?l ys) @ ?h (?r ys))" using split.prems(5) by (simp add: mtree_split split.hyps 2)
    then have "?h (?l xs) @ ?h (?r xs) = ?h (?l ys) @ ?h (?r ys)"
      by (rule digest_inj [OF split.prems(4)]) (simp_all add: hashed_split split.hyps 2)
    moreover have "length (?h (?l xs)) = length (?h (?l ys))" using hash_shape(1) [OF _ split.prems(4)] nx ny by metis
    ultimately have eq: "?h (?l xs) = ?h (?l ys)" "?h (?r xs) = ?h (?r ys)" by simp_all
    have sub: "digest_ok sha (hashed sha (?l xs) \<union> hashed sha (?l ys))" "digest_ok sha (hashed sha (?r xs) \<union> hashed sha (?r ys))"
      by (rule digest_ok_mono [OF split.prems(4)]; auto simp: hashed_split split.hyps 2)+
    note gx = good_keys_parts [OF split.prems(2)] and gy = good_keys_parts [OF split.prems(3)]
    have "?l xs = ?l ys" by (rule split.IH(1)) (use ny gx gy sub eq in simp_all)
    moreover have "?r xs = ?r ys" by (rule split.IH(2)) (use ny gx gy sub eq in simp_all)
    ultimately show ?thesis by (metis append_take_drop_id)
  qed
qed

section \<open>The difference of two trees\<close>

lemma diffNodes_node:
  "a \<noteq> MNil \<Longrightarrow> b \<noteq> MNil \<Longrightarrow> diffNodes a b d =
     (if mn_Hash a = mn_Hash b then d
      else if \<not> isLeaf a \<and> \<not> isLeaf b \<and> sameKeys a b then diffNodes (mn_Right a) (mn_Right b) (diffNodes (mn_Left a) (mn_Left b) d)
      else reconcile a b d)"
  by (cases a; cases b) (simp_all add: Let_def)

lemma leaf_hashed:
  assumes "kvs \<noteq> []" and "(k, v) \<in> set kvs"
  shows "k @ ''='' @ v \<in> hashed sha kvs"
  using assms
proof (induction kvs rule: split_induct)
  case (split xs)
  then show ?case using set_split [of "length xs div 2" xs] by (auto simp: hashed_split)
qed auto

lemma lookup_LeafHashes:
  assumes "kvs \<noteq> []" and "good_keys kvs" and "distinct (map fst kvs)"
  shows "fmlookup (collectLeafHashes (mtree sha kvs) fmempty) k = map_option (leafHash sha k) (map_of kvs k)"
  by (simp add: lookup_collectLeafHashes [OF assms] split: option.split)

lemma reconcile_exact:
  assumes "xs \<noteq> []" "good_keys xs" "distinct (map fst xs)" and "ys \<noteq> []" "good_keys ys" "distinct (map fst ys)"
    and "digest_ok sha (hashed sha xs \<union> hashed sha ys)"
  shows "fmdom' (reconcile (mtree sha xs) (mtree sha ys) d) = fmdom' d \<union> {k. map_of xs k \<noteq> map_of ys k}"
proof -
  have "v = w" if "map_of xs k = Some v" "map_of ys k = Some w" "leafHash sha k v = leafHash sha k w" for k v w
  proof -
    have "k @ ''='' @ v \<in> hashed sha xs" "k @ ''='' @ w \<in> hashed sha ys"
      using that leaf_hashed assms(1,4) by (simp_all add: map_of_SomeD)
    then have "k @ ''='' @ v = k @ ''='' @ w"
      using that(3) digest_inj [OF assms(7), of "k @ ''='' @ v" "k @ ''='' @ w"] by (simp add: leafHash_def)
    then show ?thesis by simp
  qed
  then have "map_option (leafHash sha k) (map_of xs k) = map_option (leafHash sha k) (map_of ys k) \<longleftrightarrow> map_of xs k = map_of ys k" for k
    by (cases "map_of xs k"; cases "map_of ys k") auto
  then show ?thesis by (simp add: dom_reconcile lookup_LeafHashes assms)
qed

definition keys_sorted :: "(string \<times> string) list \<Rightarrow> bool" where
  "keys_sorted kvs \<longleftrightarrow> sorted (map fst kvs) \<and> distinct (map fst kvs)"

lemma keys_sorted_parts: "keys_sorted kvs \<Longrightarrow> keys_sorted (take n kvs) \<and> keys_sorted (drop n kvs)"
  by (simp add: keys_sorted_def take_map [symmetric] drop_map [symmetric] sorted_wrt_take sorted_wrt_drop)

lemma same_keys_split:
  fixes xs ys :: "(string \<times> string) list"
  assumes "map fst xs = map fst ys" and "distinct (map fst xs)"
  shows "{k. map_of xs k \<noteq> map_of ys k} =
    {k. map_of (take n xs) k \<noteq> map_of (take n ys) k} \<union> {k. map_of (drop n xs) k \<noteq> map_of (drop n ys) k}"
proof -
  have eq: "map fst (take n xs) = map fst (take n ys)" "map fst (drop n xs) = map fst (drop n ys)"
    using assms(1) by (simp_all add: take_map [symmetric] drop_map [symmetric])
  have "distinct (map fst (take n xs) @ map fst (drop n xs))" using assms(2) by (metis append_take_drop_id map_append)
  then have disj: "k \<notin> fst ` set (take n xs) \<or> k \<notin> fst ` set (drop n xs)" for k by auto
  have none: "map_of zs k = None \<longleftrightarrow> k \<notin> fst ` set zs" for zs :: "(string \<times> string) list" and k by (rule map_of_eq_None_iff)
  have dom: "k \<notin> fst ` set (take n xs) \<longleftrightarrow> k \<notin> fst ` set (take n ys)" "k \<notin> fst ` set (drop n xs) \<longleftrightarrow> k \<notin> fst ` set (drop n ys)" for k
    using arg_cong [OF eq(1), of set] arg_cong [OF eq(2), of set] by auto
  have "map_of xs k = map_of ys k \<longleftrightarrow> map_of (take n xs) k = map_of (take n ys) k \<and> map_of (drop n xs) k = map_of (drop n ys) k" for k
  proof -
    have split: "map_of zs k = (map_of (take n zs) ++ map_of (drop n zs)) k" if "distinct (map fst zs)" for zs :: "(string \<times> string) list"
      using map_of_split [OF that, of n] by simp
    have "distinct (map fst ys)" using assms by simp
    then show ?thesis
      unfolding split [OF assms(2)] split [OF \<open>distinct (map fst ys)\<close>] map_add_def
      using disj [of k] dom [of k] none [of "take n xs" k] none [of "take n ys" k] none [of "drop n xs" k] none [of "drop n ys" k]
      by (auto split: option.splits)
  qed
  then show ?thesis by blast
qed

lemma diff_exact:
  assumes "xs \<noteq> []" and "ys \<noteq> []" and "good_keys xs" and "good_keys ys" and "keys_sorted xs" and "keys_sorted ys"
    and "digest_ok sha (hashed sha xs \<union> hashed sha ys)"
  shows "fmdom' (diffNodes (mtree sha xs) (mtree sha ys) d) = fmdom' d \<union> {k. map_of xs k \<noteq> map_of ys k}"
  using assms
proof (induction xs arbitrary: ys d rule: split_induct)
  case (single x)
  have "reconcile (mtree sha [x]) (mtree sha ys) d = diffNodes (mtree sha [x]) (mtree sha ys) d \<or> [x] = ys \<and>
      diffNodes (mtree sha [x]) (mtree sha ys) d = d"
    using diffNodes_node [of "mtree sha [x]" "mtree sha ys" d] isLeaf_single [OF single.prems(2), of sha]
      hash_inj [OF _ single.prems(1,2,3,6)] by (auto simp del: mtree_single simp: mtree_single [symmetric])
  then show ?case
    using reconcile_exact [of "[x]" ys sha d] single.prems unfolding keys_sorted_def by auto
next
  case (split xs)
  let ?l = "\<lambda>zs. take (length zs div 2) zs" and ?r = "\<lambda>zs. drop (length zs div 2) zs"
  let ?a = "mtree sha xs" and ?b = "mtree sha ys"
  have ne: "xs \<noteq> []" using split.hyps by auto
  note rec = reconcile_exact [OF ne split.prems(2) _ split.prems(1,3) _ split.prems(6), of d]
  consider "mn_Hash ?a = mn_Hash ?b" | "mn_Hash ?a \<noteq> mn_Hash ?b" "\<not> (\<not> isLeaf ?b \<and> sameKeys ?a ?b)"
    | "mn_Hash ?a \<noteq> mn_Hash ?b" "\<not> isLeaf ?b" "sameKeys ?a ?b" by blast
  then show ?case
  proof cases
    case 1
    then have "xs = ys" using hash_inj [OF ne split.prems(1-3,6)] by simp
    then show ?thesis using 1 by (simp add: diffNodes_node)
  next
    case 2
    then show ?thesis using rec split.prems(4,5) by (auto simp: diffNodes_node keys_sorted_def)
  next
    case 3
    have "fst ` set xs = fst ` set ys"
      using 3(3) dom_collectKeySet [OF ne split.prems(2)] dom_collectKeySet [OF split.prems(1,3)] by (simp add: sameKeys_iff)
    then have keys: "map fst xs = map fst ys" using split.prems(4,5) unfolding keys_sorted_def
      by (metis set_map sorted_distinct_set_unique)
    then have len: "length ys = length xs" by (metis length_map)
    then have two: "2 \<le> length ys" using split.hyps by simp
    have sub: "digest_ok sha (hashed sha (?l xs) \<union> hashed sha (?l ys))" "digest_ok sha (hashed sha (?r xs) \<union> hashed sha (?r ys))"
      by (rule digest_ok_mono [OF split.prems(6)]; auto simp: hashed_split split.hyps two)+
    note parts = split_nonempty [OF two] good_keys_parts [OF split.prems(2)] good_keys_parts [OF split.prems(3)]
      keys_sorted_parts [OF split.prems(4)] keys_sorted_parts [OF split.prems(5)]
    have "diffNodes ?a ?b d = diffNodes (mtree sha (?r xs)) (mtree sha (?r ys)) (diffNodes (mtree sha (?l xs)) (mtree sha (?l ys)) d)"
      using 3 isLeaf_split [OF split.hyps, of sha] diffNodes_node [OF mtree_not_nil mtree_not_nil, of sha xs sha ys d]
      by (simp add: mtree_split [OF split.hyps] mtree_split [OF two])
    also have "fmdom' \<dots> = fmdom' (diffNodes (mtree sha (?l xs)) (mtree sha (?l ys)) d) \<union> {k. map_of (?r xs) k \<noteq> map_of (?r ys) k}"
      by (rule split.IH(2)) (use parts sub in simp_all)
    also have "fmdom' (diffNodes (mtree sha (?l xs)) (mtree sha (?l ys)) d) = fmdom' d \<union> {k. map_of (?l xs) k \<noteq> map_of (?l ys) k}"
      by (rule split.IH(1)) (use parts sub in simp_all)
    finally show ?thesis
      using same_keys_split [OF keys, of "length xs div 2"] split.prems(4) unfolding len keys_sorted_def by auto
  qed
qed

section \<open>Stores\<close>

definition pairs :: "(string, string) fmap \<Rightarrow> (string \<times> string) list" where
  "pairs kv = map (\<lambda>k. (k, the (fmlookup kv k))) (sort (go_keys kv))"

lemma go_keys_empty [simp]: "go_keys fmempty = []"
  by (metis go_len_0 length_0_conv length_go_keys)

lemma sort_go_keys: "sort (go_keys kv) = go_keys kv"
  by (simp add: sorted_sort_id)

lemma map_fst_pairs: "map fst (pairs kv) = go_keys kv"
  by (simp add: pairs_def sort_go_keys comp_def)

lemma map_of_pairs: "map_of (pairs kv) = fmlookup kv"
  unfolding pairs_def sort_go_keys
  by (rule ext) (auto simp: map_of_map_keys fmlookup_dom'_iff)

lemma pairs_empty: "pairs kv = [] \<longleftrightarrow> kv = fmempty"
  using map_fst_pairs [of kv] length_go_keys [of kv] by (metis go_len_0 length_0_conv map_is_Nil_conv)

lemma keys_sorted_pairs [simp]: "keys_sorted (pairs kv)"
  by (simp add: keys_sorted_def map_fst_pairs)

definition store_ok :: "(string, string) fmap \<Rightarrow> bool" where
  "store_ok kv \<longleftrightarrow> (\<forall>k \<in> fmdom' kv. k \<noteq> [] \<and> CHR ''='' \<notin> set k)"

lemma good_keys_pairs: "good_keys (pairs kv) \<longleftrightarrow> store_ok kv"
  by (auto simp: good_keys_def store_ok_def pairs_def sort_go_keys)

definition hashed_store :: "(string \<Rightarrow> string) \<Rightarrow> (string, string) fmap \<Rightarrow> string set" where
  "hashed_store sha kv = hashed sha (pairs kv)"

lemma BuildTree_eq:
  "BuildTree sha kv = Some (if kv = fmempty then MNode emptyRootHash MNil MNil [] else mtree sha (pairs kv))"
proof (cases "kv = fmempty")
  case False
  then have "BuildTree sha kv = buildLevel sha (map (leaf sha) (pairs kv))"
    by (simp add: BuildTree_def pairs_def leaf_def Let_def comp_def)
  then show ?thesis using False buildLevel_mtree [of "pairs kv" sha] pairs_empty by simp
qed (simp add: BuildTree_def)

lemma dom_eq_diff:
  "fmdom' kv = {k. fmlookup fmempty k \<noteq> fmlookup kv k}" "fmdom' kv = {k. fmlookup kv k \<noteq> fmlookup fmempty k}"
  using fmlookup_dom'_iff [of _ kv] by (auto simp: eq_commute [of None])

lemma diff_with_empty:
  assumes "kv \<noteq> fmempty" and "store_ok kv" and "digest_ok sha S"
  defines "e \<equiv> MNode emptyRootHash MNil MNil []"
  shows "fmdom' (diffNodes e (mtree sha (pairs kv)) fmempty) = fmdom' kv"
    and "fmdom' (diffNodes (mtree sha (pairs kv)) e fmempty) = fmdom' kv"
proof -
  let ?t = "mtree sha (pairs kv)"
  have p: "pairs kv \<noteq> []" "good_keys (pairs kv)" "distinct (map fst (pairs kv))"
    using assms(1,2) pairs_empty good_keys_pairs by (auto simp: map_fst_pairs)
  have "length emptyRootHash \<noteq> 64" by (simp add: emptyRootHash_def)
  then have h: "mn_Hash ?t \<noteq> emptyRootHash" using hash_shape(1) [OF p(1) assms(3)] by metis
  have keys: "fst ` set (pairs kv) = fmdom' kv" using map_fst_pairs [of kv] by (metis set_go_keys set_map)
  have "fmdom' kv \<noteq> {}" using keys p(1) by auto
  then have nk: "\<not> sameKeys e ?t" "\<not> sameKeys ?t e"
    using dom_collectKeySet [OF p(1,2)] keys by (auto simp: sameKeys_iff e_def)
  have eh: "collectLeafHashes e fmempty = fmempty" by (simp add: e_def)
  have ne: "e \<noteq> MNil" "mn_Hash e = emptyRootHash" by (simp_all add: e_def)
  have "diffNodes e ?t fmempty = reconcile e ?t fmempty" "diffNodes ?t e fmempty = reconcile ?t e fmempty"
    using diffNodes_node [OF ne(1) mtree_not_nil, of sha "pairs kv" fmempty] diffNodes_node [OF mtree_not_nil ne(1), of sha "pairs kv" fmempty] h nk ne(2)
    by simp_all
  then show "fmdom' (diffNodes e ?t fmempty) = fmdom' kv" "fmdom' (diffNodes ?t e fmempty) = fmdom' kv"
    by (auto simp: dom_reconcile lookup_LeafHashes p eh map_of_pairs fmlookup_dom'_iff)
qed

definition tree_of :: "(string \<Rightarrow> string) \<Rightarrow> (string, string) fmap \<Rightarrow> merkle" where
  "tree_of sha kv = (if kv = fmempty then MNode emptyRootHash MNil MNil [] else mtree sha (pairs kv))"

lemma BuildTree_tree: "BuildTree sha kv = Some (tree_of sha kv)"
  by (simp add: BuildTree_eq tree_of_def)

lemma set_Diff_trees:
  assumes "store_ok kv1" and "store_ok kv2" and "digest_ok sha (hashed_store sha kv1 \<union> hashed_store sha kv2)"
  shows "set (Diff (tree_of sha kv1) (tree_of sha kv2)) = {k. fmlookup kv1 k \<noteq> fmlookup kv2 k}"
proof -
  define t where "t = tree_of sha"
  have t_def: "t kv = (if kv = fmempty then MNode emptyRootHash MNil MNil [] else mtree sha (pairs kv))" for kv by (simp add: t_def tree_of_def)
  have "fmdom' (diffNodes (t kv1) (t kv2) fmempty) = {k. fmlookup kv1 k \<noteq> fmlookup kv2 k}"
  proof -
    consider "kv1 = fmempty" "kv2 = fmempty" | "kv1 = fmempty" "kv2 \<noteq> fmempty" | "kv1 \<noteq> fmempty" "kv2 = fmempty"
      | "kv1 \<noteq> fmempty" "kv2 \<noteq> fmempty" by blast
    then show ?thesis
    proof cases
      case 1
      then show ?thesis by (simp add: t_def Let_def)
    next
      case 2
      have "t kv1 = MNode emptyRootHash MNil MNil []" "t kv2 = mtree sha (pairs kv2)" using 2 by (simp_all add: t_def)
      then have "fmdom' (diffNodes (t kv1) (t kv2) fmempty) = fmdom' kv2" using diff_with_empty(1) [OF 2(2) assms(2,3)] by simp
      then show ?thesis unfolding 2(1) using dom_eq_diff(1) by (rule trans)
    next
      case 3
      have "t kv1 = mtree sha (pairs kv1)" "t kv2 = MNode emptyRootHash MNil MNil []" using 3 by (simp_all add: t_def)
      then have "fmdom' (diffNodes (t kv1) (t kv2) fmempty) = fmdom' kv1" using diff_with_empty(2) [OF 3(1) assms(1,3)] by simp
      then show ?thesis unfolding 3(2) using dom_eq_diff(2) by (rule trans)
    next
      case 4
      then have "pairs kv1 \<noteq> []" "pairs kv2 \<noteq> []" by (simp_all add: pairs_empty)
      from diff_exact [OF this _ _ keys_sorted_pairs keys_sorted_pairs, of sha fmempty]
      show ?thesis using assms 4 by (simp add: t_def good_keys_pairs hashed_store_def map_of_pairs)
    qed
  qed
  then show ?thesis by (simp add: Diff_def t_def tree_of_def)
qed

text \<open>
  C13. Anti-entropy finds exactly the divergent keys: for two stores whose keys are non-empty and
  contain no \<open>=\<close>, building both trees terminates and \<open>Diff\<close> returns, sorted and without
  repetition, the keys whose values differ or that only one store has, provided the digest is 64 hex
  digits and does not collide on the strings hashed for the two trees.
\<close>

theorem merkle_diff_exact:
  assumes "store_ok kv1" and "store_ok kv2" and "digest_ok sha (hashed_store sha kv1 \<union> hashed_store sha kv2)"
  shows "\<exists>t1 t2. BuildTree sha kv1 = Some t1 \<and> BuildTree sha kv2 = Some t2 \<and> sorted (Diff t1 t2) \<and> distinct (Diff t1 t2) \<and>
    set (Diff t1 t2) = {k. fmlookup kv1 k \<noteq> fmlookup kv2 k}"
proof (intro exI conjI)
  show "set (Diff (tree_of sha kv1) (tree_of sha kv2)) = {k. fmlookup kv1 k \<noteq> fmlookup kv2 k}" by (rule set_Diff_trees [OF assms])
qed (simp_all add: BuildTree_tree Diff_def)

definition demo_sha :: "string \<Rightarrow> string" where
  "demo_sha x = replicate 63 CHR ''0'' @
     [if x = ''a=1'' then CHR ''1'' else if x = ''a=2'' then CHR ''2'' else if x = ''b=3'' then CHR ''3'' else CHR ''4'']"

definition demo_store1 :: "(string, string) fmap" where
  "demo_store1 = fmap_of_list [(''a'', ''1'')]"

definition demo_store2 :: "(string, string) fmap" where
  "demo_store2 = fmap_of_list [(''b'', ''3''), (''a'', ''2'')]"

lemma demo_pairs: "pairs demo_store1 = [(''a'', ''1'')]" "pairs demo_store2 = [(''a'', ''2''), (''b'', ''3'')]"
  by code_simp+

lemma demo_digest: "digest_ok demo_sha (hashed_store demo_sha demo_store1 \<union> hashed_store demo_sha demo_store2)"
proof -
  define t where "t = mn_Hash (mtree demo_sha [(''a'', ''2'')]) @ mn_Hash (mtree demo_sha [(''b'', ''3'')])"
  have set: "hashed_store demo_sha demo_store1 \<union> hashed_store demo_sha demo_store2 = {''a=1'', t, ''a=2'', ''b=3''}"
    by (simp add: t_def hashed_store_def demo_pairs hashed_split insert_commute)
  have "length t = 128" by (simp add: t_def leaf_def leafHash_def demo_sha_def)
  then have "t \<noteq> ''a=1''" "t \<noteq> ''a=2''" "t \<noteq> ''b=3''" by auto
  then show ?thesis unfolding digest_ok_def set by (auto simp: inj_on_def demo_sha_def)
qed

theorem merkle_diff_exact_witness:
  "\<exists>t1 t2. BuildTree demo_sha demo_store1 = Some t1 \<and> BuildTree demo_sha demo_store2 = Some t2 \<and> set (Diff t1 t2) = {''a'', ''b''}"
proof -
  have "store_ok demo_store1" "store_ok demo_store2" by (simp_all add: store_ok_def demo_store1_def demo_store2_def)
  note d = merkle_diff_exact [OF this demo_digest]
  have "{k. fmlookup demo_store1 k \<noteq> fmlookup demo_store2 k} = {''a'', ''b''}"
    by (auto simp: demo_store1_def demo_store2_def fmlookup_of_list split: if_splits)
  then show ?thesis using d by metis
qed


end
