(* ===== verification/Checker.thy ===== *)
theory Checker
  imports Go_Prelude
begin

text \<open>
  The linearizability checker (\<open>internal/checker/linearizability.go\<close>): a Wing-and-Gong search per key for
  an order of the operations that respects real time and is a run of a register. The slices \<open>ops\<close> and
  \<open>remaining\<close>, which always have the same length, are one list of pairs; the variables the closure captures
  (\<open>blame\<close>) are passed along. \<open>OpKind\<close> is an integer in the source, so a kind other than the two constants is
  possible and falls into the \<open>default\<close> branch.
\<close>

datatype OpKind = OpWrite | OpRead | OpOther int

record Op =
  op_ClientID :: string
  op_Kind :: OpKind
  op_Value :: string
  op_Key :: string
  op_Invoke :: int
  op_Complete :: int

record OpHistory =
  hi_ops :: "Op list"

definition OpHistory_Record :: "Op \<Rightarrow> OpHistory \<Rightarrow> OpHistory" where
  "OpHistory_Record op h = h\<lparr>hi_ops := hi_ops h @ [op]\<rparr>"

definition OpHistory_Ops :: "OpHistory \<Rightarrow> Op list" where
  "OpHistory_Ops h = hi_ops h"

section \<open>The search\<close>

definition maxInt64 :: int where
  "maxInt64 = 2 ^ 63 - 1"

definition min_complete :: "(Op \<times> bool) list \<Rightarrow> int" where
  "min_complete st = fold (\<lambda>(op, rem) m. if rem \<and> op_Complete op < m then op_Complete op else m) st maxInt64"

text \<open>The \<open>switch\<close>: \<open>None\<close> is the \<open>continue\<close> of a read that does not fit.\<close>

definition op_apply :: "Op \<Rightarrow> string \<Rightarrow> string option" where
  "op_apply op current =
     (case op_Kind op of
        OpWrite \<Rightarrow> Some (op_Value op)
      | OpRead \<Rightarrow> if op_Value op \<noteq> current then None else Some current
      | OpOther k \<Rightarrow> Some current)"

definition take_op :: "nat \<Rightarrow> (Op \<times> bool) list \<Rightarrow> (Op \<times> bool) list" where
  "take_op i st = st[i := (fst (st ! i), False)]"

definition left_ops :: "(Op \<times> bool) list \<Rightarrow> Op list" where
  "left_ops st = map fst (filter snd st)"

lemma length_left_take: "i < length st \<Longrightarrow> snd (st ! i) \<Longrightarrow> length (left_ops (take_op i st)) < length (left_ops st)"
proof -
  assume i: "i < length st" "snd (st ! i)"
  have "st = take i st @ st ! i # drop (Suc i) st" using i(1) by (rule id_take_nth_drop)
  then have "filter snd st = filter snd (take i st) @ st ! i # filter snd (drop (Suc i) st)"
    using i(2) by (metis filter.simps(2) filter_append)
  moreover have "take_op i st = take i st @ (fst (st ! i), False) # drop (Suc i) st"
    using i(1) by (simp add: take_op_def upd_conv_take_nth_drop)
  ultimately show ?thesis by (simp add: left_ops_def)
qed

function search :: "(Op \<times> bool) list \<Rightarrow> string \<Rightarrow> nat \<Rightarrow> Op option \<Rightarrow> bool \<times> Op option"
  and search_from :: "int \<Rightarrow> nat \<Rightarrow> (Op \<times> bool) list \<Rightarrow> string \<Rightarrow> nat \<Rightarrow> Op option \<Rightarrow> bool \<times> Op option" where
  "search st current cnt blame =
     (if cnt = length st then (True, blame) else search_from (min_complete st) 0 st current cnt blame)"
| "search_from minComplete i st current cnt blame =
     (if i < length st then
        (if \<not> snd (st ! i) then search_from minComplete (i + 1) st current cnt blame
         else if op_Invoke (fst (st ! i)) > minComplete then search_from minComplete (i + 1) st current cnt blame
         else (case op_apply (fst (st ! i)) current of
                 None \<Rightarrow> search_from minComplete (i + 1) st current cnt (Some (fst (st ! i)))
               | Some nxt \<Rightarrow>
                   (case search (take_op i st) nxt (cnt + 1) blame of
                      (True, blame') \<Rightarrow> (True, blame')
                    | (False, blame') \<Rightarrow> search_from minComplete (i + 1) st current cnt blame')))
      else (False, blame))"
  by pat_completeness auto
termination
  by (relation "inv_image (less_than <*lex*> less_than)
        (\<lambda>x. case x of Inl (st, c, n, b) \<Rightarrow> (length (left_ops st), Suc (length st))
                     | Inr (m, i, st, c, n, b) \<Rightarrow> (length (left_ops st), length st - i))")
    (auto simp: length_left_take)

declare search.simps [simp del] search_from.simps [simp del]

definition linearizeKey :: "Op list \<Rightarrow> bool \<times> Op option" where
  "linearizeKey sub =
     (let ops = sort_key (\<lambda>op. op_Invoke op) (sort_key (\<lambda>op. op_Complete op) sub);
          st = map (\<lambda>op. (op, True)) ops
      in case search st [] 0 None of
           (True, blame) \<Rightarrow> (True, None)
         | (False, blame) \<Rightarrow>
             (case blame of
                None \<Rightarrow> (case left_ops st of [] \<Rightarrow> (False, None) | op # _ \<Rightarrow> (False, Some op))
              | Some b \<Rightarrow> (False, Some b)))"

fun partition_loop :: "Op list \<Rightarrow> (string, Op list) fmap \<times> string list \<Rightarrow> (string, Op list) fmap \<times> string list" where
  "partition_loop [] (byKey, keys) = (byKey, keys)"
| "partition_loop (op # ops) (byKey, keys) =
     partition_loop ops
       (fmupd (op_Key op) ((case fmlookup byKey (op_Key op) of None \<Rightarrow> [] | Some l \<Rightarrow> l) @ [op]) byKey,
        if fmlookup byKey (op_Key op) = None then keys @ [op_Key op] else keys)"

fun check_loop :: "string list \<Rightarrow> (string, Op list) fmap \<Rightarrow> bool \<times> Op option" where
  "check_loop [] byKey = (True, None)"
| "check_loop (key # keys) byKey =
     (case linearizeKey (case fmlookup byKey key of None \<Rightarrow> [] | Some l \<Rightarrow> l) of
        (True, _) \<Rightarrow> check_loop keys byKey
      | (False, bad) \<Rightarrow> (False, bad))"

definition CheckRegister :: "Op list \<Rightarrow> bool \<times> Op option" where
  "CheckRegister ops = (let (byKey, keys) = partition_loop ops (fmempty, []) in check_loop (sort keys) byKey)"

section \<open>Linearizability\<close>

text \<open>
  A sequence of operations respects real time if none comes after one that was invoked only after its
  completion; it is a run of a register if every read returns the value last written. A history is linearizable
  if some arrangement of its operations is both.
\<close>

definition real_time :: "Op list \<Rightarrow> bool" where
  "real_time xs \<longleftrightarrow> sorted_wrt (\<lambda>a b. op_Invoke a \<le> op_Complete b) xs"

definition register_step :: "Op \<Rightarrow> string \<Rightarrow> string option" where
  "register_step op v =
     (if op_Kind op = OpWrite then Some (op_Value op)
      else if op_Kind op = OpRead \<and> v \<noteq> op_Value op then None else Some v)"

lemma register_step_apply [simp]: "register_step = op_apply"
  by (auto simp: fun_eq_iff register_step_def op_apply_def split: OpKind.splits)

fun register_run :: "string \<Rightarrow> Op list \<Rightarrow> bool" where
  "register_run current [] = True"
| "register_run current (op # ops) = (case register_step op current of None \<Rightarrow> False | Some nxt \<Rightarrow> register_run nxt ops)"

definition linearizable_from :: "string \<Rightarrow> Op multiset \<Rightarrow> bool" where
  "linearizable_from current M \<longleftrightarrow> (\<exists>xs. mset xs = M \<and> real_time xs \<and> register_run current xs)"

definition op_ok :: "Op \<Rightarrow> bool" where
  "op_ok op \<longleftrightarrow> op_Invoke op \<le> op_Complete op \<and> op_Complete op \<le> maxInt64"

lemma linearizable_empty [simp]: "linearizable_from current {#}"
  by (simp add: linearizable_from_def real_time_def)

text \<open>A non-empty history linearizes by choosing a first operation no other has completed before.\<close>

lemma linearizable_first:
  assumes "M \<noteq> {#}"
  shows "linearizable_from current M \<longleftrightarrow>
    (\<exists>op \<in># M. (\<forall>b \<in># M - {#op#}. op_Invoke op \<le> op_Complete b) \<and>
       (\<exists>nxt. op_apply op current = Some nxt \<and> linearizable_from nxt (M - {#op#})))"
proof
  assume "linearizable_from current M"
  then obtain xs where xs: "mset xs = M" "real_time xs" "register_run current xs" by (auto simp: linearizable_from_def)
  then obtain op ys where "xs = op # ys" using assms by (cases xs) auto
  then show "\<exists>op \<in># M. (\<forall>b \<in># M - {#op#}. op_Invoke op \<le> op_Complete b) \<and>
       (\<exists>nxt. op_apply op current = Some nxt \<and> linearizable_from nxt (M - {#op#}))"
    using xs by (intro bexI [of _ op]) (auto simp: real_time_def linearizable_from_def split: option.splits)
next
  assume "\<exists>op \<in># M. (\<forall>b \<in># M - {#op#}. op_Invoke op \<le> op_Complete b) \<and>
       (\<exists>nxt. op_apply op current = Some nxt \<and> linearizable_from nxt (M - {#op#}))"
  then obtain op nxt ys where op: "op \<in># M" "\<forall>b \<in># M - {#op#}. op_Invoke op \<le> op_Complete b" "op_apply op current = Some nxt"
      and ys: "mset ys = M - {#op#}" "real_time ys" "register_run nxt ys"
    unfolding linearizable_from_def by blast
  have "mset (op # ys) = M" using op(1) ys(1) by simp
  moreover have "set_mset (M - {#op#}) = set ys" using ys(1) by (metis set_mset_mset)
  then have "real_time (op # ys)" using op(2) ys(2) by (simp add: real_time_def)
  moreover have "register_run current (op # ys)" using op(3) ys(3) by simp
  ultimately show "linearizable_from current M" unfolding linearizable_from_def by blast
qed

section \<open>The search decides linearizability\<close>

lemma min_complete_le:
  "min_complete st \<le> maxInt64 \<and> (\<forall>op \<in> set (left_ops st). min_complete st \<le> op_Complete op) \<and>
   (min_complete st = maxInt64 \<or> (\<exists>op \<in> set (left_ops st). min_complete st = op_Complete op))"
proof -
  let ?f = "\<lambda>(op, rem) m. if rem \<and> op_Complete op < m then op_Complete op else m"
  have "fold ?f xs m \<le> m \<and> (\<forall>op \<in> set (left_ops xs). fold ?f xs m \<le> op_Complete op) \<and>
      (fold ?f xs m = m \<or> (\<exists>op \<in> set (left_ops xs). fold ?f xs m = op_Complete op))" for xs and m :: int
  proof (induction xs arbitrary: m)
    case (Cons x xs)
    obtain op r where x: "x = (op, r)" by (cases x)
    show ?case using Cons.IH [of "if r \<and> op_Complete op < m then op_Complete op else m"]
      by (auto simp: x left_ops_def split: if_splits)
  qed (simp add: left_ops_def)
  then show ?thesis unfolding min_complete_def by blast
qed

text \<open>The candidates of the search are the possible first operations.\<close>

lemma candidate_iff:
  assumes "op \<in> set (left_ops st)" and "\<forall>x \<in> set (left_ops st). op_ok x"
  shows "op_Invoke op \<le> min_complete st \<longleftrightarrow> (\<forall>b \<in># mset (left_ops st) - {#op#}. op_Invoke op \<le> op_Complete b)"
proof
  show "op_Invoke op \<le> min_complete st \<Longrightarrow> \<forall>b \<in># mset (left_ops st) - {#op#}. op_Invoke op \<le> op_Complete b"
    using min_complete_le [of st] by (force dest: in_diffD)
next
  assume all: "\<forall>b \<in># mset (left_ops st) - {#op#}. op_Invoke op \<le> op_Complete b"
  have own: "op_Invoke op \<le> op_Complete op" "op_Complete op \<le> maxInt64" using assms by (auto simp: op_ok_def)
  have "op_Invoke op \<le> op_Complete b" if "b \<in> set (left_ops st)" for b
  proof (cases "b = op")
    case False
    then have "b \<in># mset (left_ops st) - {#op#}" using that by (simp add: in_diff_count)
    then show ?thesis using all by blast
  qed (use own in simp)
  then show "op_Invoke op \<le> min_complete st" using min_complete_le [of st] own by force
qed

lemma left_take:
  assumes "i < length st" and "snd (st ! i)"
  shows "mset (left_ops (take_op i st)) = mset (left_ops st) - {#fst (st ! i)#}" "fst (st ! i) \<in> set (left_ops st)"
proof -
  have "st = take i st @ st ! i # drop (Suc i) st" using assms(1) by (rule id_take_nth_drop)
  then have l: "left_ops st = left_ops (take i st) @ fst (st ! i) # left_ops (drop (Suc i) st)"
    using assms(2) unfolding left_ops_def by (metis filter.simps(2) filter_append list.simps(9) map_append)
  have t: "take_op i st = take i st @ (fst (st ! i), False) # drop (Suc i) st"
    using assms(1) by (simp add: take_op_def upd_conv_take_nth_drop)
  have "left_ops (take_op i st) = left_ops (take i st) @ left_ops (drop (Suc i) st)" unfolding t by (simp add: left_ops_def)
  then show "mset (left_ops (take_op i st)) = mset (left_ops st) - {#fst (st ! i)#}" "fst (st ! i) \<in> set (left_ops st)"
    using l by simp_all
qed

lemma length_left_step:
  assumes "i < length st" and "snd (st ! i)"
  shows "length (left_ops st) = Suc (length (left_ops (take_op i st)))"
proof -
  have "mset (left_ops st) = add_mset (fst (st ! i)) (mset (left_ops (take_op i st)))" using left_take [OF assms] by simp
  then have "size (mset (left_ops st)) = Suc (size (mset (left_ops (take_op i st))))" by simp
  then show ?thesis by simp
qed

lemma left_subset:
  assumes "i < length st" and "snd (st ! i)"
  shows "set (left_ops (take_op i st)) \<subseteq> set (left_ops st)"
proof
  fix x assume "x \<in> set (left_ops (take_op i st))"
  then have "x \<in># mset (left_ops st) - {#fst (st ! i)#}" unfolding left_take(1) [OF assms, symmetric] by simp
  then have "x \<in># mset (left_ops st)" by (rule in_diffD)
  then show "x \<in> set (left_ops st)" by simp
qed

lemma length_take_op [simp]: "length (take_op i st) = length st"
  by (simp add: take_op_def)

lemma left_set: "op \<in> set (left_ops st) \<longleftrightarrow> (\<exists>i < length st. snd (st ! i) \<and> fst (st ! i) = op)"
  unfolding left_ops_def by (auto simp: in_set_conv_nth image_iff) (metis nth_mem prod.collapse in_set_conv_nth)+

definition tries :: "(Op \<times> bool) list \<Rightarrow> string \<Rightarrow> nat \<Rightarrow> bool" where
  "tries st current i \<longleftrightarrow> (\<exists>k. i \<le> k \<and> k < length st \<and> snd (st ! k) \<and> op_Invoke (fst (st ! k)) \<le> min_complete st \<and>
     (\<exists>nxt. op_apply (fst (st ! k)) current = Some nxt \<and> linearizable_from nxt (mset (left_ops (take_op k st)))))"

lemma tries_step:
  "tries st current i \<longleftrightarrow> i < length st \<and>
     (snd (st ! i) \<and> op_Invoke (fst (st ! i)) \<le> min_complete st \<and>
        (\<exists>nxt. op_apply (fst (st ! i)) current = Some nxt \<and> linearizable_from nxt (mset (left_ops (take_op i st)))) \<or>
      tries st current (i + 1))"
proof -
  have "(\<exists>k \<ge> i. k < n \<and> P k) \<longleftrightarrow> i < n \<and> (P i \<or> (\<exists>k \<ge> i + 1. k < n \<and> P k))" (is "?l \<longleftrightarrow> ?r") for n and P :: "nat \<Rightarrow> bool"
  proof
    assume ?l
    then obtain k where k: "i \<le> k" "k < n" "P k" by blast
    then show ?r by (cases "k = i") (auto intro!: exI [of _ k])
  next
    assume ?r
    then show ?l by (meson add_leD1 order_refl)
  qed
  then show ?thesis unfolding tries_def by (simp add: conj_assoc)
qed

lemma tries_linearizable:
  assumes "left_ops st \<noteq> []" and "\<forall>x \<in> set (left_ops st). op_ok x"
  shows "tries st current 0 \<longleftrightarrow> linearizable_from current (mset (left_ops st))"
proof -
  have "tries st current 0 \<longleftrightarrow> (\<exists>k < length st. snd (st ! k) \<and> (\<forall>b \<in># mset (left_ops st) - {#fst (st ! k)#}. op_Invoke (fst (st ! k)) \<le> op_Complete b) \<and>
      (\<exists>nxt. op_apply (fst (st ! k)) current = Some nxt \<and> linearizable_from nxt (mset (left_ops st) - {#fst (st ! k)#})))"
    unfolding tries_def using candidate_iff [OF _ assms(2)] left_take by (metis (no_types, lifting) le0)
  also have "\<dots> \<longleftrightarrow> (\<exists>op \<in> set (left_ops st). (\<forall>b \<in># mset (left_ops st) - {#op#}. op_Invoke op \<le> op_Complete b) \<and>
      (\<exists>nxt. op_apply op current = Some nxt \<and> linearizable_from nxt (mset (left_ops st) - {#op#})))"
    unfolding left_set Bex_def by blast
  also have "\<dots> \<longleftrightarrow> linearizable_from current (mset (left_ops st))"
    using linearizable_first [of "mset (left_ops st)" current] assms(1) by simp
  finally show ?thesis .
qed

lemma map_fst_take_op: "i < length st \<Longrightarrow> map fst (take_op i st) = map fst st"
  unfolding take_op_def map_update fst_conv by (metis list_update_id nth_map)

definition blames :: "Op option \<Rightarrow> (Op \<times> bool) list \<Rightarrow> Op option \<Rightarrow> bool" where
  "blames old st new \<longleftrightarrow> new = old \<or> (\<exists>op \<in> set (map fst st). new = Some op)"

lemma blames_trans: "blames a st b \<Longrightarrow> blames b st c \<Longrightarrow> blames a st c"
  unfolding blames_def by blast

lemma blames_op: "i < length st \<Longrightarrow> blames a st (Some (fst (st ! i)))"
  unfolding blames_def by (metis length_map nth_map nth_mem)

lemma search_decides:
  "cnt + length (left_ops st) = length st \<Longrightarrow> \<forall>x \<in> set (left_ops st). op_ok x \<Longrightarrow>
     fst (search st current cnt blame) = linearizable_from current (mset (left_ops st)) \<and> blames blame st (snd (search st current cnt blame))"
  "minComplete = min_complete st \<Longrightarrow> cnt + length (left_ops st) = length st \<Longrightarrow> \<forall>x \<in> set (left_ops st). op_ok x \<Longrightarrow>
     fst (search_from minComplete i st current cnt blame) = tries st current i \<and> blames blame st (snd (search_from minComplete i st current cnt blame))"
proof (induction st current cnt blame and minComplete i st current cnt blame rule: search_search_from.induct)
  case (1 st current cnt blame)
  show ?case
  proof (cases "cnt = length st")
    case True
    then show ?thesis using 1 by (simp add: search.simps blames_def)
  next
    case False
    then have "left_ops st \<noteq> []" using 1 by auto
    then show ?thesis using 1 False tries_linearizable [of st current] by (simp add: search.simps)
  qed
next
  case (2 minComplete i st current cnt blame)
  note unf = search_from.simps [of minComplete i st current cnt blame] and step = tries_step [of st current i]
  consider "\<not> i < length st" | "i < length st" "\<not> snd (st ! i) \<or> op_Invoke (fst (st ! i)) > minComplete"
    | "i < length st" "snd (st ! i)" "\<not> op_Invoke (fst (st ! i)) > minComplete" by blast
  then show ?case
  proof cases
    case 1
    then show ?thesis using unf step by (simp add: blames_def)
  next
    case 2
    then show ?thesis using unf step "2.IH"(1,2) "2.prems" by auto
  next
    case 3
    have nn: "\<not> \<not> snd (st ! i)" using 3(2) by simp
    show ?thesis
    proof (cases "op_apply (fst (st ! i)) current")
      case None
      then have eq: "search_from minComplete i st current cnt blame = search_from minComplete (i + 1) st current cnt (Some (fst (st ! i)))"
        using unf 3 by simp
      have t: "tries st current i = tries st current (i + 1)" using step None 3(1) tries_step [of st current "i + 1"] by auto
      note ih = "2.IH"(3) [OF 3(1) nn 3(3) None "2.prems"]
      show ?thesis unfolding eq t using ih blames_trans [OF blames_op [OF 3(1), of blame]] by blast
    next
      case (Some nxt)
      let ?r = "search (take_op i st) nxt (cnt + 1) blame"
      have "length (left_ops (take_op i st)) + 1 = length (left_ops st)"
        using length_left_step [OF 3(1,2)] by simp
      moreover have "\<forall>x \<in> set (left_ops (take_op i st)). op_ok x"
        using "2.prems"(3) left_subset [OF 3(1,2)] by blast
      ultimately have r: "fst ?r = linearizable_from nxt (mset (left_ops (take_op i st)))" "blames blame (take_op i st) (snd ?r)"
        using "2.IH"(4) [OF 3(1) nn 3(3) Some] "2.prems"(2) by simp_all
      have b: "blames blame st (snd ?r)" using r(2) map_fst_take_op [OF 3(1)] by (simp add: blames_def del: set_map)
      show ?thesis
      proof (cases "fst ?r")
        case True
        then have "search_from minComplete i st current cnt blame = (True, snd ?r)" using unf 3 Some by (cases ?r) auto
        then show ?thesis using step r True b 3 Some "2.prems"(1) by simp
      next
        case False
        then obtain b' where r': "?r = (False, b')" by (cases ?r) auto
        then have eq: "search_from minComplete i st current cnt blame = search_from minComplete (i + 1) st current cnt b'" using unf 3 Some by simp
        have ih: "fst (search_from minComplete (i + 1) st current cnt b') = tries st current (i + 1) \<and>
            blames b' st (snd (search_from minComplete (i + 1) st current cnt b'))"
          using "2.IH"(5) [OF 3(1) nn 3(3) Some, of False b'] r' "2.prems" by simp
        have t: "tries st current i = tries st current (i + 1)"
          using step r(1) False Some 3(1) tries_step [of st current "i + 1"] by auto
        have "blames blame st b'" using b r' by simp
        then show ?thesis unfolding eq t using ih blames_trans by blast
      qed
    qed
  qed
qed

lemma linearizeKey_decides:
  assumes "\<forall>op \<in> set sub. op_ok op"
  shows "if linearizable_from [] (mset sub) then linearizeKey sub = (True, None)
    else \<exists>op \<in> set sub. linearizeKey sub = (False, Some op)"
proof -
  define ops where "ops = sort_key (\<lambda>op. op_Invoke op) (sort_key (\<lambda>op. op_Complete op) sub)"
  define st where "st = map (\<lambda>op. (op, True)) ops"
  have left: "left_ops st = ops" by (simp add: left_ops_def st_def comp_def filter_map)
  have ops: "mset ops = mset sub" "set ops = set sub" "length st = length ops" by (simp_all add: ops_def st_def)
  have fst: "set (map fst st) = set sub" using ops by (simp add: st_def image_image)
  have s: "fst (search st [] 0 None) = linearizable_from [] (mset sub)" "blames None st (snd (search st [] 0 None))"
    using search_decides(1) [of 0 st "[]" None] assms ops left by simp_all
  have unf: "linearizeKey sub = (case search st [] 0 None of (True, blame) \<Rightarrow> (True, None)
      | (False, blame) \<Rightarrow> (case blame of None \<Rightarrow> (case left_ops st of [] \<Rightarrow> (False, None) | op # _ \<Rightarrow> (False, Some op)) | Some b \<Rightarrow> (False, Some b)))"
    unfolding linearizeKey_def Let_def ops_def [symmetric] st_def [symmetric] ..
  obtain ok blame where r: "search st [] 0 None = (ok, blame)" by (cases "search st [] 0 None")
  show ?thesis
  proof (cases ok)
    case True
    then show ?thesis using s r unf by simp
  next
    case False
    then have nl: "\<not> linearizable_from [] (mset sub)" using s r by simp
    then have "sub \<noteq> []" by auto
    then have ne: "ops \<noteq> []" using ops(1) by auto
    have "\<exists>op \<in> set sub. linearizeKey sub = (False, Some op)"
    proof (cases blame)
      case None
      then have "linearizeKey sub = (False, Some (hd ops))" using unf r False left ne by (simp split: list.splits)
      then show ?thesis using ne ops(2) by (metis hd_in_set)
    next
      case (Some op)
      then show ?thesis using unf r False s(2) fst by (auto simp: blames_def simp del: set_map)
    qed
    then show ?thesis using nl by simp
  qed
qed

section \<open>Several keys\<close>

definition key_ops :: "string \<Rightarrow> Op list \<Rightarrow> Op list" where
  "key_ops k ops = filter (\<lambda>op. op_Key op = k) ops"

lemma partition_loop_spec:
  assumes "partition_loop ops (byKey, keys) = (byKey', keys')" and "set keys = fmdom' byKey"
  shows "set keys' = set keys \<union> op_Key ` set ops \<and> set keys' = fmdom' byKey' \<and>
    (\<forall>k. (case fmlookup byKey' k of None \<Rightarrow> [] | Some l \<Rightarrow> l) = (case fmlookup byKey k of None \<Rightarrow> [] | Some l \<Rightarrow> l) @ key_ops k ops)"
  using assms
proof (induction ops arbitrary: byKey keys)
  case Nil
  then show ?case by (simp add: key_ops_def)
next
  case (Cons op ops)
  let ?b = "fmupd (op_Key op) ((case fmlookup byKey (op_Key op) of None \<Rightarrow> [] | Some l \<Rightarrow> l) @ [op]) byKey"
  let ?k = "if fmlookup byKey (op_Key op) = None then keys @ [op_Key op] else keys"
  have dom: "set ?k = fmdom' ?b" "set ?k = insert (op_Key op) (set keys)"
    using Cons.prems(2) fmlookup_dom'_iff [of "op_Key op" byKey] by auto
  have run: "partition_loop ops (?b, ?k) = (byKey', keys')" using Cons.prems(1) by simp
  note ih = Cons.IH [OF run dom(1)]
  show ?case
  proof (intro conjI allI)
    show "set keys' = set keys \<union> op_Key ` set (op # ops)" using ih dom(2) by auto
    show "set keys' = fmdom' byKey'" using ih by blast
    fix k
    have "(case fmlookup byKey' k of None \<Rightarrow> [] | Some l \<Rightarrow> l) = (case fmlookup ?b k of None \<Rightarrow> [] | Some l \<Rightarrow> l) @ key_ops k ops" using ih by blast
    then show "(case fmlookup byKey' k of None \<Rightarrow> [] | Some l \<Rightarrow> l) = (case fmlookup byKey k of None \<Rightarrow> [] | Some l \<Rightarrow> l) @ key_ops k (op # ops)"
      by (simp add: key_ops_def)
  qed
qed

lemma check_loop_spec:
  assumes "\<forall>op \<in> set ops. op_ok op" and "\<forall>k. (case fmlookup byKey k of None \<Rightarrow> [] | Some l \<Rightarrow> l) = key_ops k ops"
  shows "if \<forall>k \<in> set keys. linearizable_from [] (mset (key_ops k ops)) then check_loop keys byKey = (True, None)
    else \<exists>op \<in> set ops. check_loop keys byKey = (False, Some op) \<and> \<not> linearizable_from [] (mset (key_ops (op_Key op) ops))"
proof (induction keys)
  case (Cons k keys)
  have sub: "(case fmlookup byKey k of None \<Rightarrow> [] | Some l \<Rightarrow> l) = key_ops k ops" using assms(2) by blast
  have ok: "\<forall>op \<in> set (key_ops k ops). op_ok op" using assms(1) by (simp add: key_ops_def)
  show ?case
  proof (cases "linearizable_from [] (mset (key_ops k ops))")
    case True
    then have "linearizeKey (key_ops k ops) = (True, None)" using linearizeKey_decides [OF ok] by simp
    then have "check_loop (k # keys) byKey = check_loop keys byKey" by (simp add: sub)
    then show ?thesis using Cons.IH True by auto
  next
    case False
    then obtain op where op: "op \<in> set (key_ops k ops)" "linearizeKey (key_ops k ops) = (False, Some op)"
      using linearizeKey_decides [OF ok] by auto
    then have "check_loop (k # keys) byKey = (False, Some op)" by (simp add: sub)
    moreover have "op \<in> set ops" "op_Key op = k" using op(1) by (auto simp: key_ops_def)
    ultimately show ?thesis using False by auto
  qed
qed simp

lemma CheckRegister_keys:
  assumes "\<forall>op \<in> set ops. op_ok op"
  shows "if \<forall>k. linearizable_from [] (mset (key_ops k ops)) then CheckRegister ops = (True, None)
    else \<exists>op \<in> set ops. CheckRegister ops = (False, Some op) \<and> \<not> linearizable_from [] (mset (key_ops (op_Key op) ops))"
proof -
  obtain byKey keys where p: "partition_loop ops (fmempty, []) = (byKey, keys)" by fastforce
  have s: "set keys = op_Key ` set ops" "\<forall>k. (case fmlookup byKey k of None \<Rightarrow> [] | Some l \<Rightarrow> l) = key_ops k ops"
    using partition_loop_spec [OF p] by simp_all
  have "key_ops k ops = []" if "k \<notin> op_Key ` set ops" for k using that by (auto simp: key_ops_def filter_empty_conv)
  then have "linearizable_from [] (mset (key_ops k ops))" if "k \<notin> op_Key ` set ops" for k using that by simp
  then have "(\<forall>k \<in> set (sort keys). linearizable_from [] (mset (key_ops k ops))) \<longleftrightarrow> (\<forall>k. linearizable_from [] (mset (key_ops k ops)))"
    unfolding set_sort s(1) by blast
  moreover have "CheckRegister ops = check_loop (sort keys) byKey" by (simp add: CheckRegister_def p)
  ultimately show ?thesis using check_loop_spec [OF assms s(2), of "sort keys"] by simp
qed

section \<open>Locality\<close>

text \<open>
  Linearizability of a whole history: one order of all operations, respecting real time, that is a run of
  the store of all registers. It holds exactly if every key is linearizable by itself. From right to left
  every operation gets a point in its interval, ascending along the order of its key, and all operations are
  sorted by their points.
\<close>

fun store_run :: "(string \<Rightarrow> string) \<Rightarrow> Op list \<Rightarrow> bool" where
  "store_run \<sigma> [] = True"
| "store_run \<sigma> (op # ops) = (case register_step op (\<sigma> (op_Key op)) of None \<Rightarrow> False | Some nxt \<Rightarrow> store_run (\<sigma>(op_Key op := nxt)) ops)"

definition linearizable :: "Op list \<Rightarrow> bool" where
  "linearizable ops \<longleftrightarrow> (\<exists>xs. mset xs = mset ops \<and> real_time xs \<and> store_run (\<lambda>_. []) xs)"

lemma store_run_keys: "store_run \<sigma> xs \<longleftrightarrow> (\<forall>k. register_run (\<sigma> k) (key_ops k xs))"
proof (induction xs arbitrary: \<sigma>)
  case (Cons op xs)
  show ?case
  proof (cases "op_apply op (\<sigma> (op_Key op))")
    case None
    then show ?thesis by (auto simp: key_ops_def intro!: exI [of _ "op_Key op"])
  next
    case (Some nxt)
    then have "store_run \<sigma> (op # xs) \<longleftrightarrow> (\<forall>k. register_run ((\<sigma>(op_Key op := nxt)) k) (key_ops k xs))" by (simp add: Cons.IH)
    also have "\<dots> \<longleftrightarrow> (\<forall>k. register_run (\<sigma> k) (key_ops k (op # xs)))" using Some by (auto simp: key_ops_def)
    finally show ?thesis .
  qed
qed (simp add: key_ops_def)

fun points :: "int \<Rightarrow> Op list \<Rightarrow> (int \<times> Op) list" where
  "points m [] = []"
| "points m (op # ops) = (max m (op_Invoke op), op) # points (max m (op_Invoke op)) ops"

lemma map_snd_points [simp]: "map snd (points m ops) = ops"
  by (induction ops arbitrary: m) simp_all

lemma points_ge: "(t, op) \<in> set (points m ops) \<Longrightarrow> m \<le> t \<and> op_Invoke op \<le> t"
  by (induction ops arbitrary: m) fastforce+

lemma sorted_points: "sorted (map fst (points m ops))"
  by (induction ops arbitrary: m) (auto dest: points_ge)

lemma points_le:
  assumes "real_time ops" and "\<forall>op \<in> set ops. m \<le> op_Complete op \<and> op_Invoke op \<le> op_Complete op" and "(t, op) \<in> set (points m ops)"
  shows "t \<le> op_Complete op"
  using assms
proof (induction ops arbitrary: m)
  case (Cons x ops)
  show ?case
  proof (cases "(t, op) = (max m (op_Invoke x), x)")
    case True
    then show ?thesis using Cons.prems(2) by simp
  next
    case False
    then have "(t, op) \<in> set (points (max m (op_Invoke x)) ops)" using Cons.prems(3) by auto
    moreover have "real_time ops" "\<forall>op \<in> set ops. max m (op_Invoke x) \<le> op_Complete op \<and> op_Invoke op \<le> op_Complete op"
      using Cons.prems(1,2) by (auto simp: real_time_def)
    ultimately show ?thesis by (rule Cons.IH [rotated 2])
  qed
qed simp

lemma filter_concat_own:
  assumes "distinct K" and "\<And>j p. p \<in> set (f j) \<Longrightarrow> g p = j" and "\<And>k. k \<notin> set K \<Longrightarrow> f k = []"
  shows "filter (\<lambda>p. g p = k) (concat (map f K)) = f k"
proof -
  have own: "filter (\<lambda>p. g p = k) (f j) = (if j = k then f k else [])" for j
    using assms(2) by (auto simp: filter_empty_conv filter_id_conv)
  have "concat (map (\<lambda>j. if j = k then f k else []) js) = (if k \<in> set js then f k else [])" if "distinct js" for js
    using that by (induction js) auto
  then show ?thesis using assms(1,3) unfolding filter_concat map_map comp_def own by auto
qed

lemma mset_by_keys:
  assumes "\<And>k. mset (key_ops k xs) = mset (key_ops k ops)"
  shows "mset xs = mset ops"
proof (rule multiset_eqI)
  fix op
  have "count (mset zs) op = count (mset (key_ops (op_Key op) zs)) op" for zs by (simp add: key_ops_def)
  then show "count (mset xs) op = count (mset ops) op" using assms by metis
qed

lemma locality:
  assumes ok: "\<forall>op \<in> set ops. op_ok op" and lin: "\<forall>k. linearizable_from [] (mset (key_ops k ops))"
  shows "linearizable ops"
proof -
  obtain ys where ys: "mset (ys k) = mset (key_ops k ops)" "real_time (ys k)" "register_run [] (ys k)" for k
    using lin unfolding linearizable_from_def by metis
  have in_ys: "op \<in> set (ys k) \<longleftrightarrow> op \<in> set ops \<and> op_Key op = k" for op k
    using ys(1) [of k] by (metis (mono_tags, lifting) key_ops_def mem_Collect_eq set_filter set_mset_mset)
  define start where "start k = (case ys k of [] \<Rightarrow> 0 | op # _ \<Rightarrow> op_Invoke op)" for k
  define ann where "ann k = points (start k) (ys k)" for k
  have bounds: "op_Invoke op \<le> t \<and> t \<le> op_Complete op" if "(t, op) \<in> set (ann k)" for t op k
  proof -
    have "\<forall>op \<in> set (ys k). op_Invoke op \<le> op_Complete op" using in_ys ok by (simp add: op_ok_def)
    then have "\<forall>op \<in> set (ys k). start k \<le> op_Complete op \<and> op_Invoke op \<le> op_Complete op"
      using ys(2) [of k] by (auto simp: start_def real_time_def split: list.splits)
    then show ?thesis using points_le [OF ys(2)] points_ge that unfolding ann_def by blast
  qed
  define K where "K = sort (remdups (map op_Key ops))"
  have K: "distinct K" "set K = op_Key ` set ops" by (simp_all add: K_def)
  define A where "A = concat (map ann K)"
  define xs where "xs = map snd (sort_key fst A)"
  have key_A: "filter (\<lambda>p. op_Key (snd p) = k) A = ann k" for k
    unfolding A_def
  proof (rule filter_concat_own [OF K(1)])
    show "op_Key (snd p) = j" if "p \<in> set (ann j)" for j p
      using that in_ys [of "snd p" j] unfolding ann_def by (metis image_eqI map_snd_points set_map)
    show "ann j = []" if nk: "j \<notin> set K" for j
    proof -
      have "op \<notin> set (ys j)" for op using in_ys [of op j] nk K(2) by auto
      then have "ys j = []" by (metis list.set_intros(1) neq_Nil_conv)
      then show ?thesis by (simp add: ann_def)
    qed
  qed
  have key_xs: "key_ops k xs = ys k" for k
  proof -
    have "key_ops k xs = map snd (filter (\<lambda>p. op_Key (snd p) = k) (sort_key fst A))"
      by (simp add: key_ops_def xs_def filter_map comp_def)
    also have "\<dots> = map snd (sort_key fst (ann k))" by (simp add: filter_sort key_A)
    also have "\<dots> = ys k" using sort_key_id_if_sorted [of fst "ann k"] sorted_points by (simp add: ann_def)
    finally show ?thesis .
  qed
  have "mset xs = mset ops" by (rule mset_by_keys) (simp add: key_xs ys(1))
  moreover have "real_time xs"
  proof -
    have "sorted_wrt (\<lambda>p q. fst p \<le> fst q) (sort_key fst A)" using sorted_sort_key [of fst A] by (simp add: sorted_map)
    moreover have "op_Invoke (snd p) \<le> op_Complete (snd q)" if "p \<in> set (sort_key fst A)" "q \<in> set (sort_key fst A)" "fst p \<le> fst q" for p q
    proof -
      have "p \<in> set A" "q \<in> set A" using that by simp_all
      then obtain j k where "(fst p, snd p) \<in> set (ann j)" "(fst q, snd q) \<in> set (ann k)" by (auto simp: A_def)
      then have "op_Invoke (snd p) \<le> fst p" "fst q \<le> op_Complete (snd q)" using bounds by blast+
      then show ?thesis using that(3) by linarith
    qed
    ultimately have "sorted_wrt (\<lambda>p q. op_Invoke (snd p) \<le> op_Complete (snd q)) (sort_key fst A)"
      by (rule sorted_wrt_mono_rel [rotated])
    then show ?thesis by (simp add: real_time_def xs_def sorted_wrt_map)
  qed
  moreover have "store_run (\<lambda>_. []) xs" unfolding store_run_keys key_xs using ys(3) by blast
  ultimately show ?thesis unfolding linearizable_def by blast
qed

lemma linearizable_keys:
  assumes "\<forall>op \<in> set ops. op_ok op"
  shows "linearizable ops \<longleftrightarrow> (\<forall>k. linearizable_from [] (mset (key_ops k ops)))"
proof
  assume "linearizable ops"
  then obtain xs where xs: "mset xs = mset ops" "real_time xs" "store_run (\<lambda>_. []) xs" by (auto simp: linearizable_def)
  have "mset (key_ops k xs) = mset (key_ops k ops)" "real_time (key_ops k xs)" "register_run [] (key_ops k xs)" for k
    using xs by (simp_all add: key_ops_def real_time_def sorted_wrt_filter store_run_keys)
  then show "\<forall>k. linearizable_from [] (mset (key_ops k ops))" unfolding linearizable_from_def by blast
qed (rule locality [OF assms])

text \<open>
  C12. \<open>CheckRegister\<close> decides linearizability: for operations that complete no earlier than they are invoked
  it terminates, and it answers \<open>(true, nil)\<close> exactly if the whole history is linearizable, that is, if one
  order of all its operations respects real time and is a run of a store of registers, initially empty. On
  the answer \<open>false\<close> it points at an operation of the history whose key is not linearizable by itself.
\<close>

theorem checker_decides_linearizability:
  assumes "\<forall>op \<in> set ops. op_ok op"
  shows "if linearizable ops then CheckRegister ops = (True, None)
    else \<exists>op \<in> set ops. CheckRegister ops = (False, Some op) \<and> \<not> linearizable (key_ops (op_Key op) ops)"
proof -
  have own: "linearizable (key_ops k ops) \<longleftrightarrow> linearizable_from [] (mset (key_ops k ops))" for k
  proof -
    have ok: "\<forall>op \<in> set (key_ops k ops). op_ok op" using assms by (simp add: key_ops_def)
    have "key_ops j (key_ops k ops) = (if j = k then key_ops k ops else [])" for j by (auto simp: key_ops_def filter_empty_conv)
    then have "(\<forall>j. linearizable_from [] (mset (key_ops j (key_ops k ops)))) \<longleftrightarrow> linearizable_from [] (mset (key_ops k ops))" by simp
    then show ?thesis using linearizable_keys [OF ok] by simp
  qed
  show ?thesis unfolding own linearizable_keys [OF assms] by (rule CheckRegister_keys [OF assms])
qed

definition demo_op :: "OpKind \<Rightarrow> string \<Rightarrow> int \<Rightarrow> int \<Rightarrow> Op" where
  "demo_op k v a b = \<lparr>op_ClientID = ''c'', op_Kind = k, op_Value = v, op_Key = ''x'', op_Invoke = a, op_Complete = b\<rparr>"

theorem checker_decides_linearizability_witness:
  "\<not> linearizable [demo_op OpWrite ''1'' 0 1, demo_op OpRead [] 2 3] \<and>
   fst (CheckRegister [demo_op OpWrite ''1'' 0 1, demo_op OpRead [] 2 3]) = False"
proof -
  have c: "CheckRegister [demo_op OpWrite ''1'' 0 1, demo_op OpRead [] 2 3] = (False, Some (demo_op OpRead [] 2 3))" by code_simp
  have "\<forall>op \<in> set [demo_op OpWrite ''1'' 0 1, demo_op OpRead [] 2 3]. op_ok op" by (simp add: demo_op_def op_ok_def maxInt64_def)
  from checker_decides_linearizability [OF this] show ?thesis by (simp add: c split: if_splits)
qed

end
