(* ===== verification/Swim.thy ===== *)
theory Swim
  imports Go_Prelude
begin

text \<open>
  The SWIM failure detector (\<open>internal/swim/swim.go\<close>): one node's view of the membership, driven by local
  calls and by gossip. Incarnations are \<open>uint64\<close> and wrap around. \<open>MemberState\<close> is an integer in the source,
  so gossip may carry a state other than the three constants. A view always holds its own node; the read of
  \<open>m.members[m.selfID]\<close> without it would be a nil dereference, which is \<open>None\<close>.
\<close>

datatype MemberState = Alive | Suspect | Dead | UnknownState int

fun precedence :: "MemberState \<Rightarrow> int" where
  "precedence Alive = 0"
| "precedence Suspect = 1"
| "precedence Dead = 2"
| "precedence (UnknownState i) = -1"

record Member =
  mb_ID :: string
  mb_State :: MemberState
  mb_Incarnation :: u64
  mb_suspectedAt :: int

record Membership =
  ms_selfID :: string
  ms_members :: "(string, Member) fmap"

definition new_member :: "string \<Rightarrow> MemberState \<Rightarrow> u64 \<Rightarrow> int \<Rightarrow> Member" where
  "new_member i st inc sus = \<lparr>mb_ID = i, mb_State = st, mb_Incarnation = inc, mb_suspectedAt = sus\<rparr>"

definition put_member :: "string \<Rightarrow> Member \<Rightarrow> Membership \<Rightarrow> Membership" where
  "put_member i mem m = m\<lparr>ms_members := fmupd i mem (ms_members m)\<rparr>"

definition NewMembership :: "string \<Rightarrow> Membership" where
  "NewMembership selfID = \<lparr>ms_selfID = selfID, ms_members = fmupd selfID (new_member selfID Alive 0 0) fmempty\<rparr>"

definition Membership_SelfIncarnation :: "Membership \<Rightarrow> u64 option" where
  "Membership_SelfIncarnation m = map_option mb_Incarnation (fmlookup (ms_members m) (ms_selfID m))"

definition Membership_Get :: "string \<Rightarrow> Membership \<Rightarrow> Member option" where
  "Membership_Get i m = fmlookup (ms_members m) i"

definition Membership_Alive :: "string \<Rightarrow> u64 \<Rightarrow> Membership \<Rightarrow> Membership" where
  "Membership_Alive i incarnation m =
     (case fmlookup (ms_members m) i of
        None \<Rightarrow> put_member i (new_member i Alive incarnation 0) m
      | Some cur \<Rightarrow>
          if mb_State cur = Dead then m
          else if incarnation < mb_Incarnation cur then m
          else if incarnation = mb_Incarnation cur \<and> mb_State cur = Suspect then m
          else put_member i (cur\<lparr>mb_State := Alive, mb_Incarnation := incarnation, mb_suspectedAt := 0\<rparr>) m)"

definition Membership_refuteSuspicionLocked :: "Membership \<Rightarrow> Membership option" where
  "Membership_refuteSuspicionLocked m =
     map_option (\<lambda>self. put_member (ms_selfID m)
         (self\<lparr>mb_Incarnation := mb_Incarnation self + 1, mb_State := Alive, mb_suspectedAt := 0\<rparr>) m)
       (fmlookup (ms_members m) (ms_selfID m))"

definition Membership_RefuteSuspicion :: "Membership \<Rightarrow> Membership option" where
  "Membership_RefuteSuspicion m = Membership_refuteSuspicionLocked m"

definition Membership_Suspect :: "string \<Rightarrow> u64 \<Rightarrow> int \<Rightarrow> Membership \<Rightarrow> Membership option" where
  "Membership_Suspect i incarnation now m =
     (if i = ms_selfID m then Membership_refuteSuspicionLocked m
      else Some (case fmlookup (ms_members m) i of
        None \<Rightarrow> put_member i (new_member i Suspect incarnation now) m
      | Some cur \<Rightarrow>
          if mb_State cur = Dead then m
          else if incarnation < mb_Incarnation cur then m
          else if mb_State cur = Suspect \<and> incarnation = mb_Incarnation cur then m
          else put_member i (cur\<lparr>mb_State := Suspect, mb_Incarnation := incarnation, mb_suspectedAt := now\<rparr>) m))"

definition Membership_Dead :: "string \<Rightarrow> Membership \<Rightarrow> Membership" where
  "Membership_Dead i m =
     (case fmlookup (ms_members m) i of
        None \<Rightarrow> put_member i (new_member i Dead 0 0) m
      | Some cur \<Rightarrow> put_member i (cur\<lparr>mb_State := Dead, mb_suspectedAt := 0\<rparr>) m)"

definition Membership_Confirm :: "string \<Rightarrow> Membership \<Rightarrow> Membership" where
  "Membership_Confirm i m = Membership_Dead i m"

definition expire :: "int \<Rightarrow> Member \<Rightarrow> Member" where
  "expire deadline mem =
     (if mb_State mem = Suspect \<and> mb_suspectedAt mem < deadline then mem\<lparr>mb_State := Dead, mb_suspectedAt := 0\<rparr> else mem)"

definition Membership_TickSuspicions :: "int \<Rightarrow> Membership \<Rightarrow> Membership \<times> string list" where
  "Membership_TickSuspicions deadline m =
     (let members = go_range (\<lambda>i mem ms. fmupd i (expire deadline mem) ms) (ms_members m) (ms_members m);
          promoted = go_range (\<lambda>i mem out. if mb_State mem = Suspect \<and> mb_suspectedAt mem < deadline then out @ [mb_ID mem] else out) (ms_members m) []
      in (m\<lparr>ms_members := members\<rparr>, sort promoted))"

definition gossipWinsLocked :: "Member \<Rightarrow> Member \<Rightarrow> bool" where
  "gossipWinsLocked cur g =
     (if mb_Incarnation g > mb_Incarnation cur then True
      else if mb_Incarnation g < mb_Incarnation cur then False
      else precedence (mb_State g) > precedence (mb_State cur))"

definition Membership_mergeSelfLocked :: "Member \<Rightarrow> Membership \<Rightarrow> Membership option" where
  "Membership_mergeSelfLocked g m =
     map_option (\<lambda>self.
         if mb_State g = Alive then
           (if mb_Incarnation g > mb_Incarnation self
            then put_member (ms_selfID m) (self\<lparr>mb_Incarnation := mb_Incarnation g\<rparr>) m else m)
         else if mb_Incarnation g < mb_Incarnation self then m
         else put_member (ms_selfID m) (self\<lparr>mb_Incarnation := mb_Incarnation g + 1, mb_State := Alive, mb_suspectedAt := 0\<rparr>) m)
       (fmlookup (ms_members m) (ms_selfID m))"

definition merge_one :: "Member \<Rightarrow> Membership \<Rightarrow> Membership option" where
  "merge_one g m =
     (if mb_ID g = ms_selfID m then Membership_mergeSelfLocked g m
      else Some (case fmlookup (ms_members m) (mb_ID g) of
        None \<Rightarrow> put_member (mb_ID g) (new_member (mb_ID g) (mb_State g) (mb_Incarnation g) 0) m
      | Some cur \<Rightarrow>
          if mb_State cur = Dead then m
          else if gossipWinsLocked cur g
          then put_member (mb_ID g) (cur\<lparr>mb_State := mb_State g, mb_Incarnation := mb_Incarnation g, mb_suspectedAt := 0\<rparr>) m
          else m))"

fun Membership_Merge :: "Member list \<Rightarrow> Membership \<Rightarrow> Membership option" where
  "Membership_Merge [] m = Some m"
| "Membership_Merge (g # gossip) m = Option.bind (merge_one g m) (Membership_Merge gossip)"

definition Membership_membersByState :: "MemberState \<Rightarrow> Membership \<Rightarrow> string list" where
  "Membership_membersByState st m = sort (go_range (\<lambda>i mem ids. if mb_State mem = st then ids @ [i] else ids) (ms_members m) [])"

definition Membership_AliveMembers :: "Membership \<Rightarrow> string list" where
  "Membership_AliveMembers m = Membership_membersByState Alive m"

definition Membership_SuspectMembers :: "Membership \<Rightarrow> string list" where
  "Membership_SuspectMembers m = Membership_membersByState Suspect m"

definition Membership_DeadMembers :: "Membership \<Rightarrow> string list" where
  "Membership_DeadMembers m = Membership_membersByState Dead m"

definition Membership_Snapshot :: "Membership \<Rightarrow> Member list" where
  "Membership_Snapshot m =
     sort_key mb_ID (go_range (\<lambda>i mem out. out @ [new_member (mb_ID mem) (mb_State mem) (mb_Incarnation mem) 0]) (ms_members m) [])"

section \<open>Views\<close>

definition view_ok :: "Membership \<Rightarrow> bool" where
  "view_ok m \<longleftrightarrow> fmlookup (ms_members m) (ms_selfID m) \<noteq> None \<and> (\<forall>i mem. fmlookup (ms_members m) i = Some mem \<longrightarrow> mb_ID mem = i)"

lemma put_member_fields [simp]:
  "ms_selfID (put_member i mem m) = ms_selfID m"
  "fmlookup (ms_members (put_member i mem m)) j = (if j = i then Some mem else fmlookup (ms_members m) j)"
  by (simp_all add: put_member_def)

lemma new_member_fields [simp]:
  "mb_ID (new_member i st inc sus) = i" "mb_State (new_member i st inc sus) = st"
  "mb_Incarnation (new_member i st inc sus) = inc" "mb_suspectedAt (new_member i st inc sus) = sus"
  by (simp_all add: new_member_def)

interpretation tick_body: slot_body "\<lambda>i mem ms. fmupd i (expire deadline mem) ms" "\<lambda>i mem cur. Some (expire deadline mem)" for deadline
  by unfold_locales simp

lemma TickSuspicions_lookup:
  "fmlookup (ms_members (fst (Membership_TickSuspicions deadline m))) i = map_option (expire deadline) (fmlookup (ms_members m) i)"
  by (simp add: Membership_TickSuspicions_def Let_def tick_body.range_lookup split: option.split)

lemma TickSuspicions_self [simp]: "ms_selfID (fst (Membership_TickSuspicions deadline m)) = ms_selfID m"
  by (simp add: Membership_TickSuspicions_def Let_def)

text \<open>The calls on a view.\<close>

datatype SwimCall = SAlive string u64 | SSuspect string u64 int | SRefute | SDead string | STick int | SMerge "Member list"

fun swim_call :: "SwimCall \<Rightarrow> Membership \<Rightarrow> Membership option" where
  "swim_call (SAlive i inc) m = Some (Membership_Alive i inc m)"
| "swim_call (SSuspect i inc now) m = Membership_Suspect i inc now m"
| "swim_call SRefute m = Membership_RefuteSuspicion m"
| "swim_call (SDead i) m = Some (Membership_Dead i m)"
| "swim_call (STick d) m = Some (fst (Membership_TickSuspicions d m))"
| "swim_call (SMerge g) m = Membership_Merge g m"

fun swim_run :: "SwimCall list \<Rightarrow> Membership \<Rightarrow> Membership option" where
  "swim_run [] m = Some m"
| "swim_run (c # cs) m = Option.bind (swim_call c m) (swim_run cs)"

text \<open>What a view may come to believe of a member: death is final, otherwise the incarnation grows, or the
  state gets worse within an incarnation.\<close>

definition grows :: "Member \<Rightarrow> Member \<Rightarrow> bool" where
  "grows a b \<longleftrightarrow> (mb_State a = Dead \<longrightarrow> mb_State b = Dead) \<and>
     (mb_State b = Dead \<or> mb_Incarnation a < mb_Incarnation b \<or>
      mb_Incarnation a = mb_Incarnation b \<and> precedence (mb_State a) \<le> precedence (mb_State b))"

lemma grows_refl [simp]: "grows a a"
  by (simp add: grows_def)

lemma grows_trans: "grows a b \<Longrightarrow> grows b c \<Longrightarrow> grows a c"
  unfolding grows_def by (auto dest: less_trans)

definition evolves :: "Membership \<Rightarrow> Membership \<Rightarrow> bool" where
  "evolves m m' \<longleftrightarrow> view_ok m' \<and> ms_selfID m' = ms_selfID m \<and>
     (\<forall>i a. i \<noteq> ms_selfID m \<longrightarrow> fmlookup (ms_members m) i = Some a \<longrightarrow> (\<exists>b. fmlookup (ms_members m') i = Some b \<and> grows a b))"

definition self_alive :: "Membership \<Rightarrow> bool" where
  "self_alive m \<longleftrightarrow> (\<exists>s. fmlookup (ms_members m) (ms_selfID m) = Some s \<and> mb_State s = Alive)"

lemma evolves_refl: "view_ok m \<Longrightarrow> evolves m m"
  by (auto simp: evolves_def)

lemma evolves_trans:
  assumes "evolves m m'" and "evolves m' m''"
  shows "evolves m m''"
  unfolding evolves_def
proof (intro conjI allI impI)
  show "view_ok m''" "ms_selfID m'' = ms_selfID m" using assms by (simp_all add: evolves_def)
  fix i a
  assume i: "i \<noteq> ms_selfID m" "fmlookup (ms_members m) i = Some a"
  then obtain b where b: "fmlookup (ms_members m') i = Some b" "grows a b" using assms(1) unfolding evolves_def by blast
  have "i \<noteq> ms_selfID m'" using i(1) assms(1) by (simp add: evolves_def)
  then obtain c where "fmlookup (ms_members m'') i = Some c" "grows b c" using assms(2) b(1) unfolding evolves_def by blast
  then show "\<exists>c. fmlookup (ms_members m'') i = Some c \<and> grows a c" using grows_trans [OF b(2)] by blast
qed

text \<open>The calls either leave the view alone or put one member: a new one, one that grows, or the node itself.\<close>

lemma evolves_put:
  assumes "view_ok m" and "mb_ID mem = i" and "\<And>a. i \<noteq> ms_selfID m \<Longrightarrow> fmlookup (ms_members m) i = Some a \<Longrightarrow> grows a mem"
  shows "evolves m (put_member i mem m)"
  using assms by (auto simp: evolves_def view_ok_def)

lemma self_alive_put: "self_alive m \<Longrightarrow> (i = ms_selfID m \<Longrightarrow> mb_State mem = Alive) \<Longrightarrow> self_alive (put_member i mem m)"
  by (auto simp: self_alive_def)

lemma view_ok_ID: "view_ok m \<Longrightarrow> fmlookup (ms_members m) i = Some a \<Longrightarrow> mb_ID a = i"
  by (simp add: view_ok_def)

lemma Alive_evolves:
  assumes "view_ok m"
  shows "evolves m (Membership_Alive i inc m)"
proof (cases "fmlookup (ms_members m) i")
  case None
  then show ?thesis using assms by (auto simp: Membership_Alive_def intro!: evolves_put)
next
  case (Some cur)
  have "grows cur (cur\<lparr>mb_State := Alive, mb_Incarnation := inc, mb_suspectedAt := 0\<rparr>)"
    if "mb_State cur \<noteq> Dead" "\<not> inc < mb_Incarnation cur" "\<not> (inc = mb_Incarnation cur \<and> mb_State cur = Suspect)"
    using that by (cases "mb_State cur") (auto simp: grows_def not_less order_le_less)
  then show ?thesis
    using Some assms view_ok_ID [OF assms Some] by (auto simp: Membership_Alive_def intro!: evolves_put evolves_refl)
qed

lemma Alive_self: "view_ok m \<Longrightarrow> self_alive m \<Longrightarrow> self_alive (Membership_Alive i inc m)"
  unfolding Membership_Alive_def by (auto intro!: self_alive_put split: option.splits)

lemma refute_evolves:
  assumes "view_ok m"
  obtains m' where "Membership_refuteSuspicionLocked m = Some m'" "evolves m m'" "self_alive m'"
proof -
  obtain self where self: "fmlookup (ms_members m) (ms_selfID m) = Some self" using assms by (auto simp: view_ok_def)
  let ?m = "put_member (ms_selfID m) (self\<lparr>mb_Incarnation := mb_Incarnation self + 1, mb_State := Alive, mb_suspectedAt := 0\<rparr>) m"
  have "Membership_refuteSuspicionLocked m = Some ?m" by (simp add: Membership_refuteSuspicionLocked_def self)
  moreover have "evolves m ?m" using view_ok_ID [OF assms self] by (intro evolves_put [OF assms]) auto
  moreover have "self_alive ?m" by (simp add: self_alive_def)
  ultimately show thesis by (rule that)
qed

lemma Suspect_evolves:
  assumes "view_ok m"
  obtains m' where "Membership_Suspect i inc now m = Some m'" "evolves m m'" "self_alive m \<Longrightarrow> self_alive m'"
proof (cases "i = ms_selfID m")
  case True
  obtain m' where "Membership_refuteSuspicionLocked m = Some m'" "evolves m m'" "self_alive m'" using refute_evolves [OF assms] .
  then show thesis using that True by (simp add: Membership_Suspect_def)
next
  case False
  define m' where "m' = (case fmlookup (ms_members m) i of
        None \<Rightarrow> put_member i (new_member i Suspect inc now) m
      | Some cur \<Rightarrow>
          if mb_State cur = Dead then m
          else if inc < mb_Incarnation cur then m
          else if mb_State cur = Suspect \<and> inc = mb_Incarnation cur then m
          else put_member i (cur\<lparr>mb_State := Suspect, mb_Incarnation := inc, mb_suspectedAt := now\<rparr>) m)"
  have "Membership_Suspect i inc now m = Some m'" using False by (simp add: Membership_Suspect_def m'_def)
  moreover have "evolves m m'"
  proof (cases "fmlookup (ms_members m) i")
    case None
    then show ?thesis using assms by (auto simp: m'_def intro!: evolves_put)
  next
    case (Some cur)
    have "grows cur (cur\<lparr>mb_State := Suspect, mb_Incarnation := inc, mb_suspectedAt := now\<rparr>)"
      if "mb_State cur \<noteq> Dead" "\<not> inc < mb_Incarnation cur"
      using that by (cases "mb_State cur") (auto simp: grows_def not_less order_le_less)
    then show ?thesis using Some assms view_ok_ID [OF assms Some] by (auto simp: m'_def intro!: evolves_put evolves_refl)
  qed
  moreover have "self_alive m \<Longrightarrow> self_alive m'" using False by (auto simp: m'_def intro!: self_alive_put split: option.splits)
  ultimately show thesis by (rule that)
qed

lemma Dead_evolves:
  assumes "view_ok m"
  shows "evolves m (Membership_Dead i m)"
proof (cases "fmlookup (ms_members m) i")
  case (Some cur)
  then show ?thesis using assms view_ok_ID [OF assms Some] by (auto simp: Membership_Dead_def grows_def intro!: evolves_put)
qed (use assms in \<open>auto simp: Membership_Dead_def intro!: evolves_put\<close>)

lemma Dead_self: "self_alive m \<Longrightarrow> i \<noteq> ms_selfID m \<Longrightarrow> self_alive (Membership_Dead i m)"
  unfolding Membership_Dead_def by (auto intro!: self_alive_put split: option.splits)

lemma expire_grows: "grows a (expire d a)" "mb_ID (expire d a) = mb_ID a"
  by (simp_all add: expire_def grows_def)

lemma Tick_evolves: "view_ok m \<Longrightarrow> evolves m (fst (Membership_TickSuspicions d m))"
  by (auto simp: evolves_def view_ok_def TickSuspicions_lookup expire_grows)

lemma Tick_self:
  assumes "self_alive m"
  shows "self_alive (fst (Membership_TickSuspicions d m))"
proof -
  obtain x where "fmlookup (ms_members m) (ms_selfID m) = Some x" "mb_State x = Alive" using assms by (auto simp: self_alive_def)
  then have "fmlookup (ms_members (fst (Membership_TickSuspicions d m))) (ms_selfID m) = Some x"
    by (simp add: TickSuspicions_lookup expire_def)
  then show ?thesis using \<open>mb_State x = Alive\<close> by (simp add: self_alive_def)
qed

lemma merge_one_evolves:
  assumes "view_ok m"
  obtains m' where "merge_one g m = Some m'" "evolves m m'" "self_alive m \<Longrightarrow> self_alive m'"
proof (cases "mb_ID g = ms_selfID m")
  case True
  obtain self where self: "fmlookup (ms_members m) (ms_selfID m) = Some self" using assms by (auto simp: view_ok_def)
  have "mb_ID self = ms_selfID m" using view_ok_ID [OF assms self] .
  then have put: "evolves m (put_member (ms_selfID m) (self\<lparr>mb_Incarnation := mb_Incarnation g\<rparr>) m)"
    "evolves m (put_member (ms_selfID m) (self\<lparr>mb_Incarnation := mb_Incarnation g + 1, mb_State := Alive, mb_suspectedAt := 0\<rparr>) m)"
    by (auto intro!: evolves_put [OF assms])
  show thesis
    by (rule that [of "the (merge_one g m)"])
      (use True self put evolves_refl [OF assms] in \<open>auto simp: merge_one_def Membership_mergeSelfLocked_def self_alive_def\<close>)
next
  case False
  show thesis
  proof (cases "fmlookup (ms_members m) (mb_ID g)")
    case None
    show thesis
      by (rule that [of "put_member (mb_ID g) (new_member (mb_ID g) (mb_State g) (mb_Incarnation g) 0) m"])
        (use False None assms in \<open>auto simp: merge_one_def intro!: evolves_put self_alive_put\<close>)
  next
    case (Some cur)
    let ?c = "cur\<lparr>mb_State := mb_State g, mb_Incarnation := mb_Incarnation g, mb_suspectedAt := 0\<rparr>"
    have "grows cur ?c" if "gossipWinsLocked cur g" "mb_State cur \<noteq> Dead"
      using that by (auto simp: gossipWinsLocked_def grows_def split: if_splits)
    then show thesis
      using False Some assms view_ok_ID [OF assms Some]
      by (intro that [of "if mb_State cur \<noteq> Dead \<and> gossipWinsLocked cur g then put_member (mb_ID g) ?c m else m"])
        (auto simp: merge_one_def intro!: evolves_put evolves_refl self_alive_put)
  qed
qed

lemma Merge_evolves:
  assumes "view_ok m"
  shows "\<exists>m'. Membership_Merge gs m = Some m' \<and> evolves m m' \<and> (self_alive m \<longrightarrow> self_alive m')"
  using assms
proof (induction gs arbitrary: m)
  case Nil
  then show ?case using evolves_refl by simp
next
  case (Cons g gs)
  obtain m1 where m1: "merge_one g m = Some m1" "evolves m m1" "self_alive m \<Longrightarrow> self_alive m1" using merge_one_evolves [OF Cons.prems, of g] by blast
  then have "view_ok m1" by (simp add: evolves_def)
  then obtain m' where "Membership_Merge gs m1 = Some m'" "evolves m1 m'" "self_alive m1 \<longrightarrow> self_alive m'" using Cons.IH by blast
  then show ?case using m1 evolves_trans by auto
qed

lemma call_evolves:
  assumes "view_ok m"
  shows "\<exists>m'. swim_call c m = Some m' \<and> evolves m m' \<and> (self_alive m \<and> c \<noteq> SDead (ms_selfID m) \<longrightarrow> self_alive m')"
proof (cases c)
  case (SAlive i inc)
  then show ?thesis using Alive_evolves [OF assms] Alive_self [OF assms] by simp
next
  case (SSuspect i inc now)
  then show ?thesis using Suspect_evolves [OF assms, of i inc now] by (metis swim_call.simps(2))
next
  case SRefute
  then show ?thesis using refute_evolves [OF assms] by (metis Membership_RefuteSuspicion_def swim_call.simps(3))
next
  case (SDead i)
  then show ?thesis using Dead_evolves [OF assms] Dead_self by simp
next
  case (STick d)
  then show ?thesis using Tick_evolves [OF assms] Tick_self by simp
next
  case (SMerge g)
  then show ?thesis using Merge_evolves [OF assms, of g] by simp
qed

lemma run_evolves:
  assumes "view_ok m"
  shows "\<exists>m'. swim_run cs m = Some m' \<and> evolves m m' \<and> (self_alive m \<and> SDead (ms_selfID m) \<notin> set cs \<longrightarrow> self_alive m')"
  using assms
proof (induction cs arbitrary: m)
  case Nil
  then show ?case using evolves_refl by simp
next
  case (Cons c cs)
  obtain m1 where m1: "swim_call c m = Some m1" "evolves m m1" "self_alive m \<and> c \<noteq> SDead (ms_selfID m) \<longrightarrow> self_alive m1"
    using call_evolves [OF Cons.prems] by blast
  then have v: "view_ok m1" "ms_selfID m1 = ms_selfID m" by (simp_all add: evolves_def)
  then obtain m' where "swim_run cs m1 = Some m'" "evolves m1 m'" "self_alive m1 \<and> SDead (ms_selfID m1) \<notin> set cs \<longrightarrow> self_alive m'"
    using Cons.IH by blast
  then show ?case using m1 v(2) evolves_trans by auto
qed

lemma view_ok_New [simp]: "view_ok (NewMembership x)" "self_alive (NewMembership x)" "ms_selfID (NewMembership x) = x"
  by (simp_all add: NewMembership_def view_ok_def self_alive_def)



section \<open>Refutation\<close>

text \<open>What one piece of gossip does to the entry it is about.\<close>

definition learn :: "Member \<Rightarrow> Member option \<Rightarrow> Member option" where
  "learn g cur = (case cur of
     None \<Rightarrow> Some (new_member (mb_ID g) (mb_State g) (mb_Incarnation g) 0)
   | Some c \<Rightarrow> Some (if mb_State c \<noteq> Dead \<and> gossipWinsLocked c g
       then c\<lparr>mb_State := mb_State g, mb_Incarnation := mb_Incarnation g, mb_suspectedAt := 0\<rparr> else c))"

definition learn_self :: "Member \<Rightarrow> Member option \<Rightarrow> Member option" where
  "learn_self g = map_option (\<lambda>self.
     if mb_State g = Alive then (if mb_Incarnation g > mb_Incarnation self then self\<lparr>mb_Incarnation := mb_Incarnation g\<rparr> else self)
     else if mb_Incarnation g < mb_Incarnation self then self
     else self\<lparr>mb_Incarnation := mb_Incarnation g + 1, mb_State := Alive, mb_suspectedAt := 0\<rparr>)"

lemma merge_one_lookup:
  assumes "merge_one g m = Some m'"
  shows "ms_selfID m' = ms_selfID m"
    "fmlookup (ms_members m') i = (if mb_ID g = i then (if i = ms_selfID m then learn_self g else learn g) (fmlookup (ms_members m) i)
      else fmlookup (ms_members m) i)"
proof (atomize (full), cases "mb_ID g = ms_selfID m")
  case True
  then have e: "Membership_mergeSelfLocked g m = Some m'" using assms by (simp add: merge_one_def)
  then obtain z where z: "fmlookup (ms_members m) (ms_selfID m) = Some z" by (auto simp: Membership_mergeSelfLocked_def)
  consider "mb_State g = Alive" "mb_Incarnation g > mb_Incarnation z" | "mb_State g = Alive" "\<not> mb_Incarnation g > mb_Incarnation z"
    | "mb_State g \<noteq> Alive" "mb_Incarnation g < mb_Incarnation z" | "mb_State g \<noteq> Alive" "\<not> mb_Incarnation g < mb_Incarnation z" by blast
  then show "ms_selfID m' = ms_selfID m \<and> fmlookup (ms_members m') i =
      (if mb_ID g = i then (if i = ms_selfID m then learn_self g else learn g) (fmlookup (ms_members m) i) else fmlookup (ms_members m) i)"
    using e z True by cases (auto simp: Membership_mergeSelfLocked_def learn_self_def)
next
  case False
  then show "ms_selfID m' = ms_selfID m \<and> fmlookup (ms_members m') i =
      (if mb_ID g = i then (if i = ms_selfID m then learn_self g else learn g) (fmlookup (ms_members m) i) else fmlookup (ms_members m) i)"
    using assms by (auto simp: merge_one_def learn_def split: option.splits)
qed

lemma Merge_lookup:
  assumes "Membership_Merge gs m = Some m'"
  shows "ms_selfID m' = ms_selfID m \<and> fmlookup (ms_members m') i =
    fold (if i = ms_selfID m then learn_self else learn) (filter (\<lambda>g. mb_ID g = i) gs) (fmlookup (ms_members m) i)"
  using assms
proof (induction gs arbitrary: m)
  case (Cons g gs)
  then obtain m1 where m1: "merge_one g m = Some m1" "Membership_Merge gs m1 = Some m'" by (auto simp: Option.bind_eq_Some_conv)
  show ?case using Cons.IH [OF m1(2)] merge_one_lookup(1) [OF m1(1)] merge_one_lookup(2) [OF m1(1), of i] by auto
qed simp

lemma filter_key_single:
  assumes "distinct (map f xs)" and "y \<in> set xs"
  shows "filter (\<lambda>x. f x = f y) xs = [y]"
  using assms
proof (induction xs)
  case (Cons x xs)
  then show ?case by (cases "y = x") (auto simp: filter_empty_conv image_iff)
qed simp

definition entry :: "Member \<Rightarrow> Member" where
  "entry mem = new_member (mb_ID mem) (mb_State mem) (mb_Incarnation mem) 0"

lemma Snapshot_eq: "Membership_Snapshot m = sort_key mb_ID (map (\<lambda>(i, mem). entry mem) (sorted_list_of_fmap (ms_members m)))"
proof -
  have "fold (\<lambda>(i, mem) out. out @ [h mem]) xs acc = acc @ map (\<lambda>(i, mem). h mem) xs" for h :: "Member \<Rightarrow> Member" and xs :: "(string \<times> Member) list" and acc
    by (induction xs arbitrary: acc) auto
  then show ?thesis unfolding Membership_Snapshot_def go_range_def entry_def by simp
qed

lemma Snapshot_about:
  assumes "view_ok m"
  shows "filter (\<lambda>g. mb_ID g = i) (Membership_Snapshot m) = (case fmlookup (ms_members m) i of None \<Rightarrow> [] | Some mem \<Rightarrow> [entry mem])"
proof -
  let ?l = "sorted_list_of_fmap (ms_members m)" let ?xs = "map (\<lambda>(i, mem). entry mem) ?l"
  have "map mb_ID ?xs = map fst ?l" using view_ok_ID [OF assms] by (auto simp: entry_def)
  then have d: "distinct (map mb_ID ?xs)" using distinct_sorted_list_of_fmap by (rule ssubst)
  have "mset (map mb_ID (Membership_Snapshot m)) = mset (map mb_ID ?xs)" unfolding Snapshot_eq mset_map mset_sort ..
  then have ds: "distinct (map mb_ID (Membership_Snapshot m))" using d mset_eq_imp_distinct_iff by blast
  have set: "set (Membership_Snapshot m) = {entry mem | i mem. fmlookup (ms_members m) i = Some mem}"
    by (force simp: Snapshot_eq)
  show ?thesis
  proof (cases "fmlookup (ms_members m) i")
    case None
    have "mb_ID g \<noteq> i" if "g \<in> set (Membership_Snapshot m)" for g
      using that None view_ok_ID [OF assms] unfolding set by (auto simp: entry_def)
    then show ?thesis using None by (simp add: filter_empty_conv)
  next
    case (Some mem)
    then have "entry mem \<in> set (Membership_Snapshot m)" unfolding set by blast
    from filter_key_single [OF ds this] show ?thesis using Some view_ok_ID [OF assms Some] by (simp add: entry_def)
  qed
qed

lemma word_plus_one_gt: "(a :: u64) + 1 \<noteq> 0 \<Longrightarrow> a < a + 1"
  by (simp add: word_less_nat_alt unatSuc add.commute)

lemma plus_one_greater: "(a :: u64) < b \<or> b \<le> a \<and> a + 1 \<noteq> 0 \<Longrightarrow> (if a < b then b else a + 1) > a"
  using word_plus_one_gt [of a] by auto



end
