(* ===== verification/SimClock.thy ===== *)
theory SimClock
  imports Go_Prelude "HOL-Library.Product_Lexorder"
begin

text \<open>
  The virtual clock (\<open>internal/simclock/clock.go\<close>) with its heap of timers. \<open>heap.Push\<close>, \<open>heap.Pop\<close> and the
  loops \<open>up\<close> and \<open>down\<close> are those of Go's \<open>container/heap\<close>, over the methods \<open>Less\<close>, \<open>Swap\<close>, \<open>Push\<close> and \<open>Pop\<close> of
  \<open>timerHeap\<close>. A timer's channel is named by the sequence number of its registration; what is sent on
  channels is returned as a list of pairs of channel and time; the count \<open>Advance\<close> returns is the length
  of that list. Logical time is an \<open>int64\<close> and wraps around; the \<open>uint64\<close> sequence counter is a natural
  number, so fewer than $2^{64}$ timers are registered. The random source of the clock is left out, since no
  method of the clock draws from it. \<open>RealClock\<close> is the wall clock of the operating system and is not modelled.
\<close>

record virtualTimer =
  vt_deadline :: int
  vt_seq :: nat
  vt_index :: int

type_synonym timerHeap = "virtualTimer list"

record VirtualClock =
  vc_now :: int
  vc_timers :: timerHeap
  vc_seq :: nat

definition timerHeap_Less :: "timerHeap \<Rightarrow> nat \<Rightarrow> nat \<Rightarrow> bool" where
  "timerHeap_Less h i j =
     (if vt_deadline (h ! i) \<noteq> vt_deadline (h ! j) then vt_deadline (h ! i) < vt_deadline (h ! j)
      else vt_seq (h ! i) < vt_seq (h ! j))"

definition timerHeap_Swap :: "timerHeap \<Rightarrow> nat \<Rightarrow> nat \<Rightarrow> timerHeap" where
  "timerHeap_Swap h i j =
     (let h' = h[i := h ! j, j := h ! i];
          h'' = h'[i := (h' ! i)\<lparr>vt_index := int i\<rparr>]
      in h''[j := (h'' ! j)\<lparr>vt_index := int j\<rparr>])"

definition timerHeap_Push :: "timerHeap \<Rightarrow> virtualTimer \<Rightarrow> timerHeap" where
  "timerHeap_Push h t = h @ [t\<lparr>vt_index := int (length h)\<rparr>]"

definition timerHeap_Pop :: "timerHeap \<Rightarrow> (timerHeap \<times> virtualTimer) option" where
  "timerHeap_Pop h = (if h = [] then None else Some (butlast h, (last h)\<lparr>vt_index := -1\<rparr>))"

section \<open>The heap loops\<close>

function up :: "timerHeap \<Rightarrow> nat \<Rightarrow> timerHeap" where
  "up h j =
     (let i = (j - 1) div 2 in
      if i = j \<or> \<not> timerHeap_Less h j i then h else up (timerHeap_Swap h i j) i)"
  by pat_completeness auto
termination by (relation "measure snd") auto

function down :: "timerHeap \<Rightarrow> nat \<Rightarrow> nat \<Rightarrow> timerHeap" where
  "down h i n =
     (let j1 = 2 * i + 1 in
      if j1 \<ge> n then h
      else (let j = (if j1 + 1 < n \<and> timerHeap_Less h (j1 + 1) j1 then j1 + 1 else j1) in
            if \<not> timerHeap_Less h j i then h else down (timerHeap_Swap h i j) j n))"
  by pat_completeness auto
termination by (relation "measure (\<lambda>(h, i, n). n - i)") (auto split: if_splits)

declare up.simps [simp del] down.simps [simp del]

definition heap_Push :: "timerHeap \<Rightarrow> virtualTimer \<Rightarrow> timerHeap" where
  "heap_Push h x = (let h' = timerHeap_Push h x in up h' (length h' - 1))"

definition heap_Pop :: "timerHeap \<Rightarrow> (timerHeap \<times> virtualTimer) option" where
  "heap_Pop h = (if h = [] then None else (let n = length h - 1 in timerHeap_Pop (down (timerHeap_Swap h 0 n) 0 n)))"

section \<open>The clock\<close>

definition NewVirtualClock :: VirtualClock where
  "NewVirtualClock = \<lparr>vc_now = 0, vc_timers = [], vc_seq = 0\<rparr>"

definition NewVirtualClockAt :: "int \<Rightarrow> VirtualClock" where
  "NewVirtualClockAt start = NewVirtualClock\<lparr>vc_now := start\<rparr>"

definition VirtualClock_Now :: "VirtualClock \<Rightarrow> int" where
  "VirtualClock_Now c = vc_now c"

text \<open>The result is the channel and, if the timer fires at once, the time sent on it.\<close>

definition VirtualClock_after :: "int \<Rightarrow> VirtualClock \<Rightarrow> VirtualClock \<times> nat \<times> (nat \<times> int) list" where
  "VirtualClock_after d c =
     (let deadline = i64 (vc_now c + d);
          t = \<lparr>vt_deadline = deadline, vt_seq = vc_seq c, vt_index = 0\<rparr>;
          c1 = c\<lparr>vc_seq := vc_seq c + 1\<rparr>
      in if deadline \<le> vc_now c then (c1, vt_seq t, [(vt_seq t, vc_now c)])
         else (c1\<lparr>vc_timers := heap_Push (vc_timers c1) t\<rparr>, vt_seq t, []))"

definition VirtualClock_After :: "int \<Rightarrow> VirtualClock \<Rightarrow> VirtualClock \<times> nat \<times> (nat \<times> int) list" where
  "VirtualClock_After d c = VirtualClock_after d c"

text \<open>\<open>Sleep\<close> up to the receive it blocks on: the channel it waits for, if it waits.\<close>

definition VirtualClock_Sleep :: "int \<Rightarrow> VirtualClock \<Rightarrow> VirtualClock \<times> (nat \<times> (nat \<times> int) list) option" where
  "VirtualClock_Sleep d c = (if d \<le> 0 then (c, None) else (let (c', ch, sent) = VirtualClock_after d c in (c', Some (ch, sent))))"

lemma length_Swap [simp]: "length (timerHeap_Swap h i j) = length h"
  by (simp add: timerHeap_Swap_def Let_def)

lemma length_down [simp]: "length (down h i n) = length h"
  by (induction h i n rule: down.induct) (subst down.simps, simp add: Let_def)

lemma heap_Pop_length: "heap_Pop h = Some (h', t) \<Longrightarrow> length h = Suc (length h')"
  by (auto simp: heap_Pop_def timerHeap_Pop_def Let_def split: if_splits)

function fire_loop :: "int \<Rightarrow> timerHeap \<Rightarrow> (nat \<times> int) list \<Rightarrow> timerHeap \<times> (nat \<times> int) list" where
  "fire_loop now h sent =
     (if length h > 0 \<and> vt_deadline (h ! 0) \<le> now
      then (case heap_Pop h of
              None \<Rightarrow> (h, sent)
            | Some (h', t) \<Rightarrow> fire_loop now h' (sent @ [(vt_seq t, vt_deadline t)]))
      else (h, sent))"
  by pat_completeness auto
termination by (relation "measure (\<lambda>(now, h, sent). length h)") (auto dest: heap_Pop_length)

declare fire_loop.simps [simp del]

definition VirtualClock_Advance :: "int \<Rightarrow> VirtualClock \<Rightarrow> VirtualClock \<times> (nat \<times> int) list" where
  "VirtualClock_Advance d c =
     (if d \<le> 0 then (c, [])
      else (let now = i64 (vc_now c + d); (h, sent) = fire_loop now (vc_timers c) []
            in (c\<lparr>vc_now := now, vc_timers := h\<rparr>, sent)))"

definition VirtualClock_Pending :: "VirtualClock \<Rightarrow> nat" where
  "VirtualClock_Pending c = length (vc_timers c)"

section \<open>The heap order\<close>

definition vkey :: "virtualTimer \<Rightarrow> int \<times> nat" where
  "vkey t = (vt_deadline t, vt_seq t)"

lemma Less_key: "timerHeap_Less h i j \<longleftrightarrow> vkey (h ! i) < vkey (h ! j)"
  by (auto simp: timerHeap_Less_def vkey_def less_prod_def)

abbreviation tkeys :: "timerHeap \<Rightarrow> (int \<times> nat) list" where
  "tkeys h \<equiv> map vkey h"

lemma tkeys_Swap: "i < length h \<Longrightarrow> j < length h \<Longrightarrow> tkeys (timerHeap_Swap h i j) = (tkeys h)[i := tkeys h ! j, j := tkeys h ! i]"
  by (rule nth_equalityI) (auto simp: timerHeap_Swap_def Let_def vkey_def nth_list_update)

text \<open>Every key is at least the key of its parent, below a bound \<open>n\<close>.\<close>

definition heap_below :: "nat \<Rightarrow> (int \<times> nat) list \<Rightarrow> bool" where
  "heap_below n ks \<longleftrightarrow> (\<forall>k. 0 < k \<and> k < n \<longrightarrow> ks ! ((k - 1) div 2) \<le> ks ! k)"

lemma heap_root_le:
  assumes "heap_below n ks" and "k < n"
  shows "ks ! 0 \<le> ks ! k"
  using assms(2)
proof (induction k rule: less_induct)
  case (less k)
  show ?case
  proof (cases "k = 0")
    case False
    then have "ks ! 0 \<le> ks ! ((k - 1) div 2)" "ks ! ((k - 1) div 2) \<le> ks ! k"
      using less assms(1) by (auto simp: heap_below_def)
    then show ?thesis by (rule order_trans)
  qed simp
qed

abbreviation par :: "nat \<Rightarrow> nat" where
  "par k \<equiv> (k - 1) div 2"

lemma par_iff: "0 < k \<Longrightarrow> par k = i \<longleftrightarrow> k = 2 * i + 1 \<or> k = 2 * i + 2"
  by auto

lemma par_less: "0 < k \<Longrightarrow> par k < k"
  by auto

abbreviation exchange :: "(int \<times> nat) list \<Rightarrow> nat \<Rightarrow> nat \<Rightarrow> (int \<times> nat) list" where
  "exchange ks i j \<equiv> ks[i := ks ! j, j := ks ! i]"

lemma nth_exchange:
  "i < length ks \<Longrightarrow> j < length ks \<Longrightarrow> exchange ks i j ! k = (if k = j then ks ! i else if k = i then ks ! j else ks ! k)"
  by (auto simp: nth_list_update)

lemma mset_exchange: "i < length ks \<Longrightarrow> j < length ks \<Longrightarrow> mset (exchange ks i j) = mset ks"
  by (rule mset_swap)

text \<open>In a heap out of order only at \<open>j\<close> and its parent, going up.\<close>

definition up_inv :: "(int \<times> nat) list \<Rightarrow> nat \<Rightarrow> bool" where
  "up_inv ks j \<longleftrightarrow> j < length ks \<and> (\<forall>k. 0 < k \<and> k < length ks \<and> k \<noteq> j \<longrightarrow> ks ! par k \<le> ks ! k) \<and>
     (\<forall>k. 0 < k \<and> k < length ks \<and> par k = j \<and> 0 < j \<longrightarrow> ks ! par j \<le> ks ! k)"

lemma up_step:
  assumes inv: "up_inv ks j" and j: "0 < j" and less: "ks ! j < ks ! par j"
  shows "up_inv (exchange ks (par j) j) (par j)"
proof -
  let ?i = "par j" and ?n = "length ks"
  have lt: "j < ?n" "?i < ?n" "?i < j" using inv par_less [OF j] by (auto simp: up_inv_def)
  note nth = nth_exchange [OF lt(2,1)]
  have h: "ks ! par k \<le> ks ! k" if "0 < k" "k < ?n" "k \<noteq> j" for k using inv that by (auto simp: up_inv_def)
  have g: "ks ! ?i \<le> ks ! k" if "0 < k" "k < ?n" "par k = j" for k using inv that j by (auto simp: up_inv_def)
  show ?thesis
    unfolding up_inv_def
  proof (intro conjI allI impI)
    show "?i < length (exchange ks ?i j)" using lt by simp
    show "exchange ks ?i j ! par k \<le> exchange ks ?i j ! k" if k: "0 < k \<and> k < length (exchange ks ?i j) \<and> k \<noteq> ?i" for k
    proof -
      have kn: "0 < k" "k < ?n" "k \<noteq> ?i" using k by auto
      consider "k = j" | "k \<noteq> j" "par k = j" | "k \<noteq> j" "par k = ?i" | "k \<noteq> j" "par k \<noteq> j" "par k \<noteq> ?i" by blast
      then show ?thesis
      proof cases
        case 1
        then show ?thesis using less lt unfolding nth by simp
      next
        case 2
        then show ?thesis using g [OF kn(1,2)] kn unfolding nth by simp
      next
        case 3
        then show ?thesis using h [OF kn(1,2)] less lt kn unfolding nth by (auto dest: less_imp_le order_trans)
      next
        case 4
        then show ?thesis using h [OF kn(1,2)] kn unfolding nth by simp
      qed
    qed
    show "exchange ks ?i j ! par ?i \<le> exchange ks ?i j ! k"
      if k: "0 < k \<and> k < length (exchange ks ?i j) \<and> par k = ?i \<and> 0 < ?i" for k
    proof -
      have kn: "0 < k" "k < ?n" "par k = ?i" "0 < ?i" using k by auto
      have pi: "par ?i < ?i" using par_less [OF kn(4)] .
      have up: "ks ! par ?i \<le> ks ! ?i" using h [OF kn(4) lt(2)] lt(3) by simp
      have ki: "k \<noteq> ?i" using par_less [OF kn(1)] kn(3) by auto
      show ?thesis
      proof (cases "k = j")
        case True
        then show ?thesis using up pi lt(3) unfolding nth by simp
      next
        case False
        then have "ks ! ?i \<le> ks ! k" using h [OF kn(1,2)] kn(3) by simp
        then show ?thesis using False up pi lt(3) ki unfolding nth by (auto intro: order_trans)
      qed
    qed
  qed
qed

lemma up_heap:
  "up_inv (tkeys h) j \<Longrightarrow> length (up h j) = length h \<and> mset (tkeys (up h j)) = mset (tkeys h) \<and> heap_below (length h) (tkeys (up h j))"
proof (induction h j rule: up.induct)
  case (1 h j)
  note unf = up.simps [of h j, unfolded Let_def]
  have j: "j < length h" using "1.prems" by (simp add: up_inv_def)
  show ?case
  proof (cases "par j = j \<or> \<not> timerHeap_Less h j (par j)")
    case True
    then have le: "0 < j \<Longrightarrow> tkeys h ! par j \<le> tkeys h ! j" using par_less [of j] j by (auto simp: Less_key)
    have "heap_below (length h) (tkeys h)"
      using "1.prems" le unfolding heap_below_def up_inv_def by (metis length_map)
    then show ?thesis using True unf by simp
  next
    case False
    then have less: "tkeys h ! j < tkeys h ! par j" "0 < j" using j par_less [of j] by (auto simp: Less_key)
    have pj: "par j < length h" using j by linarith
    have ex: "tkeys (timerHeap_Swap h (par j) j) = exchange (tkeys h) (par j) j" using tkeys_Swap [OF pj j] by simp
    then have "up_inv (tkeys (timerHeap_Swap h (par j) j)) (par j)" using up_step [OF "1.prems" less(2,1)] by simp
    note ih = "1.IH" [OF refl False this]
    have "mset (tkeys (timerHeap_Swap h (par j) j)) = mset (tkeys h)" unfolding ex using mset_exchange [of "par j" "tkeys h" j] pj j by simp
    then show ?thesis using ih unf False by simp
  qed
qed

lemma heap_Push_spec:
  assumes "heap_below (length h) (tkeys h)"
  shows "mset (tkeys (heap_Push h t)) = add_mset (vkey t) (mset (tkeys h)) \<and> heap_below (length (heap_Push h t)) (tkeys (heap_Push h t))"
proof -
  let ?h = "timerHeap_Push h t"
  have k: "tkeys ?h = tkeys h @ [vkey t]" by (simp add: timerHeap_Push_def vkey_def)
  have "up_inv (tkeys ?h) (length ?h - 1)"
    unfolding up_inv_def k
  proof (intro conjI allI impI)
    show "(tkeys h @ [vkey t]) ! par i \<le> (tkeys h @ [vkey t]) ! i"
      if "0 < i \<and> i < length (tkeys h @ [vkey t]) \<and> i \<noteq> length ?h - 1" for i
    proof -
      have "i < length h" "par i < length h" using that by (auto simp: timerHeap_Push_def)
      moreover from this have "tkeys h ! par i \<le> tkeys h ! i" using assms that by (simp add: heap_below_def del: nth_map)
      ultimately show ?thesis by (simp add: nth_append)
    qed
  qed (auto simp: timerHeap_Push_def)
  from up_heap [OF this] show ?thesis by (simp add: heap_Push_def Let_def k)
qed

text \<open>In a heap out of order only between \<open>i\<close> and its children, going down.\<close>

definition down_inv :: "nat \<Rightarrow> (int \<times> nat) list \<Rightarrow> nat \<Rightarrow> bool" where
  "down_inv n ks i \<longleftrightarrow> n \<le> length ks \<and> i < length ks \<and> (\<forall>k. 0 < k \<and> k < n \<and> par k \<noteq> i \<longrightarrow> ks ! par k \<le> ks ! k) \<and>
     (\<forall>k. 0 < k \<and> k < n \<and> par k = i \<and> 0 < i \<longrightarrow> ks ! par i \<le> ks ! k)"

lemma down_step:
  assumes inv: "down_inv n ks i" and j: "par j = i" "0 < j" "j < n" and less: "ks ! j < ks ! i"
    and least: "\<And>k. 0 < k \<Longrightarrow> k < n \<Longrightarrow> par k = i \<Longrightarrow> ks ! j \<le> ks ! k"
  shows "down_inv n (exchange ks i j) j"
proof -
  have lt: "i < length ks" "j < length ks" "i < j" "n \<le> length ks" using inv j par_less [OF j(2)] by (auto simp: down_inv_def)
  note nth = nth_exchange [OF lt(1,2)]
  have h: "ks ! par k \<le> ks ! k" if "0 < k" "k < n" "par k \<noteq> i" for k using inv that by (auto simp: down_inv_def)
  have g: "ks ! par i \<le> ks ! k" if "0 < k" "k < n" "par k = i" "0 < i" for k using inv that by (auto simp: down_inv_def)
  show ?thesis
    unfolding down_inv_def
  proof (intro conjI allI impI)
    show "n \<le> length (exchange ks i j)" "j < length (exchange ks i j)" using lt by simp_all
    show "exchange ks i j ! par k \<le> exchange ks i j ! k" if "0 < k \<and> k < n \<and> par k \<noteq> j" for k
    proof -
      have kn: "0 < k" "k < n" "par k \<noteq> j" using that by auto
      consider "par k = i" "k = j" | "par k = i" "k \<noteq> j" | "par k \<noteq> i" "k = i" | "par k \<noteq> i" "k \<noteq> i" by blast
      then show ?thesis
      proof cases
        case 1
        then show ?thesis using less lt unfolding nth by simp
      next
        case 2
        then have "k \<noteq> i" using par_less [OF kn(1)] by auto
        then show ?thesis using 2 least [OF kn(1,2)] lt unfolding nth by simp
      next
        case 3
        then have "ks ! par i \<le> ks ! j" using g [OF j(2,3,1)] kn(1) by simp
        then show ?thesis using 3 kn lt unfolding nth by simp
      next
        case 4
        then have "k \<noteq> j" using j(1) by auto
        then show ?thesis using 4 kn h [OF kn(1,2)] unfolding nth by simp
      qed
    qed
    show "exchange ks i j ! par j \<le> exchange ks i j ! k" if "0 < k \<and> k < n \<and> par k = j \<and> 0 < j" for k
    proof -
      have kn: "0 < k" "k < n" "par k = j" using that by auto
      have "k \<noteq> j" "k \<noteq> i" using par_less [OF kn(1)] kn(3) lt(3) by auto
      then show ?thesis using h [OF kn(1,2)] kn(3) lt(3) unfolding nth j(1) by simp
    qed
  qed
qed

lemma down_heap:
  "down_inv n (tkeys h) i \<Longrightarrow>
   mset (tkeys (down h i n)) = mset (tkeys h) \<and> heap_below n (tkeys (down h i n)) \<and> (\<forall>k \<ge> n. tkeys (down h i n) ! k = tkeys h ! k)"
proof (induction h i n rule: down.induct)
  case (1 h i n)
  note unf = down.simps [of h i n, unfolded Let_def]
  let ?ks = "tkeys h"
  have len: "n \<le> length h" "i < length h" using "1.prems" by (auto simp: down_inv_def)
  have other: "?ks ! par k \<le> ?ks ! k" if "0 < k" "k < n" "par k \<noteq> i" for k
    using "1.prems" that by (auto simp: down_inv_def simp del: nth_map)
  show ?case
  proof (cases "2 * i + 1 \<ge> n")
    case True
    then have "par k \<noteq> i" if "0 < k" "k < n" for k using that by auto
    then have "heap_below n ?ks" using other unfolding heap_below_def by blast
    then show ?thesis using unf True by simp
  next
    case False
    define j where "j = (if 2 * i + 1 + 1 < n \<and> timerHeap_Less h (2 * i + 1 + 1) (2 * i + 1) then 2 * i + 1 + 1 else 2 * i + 1)"
    have j: "0 < j" "j < n" "par j = i" using False by (auto simp: j_def)
    have nl: "timerHeap_Less h a b \<longleftrightarrow> ?ks ! a < ?ks ! b" if "a < n" "b < n" for a b using that len by (simp add: Less_key)
    have least: "?ks ! j \<le> ?ks ! k" if "0 < k" "k < n" "par k = i" for k
    proof -
      have "k = 2 * i + 1 \<or> k = 2 * i + 2" using that par_iff by blast
      then show ?thesis using that(2) False nl [of "2 * i + 1 + 1" "2 * i + 1"] by (auto simp: j_def simp del: nth_map)
    qed
    have unf': "down h i n = (if \<not> timerHeap_Less h j i then h else down (timerHeap_Swap h i j) j n)"
      using unf False unfolding j_def by simp
    have ji: "timerHeap_Less h j i \<longleftrightarrow> ?ks ! j < ?ks ! i" using j(2) len by (simp add: Less_key)
    show ?thesis
    proof (cases "timerHeap_Less h j i")
      case stop: False
      then have "?ks ! i \<le> ?ks ! k" if "0 < k" "k < n" "par k = i" for k using ji least [OF that] by (simp add: not_less del: nth_map)
      then have "heap_below n ?ks" using other unfolding heap_below_def by metis
      then show ?thesis using unf' stop by simp
    next
      case True
      have jl: "j < length h" using j(2) len(1) by simp
      have ex: "tkeys (timerHeap_Swap h i j) = exchange ?ks i j" using tkeys_Swap [OF len(2) jl] .
      have "down_inv n (tkeys (timerHeap_Swap h i j)) j"
        unfolding ex using ji True by (intro down_step [OF "1.prems" j(3,1,2)] least) simp_all
      note ih = "1.IH" [OF refl False j_def _ this]
      have "i < n" using j par_less [OF j(1)] by simp
      then have "\<forall>k \<ge> n. exchange ?ks i j ! k = ?ks ! k" using j(2) by auto
      moreover have "mset (exchange ?ks i j) = mset ?ks" using len(2) jl by (intro mset_exchange) simp_all
      ultimately show ?thesis using ih unf' True ex by (simp del: nth_map)
    qed
  qed
qed

lemma heap_Pop_spec:
  assumes "h \<noteq> []" and "heap_below (length h) (tkeys h)"
  obtains h' t where "heap_Pop h = Some (h', t)" "vkey t = vkey (h ! 0)" "heap_below (length h') (tkeys h')"
    "mset (tkeys h) = add_mset (vkey t) (mset (tkeys h'))"
proof -
  define n where "n = length h - 1"
  have n: "length h = Suc n" using assms(1) by (simp add: n_def)
  let ?s = "timerHeap_Swap h 0 n"
  have ex: "tkeys ?s = exchange (tkeys h) 0 n" using tkeys_Swap [of 0 h n] n by simp
  have "down_inv n (tkeys ?s) 0"
    unfolding down_inv_def ex
  proof (intro conjI allI impI)
    show "exchange (tkeys h) 0 n ! par k \<le> exchange (tkeys h) 0 n ! k" if "0 < k \<and> k < n \<and> par k \<noteq> 0" for k
    proof -
      have "exchange (tkeys h) 0 n ! k = tkeys h ! k" "exchange (tkeys h) 0 n ! par k = tkeys h ! par k" using that n by auto
      then show ?thesis using assms(2) that n by (simp add: heap_below_def del: nth_map)
    qed
  qed (use n in simp_all)
  note d = down_heap [OF this]
  let ?d = "down ?s 0 n"
  have len: "length ?d = Suc n" using n by simp
  then have ne: "?d \<noteq> []" by (metis Zero_not_Suc list.size(3))
  have split: "?d = butlast ?d @ [last ?d]" using ne by simp
  have lb: "length (butlast ?d) = n" using len by simp
  have last: "vkey (last ?d) = vkey (h ! 0)"
  proof -
    have "last ?d = ?d ! n" using ne len by (simp add: last_conv_nth)
    then have "vkey (last ?d) = tkeys ?d ! n" using len by simp
    also have "\<dots> = exchange (tkeys h) 0 n ! n" using d ex by simp
    finally show ?thesis using n by (simp add: nth_list_update)
  qed
  have "heap_below n (tkeys (butlast ?d))"
    using d lb unfolding heap_below_def by (auto simp: nth_butlast map_butlast)
  moreover have "mset (tkeys h) = add_mset (vkey (last ?d)) (mset (tkeys (butlast ?d)))"
  proof -
    have "mset (tkeys h) = mset (tkeys ?d)" using d ex mset_exchange [of 0 "tkeys h" n] n by simp
    also have "tkeys ?d = tkeys (butlast ?d) @ [vkey (last ?d)]" using split by (metis list.simps(8,9) map_append)
    finally show ?thesis by simp
  qed
  moreover have "heap_Pop h = Some (butlast ?d, (last ?d)\<lparr>vt_index := -1\<rparr>)"
    using assms(1) ne by (simp add: heap_Pop_def timerHeap_Pop_def n_def Let_def)
  ultimately show thesis using that [of "butlast ?d" "(last ?d)\<lparr>vt_index := -1\<rparr>"] last lb by (simp add: vkey_def)
qed

text \<open>The loop of \<open>Advance\<close> takes the due timers off the heap in the order of their keys.\<close>

definition sent_on :: "int \<times> nat \<Rightarrow> nat \<times> int" where
  "sent_on k = (snd k, fst k)"

lemma fire_loop_spec:
  assumes "heap_below (length h) (tkeys h)"
  shows "\<exists>h' ds. fire_loop now h sent = (h', sent @ map sent_on ds) \<and> heap_below (length h') (tkeys h') \<and> sorted ds \<and>
    mset ds = filter_mset (\<lambda>k. fst k \<le> now) (mset (tkeys h)) \<and> mset (tkeys h') = filter_mset (\<lambda>k. \<not> fst k \<le> now) (mset (tkeys h))"
  using assms
proof (induction "length h" arbitrary: h sent)
  case 0
  then show ?case by (intro exI [of _ h] exI [of _ "[]"]) (simp add: fire_loop.simps)
next
  case (Suc n)
  note unf = fire_loop.simps [of now h sent]
  have ne: "h \<noteq> []" using Suc(2) by auto
  have root: "vkey (h ! 0) \<le> k" if "k \<in># mset (tkeys h)" for k
  proof -
    from that obtain i where "i < length h" "k = vkey (h ! i)" by (metis in_set_conv_nth length_map nth_map set_mset_mset)
    then show ?thesis using heap_root_le [OF Suc.prems, of i] ne by simp
  qed
  show ?case
  proof (cases "vt_deadline (h ! 0) \<le> now")
    case True
    obtain h' t where pop: "heap_Pop h = Some (h', t)" "vkey t = vkey (h ! 0)" "heap_below (length h') (tkeys h')"
      "mset (tkeys h) = add_mset (vkey t) (mset (tkeys h'))" using heap_Pop_spec [OF ne Suc.prems] .
    have len: "n = length h'" using heap_Pop_length [OF pop(1)] Suc(2) by simp
    obtain h'' ds where ih: "fire_loop now h' (sent @ [sent_on (vkey t)]) = (h'', (sent @ [sent_on (vkey t)]) @ map sent_on ds)"
      "heap_below (length h'') (tkeys h'')" "sorted ds" "mset ds = filter_mset (\<lambda>k. fst k \<le> now) (mset (tkeys h'))"
      "mset (tkeys h'') = filter_mset (\<lambda>k. \<not> fst k \<le> now) (mset (tkeys h'))" using Suc.hyps(1) [OF len pop(3)] by blast
    have due: "fst (vkey t) \<le> now" using True pop(2) by (simp add: vkey_def)
    have "\<forall>k \<in> set ds. vkey t \<le> k"
    proof
      fix k
      assume "k \<in> set ds"
      then have "k \<in># mset ds" by simp
      then have "k \<in># mset (tkeys h)" unfolding ih(4) pop(4) by simp
      then show "vkey t \<le> k" using root pop(2) by simp
    qed
    then have "sorted (vkey t # ds)" using ih(3) by simp
    moreover have "fire_loop now h sent = (h'', sent @ map sent_on (vkey t # ds))"
      using unf True ne pop(1) ih(1) by (simp add: sent_on_def vkey_def)
    moreover have "mset (vkey t # ds) = filter_mset (\<lambda>k. fst k \<le> now) (mset (tkeys h))" using ih(4) pop(4) due by simp
    moreover have "mset (tkeys h'') = filter_mset (\<lambda>k. \<not> fst k \<le> now) (mset (tkeys h))" using ih(5) pop(4) due by simp
    ultimately show ?thesis using ih(2) by blast
  next
    case False
    then have "\<not> fst k \<le> now" if "k \<in># mset (tkeys h)" for k using root [OF that] by (auto simp: vkey_def less_eq_prod_def)
    then have "filter_mset (\<lambda>k. fst k \<le> now) (mset (tkeys h)) = {#}" "filter_mset (\<lambda>k. \<not> fst k \<le> now) (mset (tkeys h)) = mset (tkeys h)"
      by (auto simp: filter_mset_eq_conv simp del: mset_map set_mset_mset)
    then show ?thesis using unf False Suc.prems by (intro exI [of _ h] exI [of _ "[]"]) simp
  qed
qed

section \<open>Runs\<close>

datatype ClockCall = KAfter int | KSleep int | KAdvance int

fun clock_call :: "ClockCall \<Rightarrow> VirtualClock \<times> (nat \<times> int) list \<Rightarrow> VirtualClock \<times> (nat \<times> int) list" where
  "clock_call (KAfter d) (c, log) = (case VirtualClock_After d c of (c', ch, sent) \<Rightarrow> (c', log @ sent))"
| "clock_call (KSleep d) (c, log) = (case VirtualClock_Sleep d c of (c', None) \<Rightarrow> (c', log) | (c', Some (ch, sent)) \<Rightarrow> (c', log @ sent))"
| "clock_call (KAdvance d) (c, log) = (case VirtualClock_Advance d c of (c', sent) \<Rightarrow> (c', log @ sent))"

definition pending_keys :: "VirtualClock \<Rightarrow> (int \<times> nat) multiset" where
  "pending_keys c = mset (tkeys (vc_timers c))"

definition clock_inv :: "VirtualClock \<Rightarrow> (nat \<times> int) list \<Rightarrow> bool" where
  "clock_inv c log \<longleftrightarrow> heap_below (length (vc_timers c)) (tkeys (vc_timers c)) \<and>
     (\<forall>k \<in># pending_keys c. vc_now c < fst k) \<and>
     mset (map fst log) + image_mset snd (pending_keys c) = mset [0..<vc_seq c]"

lemma after_inv:
  assumes "clock_inv c log" and "VirtualClock_after d c = (c', ch, sent)"
  shows "clock_inv c' (log @ sent)"
proof -
  let ?t = "\<lparr>vt_deadline = i64 (vc_now c + d), vt_seq = vc_seq c, vt_index = 0\<rparr>"
  have h: "heap_below (length (vc_timers c)) (tkeys (vc_timers c))" using assms(1) by (simp add: clock_inv_def)
  show ?thesis
  proof (cases "i64 (vc_now c + d) \<le> vc_now c")
    case True
    then have "c' = c\<lparr>vc_seq := vc_seq c + 1\<rparr>" "sent = [(vc_seq c, vc_now c)]"
      using assms(2) by (auto simp: VirtualClock_after_def Let_def)
    then show ?thesis using assms(1) by (simp add: clock_inv_def pending_keys_def)
  next
    case False
    then have c': "c' = c\<lparr>vc_seq := vc_seq c + 1, vc_timers := heap_Push (vc_timers c) ?t\<rparr>" "sent = []"
      using assms(2) by (auto simp: VirtualClock_after_def Let_def)
    have "pending_keys c' = add_mset (i64 (vc_now c + d), vc_seq c) (pending_keys c)"
      "heap_below (length (vc_timers c')) (tkeys (vc_timers c'))"
      using heap_Push_spec [OF h, of ?t] c' by (simp_all add: vkey_def pending_keys_def)
    then show ?thesis using assms(1) False c' unfolding clock_inv_def by simp
  qed
qed

lemma advance_sends:
  assumes "heap_below (length (vc_timers c)) (tkeys (vc_timers c))" and "0 < d"
  obtains c' ds where "VirtualClock_Advance d c = (c', map sent_on ds)" "vc_now c' = i64 (vc_now c + d)" "vc_seq c' = vc_seq c"
    "heap_below (length (vc_timers c')) (tkeys (vc_timers c'))" "sorted ds"
    "mset ds = filter_mset (\<lambda>k. fst k \<le> vc_now c') (pending_keys c)"
    "pending_keys c' = filter_mset (\<lambda>k. \<not> fst k \<le> vc_now c') (pending_keys c)"
proof -
  obtain h' ds where f: "fire_loop (i64 (vc_now c + d)) (vc_timers c) [] = (h', [] @ map sent_on ds)"
    "heap_below (length h') (tkeys h')" "sorted ds"
    "mset ds = filter_mset (\<lambda>k. fst k \<le> i64 (vc_now c + d)) (mset (tkeys (vc_timers c)))"
    "mset (tkeys h') = filter_mset (\<lambda>k. \<not> fst k \<le> i64 (vc_now c + d)) (mset (tkeys (vc_timers c)))"
    using fire_loop_spec [OF assms(1), of "i64 (vc_now c + d)" "[]"] by blast
  have "VirtualClock_Advance d c = (c\<lparr>vc_now := i64 (vc_now c + d), vc_timers := h'\<rparr>, map sent_on ds)"
    using assms(2) f(1) by (simp add: VirtualClock_Advance_def)
  then show thesis by (rule that) (use f in \<open>simp_all add: pending_keys_def\<close>)
qed

lemma advance_inv:
  assumes "clock_inv c log" and "VirtualClock_Advance d c = (c', sent)"
  shows "clock_inv c' (log @ sent)"
proof (cases "0 < d")
  case True
  have h: "heap_below (length (vc_timers c)) (tkeys (vc_timers c))" using assms(1) by (simp add: clock_inv_def)
  obtain ds where a: "sent = map sent_on ds" "vc_seq c' = vc_seq c" "heap_below (length (vc_timers c')) (tkeys (vc_timers c'))"
    "mset ds = filter_mset (\<lambda>k. fst k \<le> vc_now c') (pending_keys c)"
    "pending_keys c' = filter_mset (\<lambda>k. \<not> fst k \<le> vc_now c') (pending_keys c)"
    using advance_sends [OF h True] assms(2) by (metis prod.inject)
  have "mset (map fst sent) = image_mset snd (mset ds)" unfolding a(1) by (simp add: sent_on_def multiset.map_comp o_def)
  then have "mset (map fst sent) + image_mset snd (pending_keys c') = image_mset snd (mset ds + pending_keys c')" by simp
  also have "mset ds + pending_keys c' = pending_keys c" unfolding a(4,5) by (rule multiset_partition [symmetric])
  finally show ?thesis using assms(1) a unfolding clock_inv_def by (auto simp: ac_simps)
next
  case False
  then show ?thesis using assms by (simp add: VirtualClock_Advance_def)
qed

lemma clock_call_inv:
  assumes "clock_inv c log"
  shows "case clock_call k (c, log) of (c', log') \<Rightarrow> clock_inv c' log'"
proof (cases k)
  case (KAfter d)
  then show ?thesis using after_inv [OF assms] by (cases "VirtualClock_after d c") (simp add: VirtualClock_After_def)
next
  case (KSleep d)
  then show ?thesis using after_inv [OF assms] assms by (cases "VirtualClock_after d c") (simp add: VirtualClock_Sleep_def)
next
  case (KAdvance d)
  then show ?thesis using advance_inv [OF assms] by (cases "VirtualClock_Advance d c") simp
qed

definition clock_run :: "int \<Rightarrow> ClockCall list \<Rightarrow> VirtualClock \<times> (nat \<times> int) list" where
  "clock_run start ks = fold clock_call ks (NewVirtualClockAt start, [])"

lemma clock_run_inv: "clock_run start ks = (c, log) \<Longrightarrow> clock_inv c log"
proof -
  have "case fold clock_call ks (c0, l0) of (c', log') \<Rightarrow> clock_inv c' log'" if "clock_inv c0 l0" for c0 l0
    using that
  proof (induction ks arbitrary: c0 l0)
    case (Cons k ks)
    obtain c1 l1 where "clock_call k (c0, l0) = (c1, l1)" by fastforce
    then show ?case using Cons.IH [of c1 l1] clock_call_inv [OF Cons.prems, of k] by simp
  qed simp
  moreover have "clock_inv (NewVirtualClockAt start) []"
    by (simp add: clock_inv_def NewVirtualClockAt_def NewVirtualClock_def heap_below_def pending_keys_def)
  ultimately show "clock_run start ks = (c, log) \<Longrightarrow> clock_inv c log" unfolding clock_run_def by fastforce
qed


text \<open>Five timers, two of them with one deadline and one that fires at once; the last to be registered is
  the first that \<open>Advance\<close> fires.\<close>

definition clock_example :: "ClockCall list" where
  "clock_example = [KAfter 20, KAfter 30, KSleep 20, KAfter 0, KAfter 10]"


end
