(* ===== verification/SingleLeader.thy ===== *)
theory SingleLeader
  imports NodeBase Consistency
begin

text \<open>
  The two node kinds of single-leader replication, \<open>internal/node/leader.go\<close> and \<open>follower.go\<close>. A write on the
  leader is cut where it waits for acknowledgements: \<open>awaitReplication_start\<close> registers the channel and
  broadcasts, \<open>awaitReplication_recv\<close> is one receive of the select loop, \<open>awaitReplication_end\<close> what follows the
  loop, whether it ended by itself or by the timer. The local variables of a waiting call are the record
  \<open>AckWait\<close>. \<open>Write_log\<close> and \<open>Write_store\<close> cut a write once more: the leader holds no lock between the
  append to the log and the update of the store. The wall clock and the measured latencies are arguments. A log
  access that would panic is \<open>None\<close>.
\<close>

datatype ReplicationMode = ModeAsync | ModeSync | ModeSemiSync | ModeOther string

fun mode_string :: "ReplicationMode \<Rightarrow> string" where
  "mode_string ModeAsync = ''async''"
| "mode_string ModeSync = ''sync''"
| "mode_string ModeSemiSync = ''semi_sync''"
| "mode_string (ModeOther s) = s"

datatype SLError = SLPaused node_id | EmptyBatch | SyncIncomplete nat nat | SemiSyncTimeout | SLKeyNotFound string
  | SLViolation Violation | NotAtFollower node_id node_id

record SingleLeaderNode = BaseNode +
  sl_mode :: ReplicationMode
  sl_ryw :: session_map
  sl_mono :: session_map
  sl_seqNo :: nat
  sl_clock :: u64
  sl_ackChs :: "(nat, node_id GoChan) fmap"

definition NewSingleLeaderNode :: "node_id \<Rightarrow> string \<Rightarrow> ReplicationMode \<Rightarrow> SingleLeaderNode" where
  "NewSingleLeaderNode i clusterID mode =
     BaseNode.extend (newBaseNode i clusterID StrategySingleLeader RoleLeader)
       (SingleLeaderNode.fields mode fmempty fmempty 0 0 fmempty)"

definition SingleLeaderNode_SetMode :: "ReplicationMode \<Rightarrow> SingleLeaderNode \<Rightarrow> SingleLeaderNode" where
  "SingleLeaderNode_SetMode m n = n\<lparr>sl_mode := m\<rparr>"

definition SingleLeaderNode_getMode :: "SingleLeaderNode \<Rightarrow> ReplicationMode" where
  "SingleLeaderNode_getMode n = sl_mode n"

section \<open>Waiting for acknowledgements\<close>

record AckWait =
  aw_mode :: ReplicationMode
  aw_seq :: nat
  aw_peers :: "node_id list"
  aw_msg :: Message
  aw_received :: "(node_id, bool) fmap"
  aw_got :: bool

definition awaits_acks :: "ReplicationMode \<Rightarrow> bool" where
  "awaits_acks mode = (mode = ModeSync \<or> mode = ModeSemiSync)"

definition awaitReplication_start ::
  "ReplicationMode \<Rightarrow> nat \<Rightarrow> node_id list \<Rightarrow> Message \<Rightarrow> SingleLeaderNode \<Rightarrow> SingleLeaderNode \<times> AckWait \<times> Action list" where
  "awaitReplication_start mode seqNo peers msg n =
     (if awaits_acks mode then n\<lparr>sl_ackChs := fmupd seqNo (chan_make (length peers)) (sl_ackChs n)\<rparr> else n,
      \<lparr>aw_mode = mode, aw_seq = seqNo, aw_peers = peers, aw_msg = msg, aw_received = fmempty, aw_got = (length peers = 0)\<rparr>,
      broadcast msg peers)"

text \<open>The loop condition, and one receive from the channel; \<open>None\<close> if the channel is empty.\<close>

definition awaitReplication_more :: "AckWait \<Rightarrow> bool" where
  "awaitReplication_more w =
     (case aw_mode w of
        ModeSync \<Rightarrow> go_len (aw_received w) < length (aw_peers w)
      | ModeSemiSync \<Rightarrow> \<not> aw_got w
      | _ \<Rightarrow> False)"

definition awaitReplication_recv :: "AckWait \<Rightarrow> SingleLeaderNode \<Rightarrow> (AckWait \<times> SingleLeaderNode) option" where
  "awaitReplication_recv w n =
     (if \<not> awaitReplication_more w then None
      else (case fmlookup (sl_ackChs n) (aw_seq w) of
              None \<Rightarrow> None
            | Some c \<Rightarrow>
                (case ch_buf c of
                   [] \<Rightarrow> None
                 | senderID # rest \<Rightarrow>
                     Some (if aw_mode w = ModeSync then w\<lparr>aw_received := fmupd senderID True (aw_received w)\<rparr>
                           else w\<lparr>aw_got := True\<rparr>,
                           n\<lparr>sl_ackChs := fmupd (aw_seq w) (c\<lparr>ch_buf := rest\<rparr>) (sl_ackChs n)\<rparr>))))"

definition awaitReplication_end :: "AckWait \<Rightarrow> SingleLeaderNode \<Rightarrow> SingleLeaderNode \<times> SLError option" where
  "awaitReplication_end w n =
     (case aw_mode w of
        ModeSync \<Rightarrow>
          (n\<lparr>sl_ackChs := fmdrop (aw_seq w) (sl_ackChs n)\<rparr>,
           if go_len (aw_received w) < length (aw_peers w)
           then Some (SyncIncomplete (go_len (aw_received w)) (length (aw_peers w))) else None)
      | ModeSemiSync \<Rightarrow>
          (n\<lparr>sl_ackChs := fmdrop (aw_seq w) (sl_ackChs n)\<rparr>, if \<not> aw_got w then Some SemiSyncTimeout else None)
      | _ \<Rightarrow> (n, None))"

section \<open>Messages at the leader\<close>

definition SingleLeaderNode_HandleMessage :: "Message \<Rightarrow> SingleLeaderNode \<Rightarrow> (SingleLeaderNode \<times> Action list) option" where
  "SingleLeaderNode_HandleMessage msg n =
     (case m_Type msg of
        MsgAppendAck \<Rightarrow>
          Some (case fmlookup (sl_ackChs n) (m_AckIndex msg) of
                  None \<Rightarrow> n
                | Some ch \<Rightarrow> n\<lparr>sl_ackChs := fmupd (m_AckIndex msg) (chan_try (m_SenderID msg) ch) (sl_ackChs n)\<rparr>, [])
      | MsgSync \<Rightarrow>
          Option.bind (Log_GetFrom (bn_log n) (m_AckIndex msg)) (\<lambda>entries.
            if length entries = 0 then Some (n, [])
            else Some (n, [Send ((msg_of MsgAppendEntries (bn_id n) (m_SenderID msg))
                   \<lparr>m_Entries := entries, m_AckIndex := Log_LastIndex (bn_log n)\<rparr>)]))
      | _ \<Rightarrow> Some (n, []))"

section \<open>Writes at the leader\<close>

text \<open>The head of \<open>Write\<close>, \<open>Delete\<close> and of each round of \<open>WriteBatch\<close>: the clocks and the log. The result is the
  entry as it is sent, with its index.\<close>

definition Write_log :: "int \<Rightarrow> string \<Rightarrow> bytes \<Rightarrow> OpType \<Rightarrow> SingleLeaderNode \<Rightarrow> SingleLeaderNode \<times> LogEntry" where
  "Write_log now key val op n =
     (let (n1, ts) = BaseNode_HLCNow now n;
          n2 = n1\<lparr>sl_clock := sl_clock n1 + 1\<rparr>;
          vc = fmap_of_list [(bn_id n2, sl_clock n2)];
          entry = \<lparr>le_Index = 0, le_Term = 0, le_Key = key, le_Value = val, le_Op = op, le_Timestamp = ts,
                   le_OriginID = bn_id n2, le_VClock = Some vc\<rparr>;
          (l, idx) = Log_Append (bn_log n2) entry
      in (n2\<lparr>bn_log := Log_SetCommitIndex l idx\<rparr>, entry\<lparr>le_Index := idx\<rparr>))"

definition Write_store :: "string \<Rightarrow> LogEntry \<Rightarrow> SingleLeaderNode \<Rightarrow> SingleLeaderNode \<times> KVEntry" where
  "Write_store clientID entry n =
     (let kvEntry = \<lparr>kv_Key = le_Key entry, kv_Value = le_Value entry, kv_VClock = le_VClock entry,
                     kv_Timestamp = le_Timestamp entry, kv_NodeID = bn_id n, kv_Tombstone = False, kv_Version = le_Index entry\<rparr>
      in (n\<lparr>bn_store := Store_Set (bn_store n) kvEntry, sl_ryw := ReadYourWrites_RecordWrite (sl_ryw n) clientID kvEntry\<rparr>, kvEntry))"

text \<open>The tail up to the wait: one message for the entries of the call.\<close>

definition Write_send :: "LogEntry list \<Rightarrow> nat \<Rightarrow> SingleLeaderNode \<Rightarrow> SingleLeaderNode \<times> AckWait \<times> Action list" where
  "Write_send entries lastIdx n =
     (let n1 = n\<lparr>sl_seqNo := sl_seqNo n + 1\<rparr>;
          seqNo = sl_seqNo n1;
          msg = (msg_of MsgAppendEntries (bn_id n1) [])\<lparr>m_SeqNo := seqNo, m_Entries := entries, m_AckIndex := lastIdx\<rparr>
      in awaitReplication_start (SingleLeaderNode_getMode n1) seqNo (BaseNode_GetPeers n1) msg n1)"

definition SingleLeaderNode_Write ::
  "int \<Rightarrow> real \<Rightarrow> string \<Rightarrow> bytes \<Rightarrow> string \<Rightarrow> SingleLeaderNode \<Rightarrow> SLError + SingleLeaderNode \<times> KVEntry \<times> AckWait \<times> Action list" where
  "SingleLeaderNode_Write now took key val clientID n =
     (if BaseNode_isPaused n then Inl (SLPaused (bn_id n))
      else (let (n1, entry) = Write_log now key val OpSet n;
                (n2, kvEntry) = Write_store clientID entry n1;
                n3 = n2\<lparr>bn_metrics := NodeMetrics_RecordWrite now took (bn_metrics n2)\<rparr>;
                (n4, w, as) = Write_send [entry] (le_Index entry) n3
            in Inr (n4, kvEntry, w, as)))"

text \<open>What follows the wait: the event, and the error of the wait beside the entry.\<close>

definition SingleLeaderNode_Write_finish ::
  "int \<Rightarrow> string \<Rightarrow> KVEntry \<Rightarrow> AckWait \<Rightarrow> SingleLeaderNode \<Rightarrow> SingleLeaderNode \<times> Action list \<times> SLError option" where
  "SingleLeaderNode_Write_finish now key kvEntry w n =
     (let (n1, err) = awaitReplication_end w n
      in (n1, [BaseNode_publishEvent now EvtWriteReceived
                (fmap_of_list [(''key'', EStr key), (''version'', ENum (int (kv_Version kvEntry))), (''mode'', EStr (mode_string (aw_mode w)))]) n1],
          err))"

definition SingleLeaderNode_Delete ::
  "int \<Rightarrow> string \<Rightarrow> SingleLeaderNode \<Rightarrow> SLError + SingleLeaderNode \<times> nat \<times> AckWait \<times> Action list" where
  "SingleLeaderNode_Delete now key n =
     (if BaseNode_isPaused n then Inl (SLPaused (bn_id n))
      else (let (n1, entry) = Write_log now key None OpDelete n;
                n2 = n1\<lparr>bn_store := Store_Delete (bn_store n1) key (bn_id n1) (le_Timestamp entry) (le_VClock entry)\<rparr>;
                (n3, w, as) = Write_send [entry] (le_Index entry) n2
            in Inr (n3, le_Index entry, w, as)))"

definition SingleLeaderNode_Delete_finish ::
  "int \<Rightarrow> string \<Rightarrow> nat \<Rightarrow> AckWait \<Rightarrow> SingleLeaderNode \<Rightarrow> SingleLeaderNode \<times> Action list \<times> SLError option" where
  "SingleLeaderNode_Delete_finish now key idx w n =
     (let (n1, err) = awaitReplication_end w n
      in (n1, [BaseNode_publishEvent now EvtWriteReceived
                (fmap_of_list [(''key'', EStr key), (''version'', ENum (int idx)), (''op'', EStr ''delete'')]) n1], err))"

fun batch_loop ::
  "string \<Rightarrow> (int \<times> string \<times> bytes) list \<Rightarrow> SingleLeaderNode \<times> LogEntry list \<times> KVEntry list \<times> nat \<Rightarrow>
     SingleLeaderNode \<times> LogEntry list \<times> KVEntry list \<times> nat" where
  "batch_loop clientID [] r = r"
| "batch_loop clientID ((now, key, val) # ps) (n, entries, kvs, lastIdx) =
     (let (n1, entry) = Write_log now key val OpSet n;
          (n2, kv) = Write_store clientID entry n1
      in batch_loop clientID ps (n2, entries @ [entry], kvs @ [kv], le_Index entry))"

text \<open>Each pair comes with the reading of the wall clock at its turn.\<close>

definition SingleLeaderNode_WriteBatch ::
  "(int \<times> string \<times> bytes) list \<Rightarrow> string \<Rightarrow> SingleLeaderNode \<Rightarrow> SLError + SingleLeaderNode \<times> KVEntry list \<times> AckWait \<times> Action list" where
  "SingleLeaderNode_WriteBatch pairs clientID n =
     (if BaseNode_isPaused n then Inl (SLPaused (bn_id n))
      else if length pairs = 0 then Inl EmptyBatch
      else (let (n1, entries, kvs, lastIdx) = batch_loop clientID pairs (n, [], [], 0);
                (n2, w, as) = Write_send entries lastIdx n1
            in Inr (n2, kvs, w, as)))"

definition SingleLeaderNode_WriteBatch_finish ::
  "int \<Rightarrow> nat \<Rightarrow> AckWait \<Rightarrow> SingleLeaderNode \<Rightarrow> SingleLeaderNode \<times> Action list \<times> SLError option" where
  "SingleLeaderNode_WriteBatch_finish now npairs w n =
     (let (n1, err) = awaitReplication_end w n;
          n2 = n1\<lparr>bn_metrics := NodeMetrics_RecordWrite now 0 (bn_metrics n1)\<rparr>
      in (n2, [BaseNode_publishEvent now EvtWriteReceived
                (fmap_of_list [(''batch'', ENum (int npairs)), (''atomic'', EBool True)]) n2], err))"

definition SingleLeaderNode_Read :: "int \<Rightarrow> string \<Rightarrow> string \<Rightarrow> SingleLeaderNode \<Rightarrow> SLError + SingleLeaderNode \<times> KVEntry" where
  "SingleLeaderNode_Read now key clientID n =
     (if BaseNode_isPaused n then Inl (SLPaused (bn_id n))
      else (case Store_Get (bn_store n) key of
              None \<Rightarrow> Inl (SLKeyNotFound key)
            | Some entry \<Rightarrow>
                (case ReadYourWrites_ValidateRead (sl_ryw n) clientID entry of
                   Some v \<Rightarrow> Inl (SLViolation v)
                 | None \<Rightarrow>
                     (case MonotonicReads_ValidateRead (sl_mono n) clientID entry of
                        Some v \<Rightarrow> Inl (SLViolation v)
                      | None \<Rightarrow>
                          Inr (n\<lparr>sl_ryw := ReadYourWrites_RecordRead (sl_ryw n) clientID entry,
                                 sl_mono := MonotonicReads_RecordRead (sl_mono n) clientID entry,
                                 bn_metrics := NodeMetrics_RecordRead now 0 (bn_metrics n)\<rparr>, entry)))))"

section \<open>The follower\<close>

record FollowerNode = BaseNode +
  fo_leaderID :: node_id
  fo_ryw :: session_map
  fo_mono :: session_map
  fo_applied :: nat
  fo_pending :: "(nat, LogEntry) fmap"
  fo_leaderIndex :: nat

definition NewFollowerNode :: "node_id \<Rightarrow> string \<Rightarrow> node_id \<Rightarrow> FollowerNode" where
  "NewFollowerNode i clusterID leaderID =
     BaseNode.extend ((newBaseNode i clusterID StrategySingleLeader RoleFollower)\<lparr>bn_leaderID := leaderID\<rparr>)
       (FollowerNode.fields leaderID fmempty fmempty 0 fmempty 0)"

definition FollowerNode_requestSync :: "nat \<Rightarrow> FollowerNode \<Rightarrow> Action" where
  "FollowerNode_requestSync fromIndex n = Send ((msg_of MsgSync (bn_id n) (fo_leaderID n))\<lparr>m_AckIndex := fromIndex\<rparr>)"

definition FollowerNode_syncTick :: "FollowerNode \<Rightarrow> Action list" where
  "FollowerNode_syncTick n = (if BaseNode_isPaused n then [] else [FollowerNode_requestSync (fo_applied n + 1) n])"

definition kvEntry_of :: "LogEntry \<Rightarrow> KVEntry" where
  "kvEntry_of entry =
     (let kvEntry = \<lparr>kv_Key = le_Key entry, kv_Value = le_Value entry, kv_VClock = le_VClock entry,
                     kv_Timestamp = le_Timestamp entry, kv_NodeID = le_OriginID entry, kv_Tombstone = False, kv_Version = le_Index entry\<rparr>
      in if le_Op entry = OpDelete then kvEntry\<lparr>kv_Tombstone := True\<rparr> else kvEntry)"

definition FollowerNode_applyOne :: "int \<Rightarrow> LogEntry \<Rightarrow> FollowerNode \<Rightarrow> FollowerNode" where
  "FollowerNode_applyOne now entry n =
     (let (n1, _) = BaseNode_HLCUpdate now (le_Timestamp entry) n;
          n2 = n1\<lparr>bn_log := fst (Log_Append (bn_log n1) entry)\<rparr>;
          n3 = n2\<lparr>bn_store := Store_Set (bn_store n2) (kvEntry_of entry)\<rparr>
      in n3\<lparr>bn_log := Log_SetCommitIndex (bn_log n3) (le_Index entry)\<rparr>)"

fun buffer_loop :: "LogEntry list \<Rightarrow> FollowerNode \<Rightarrow> FollowerNode" where
  "buffer_loop [] n = n"
| "buffer_loop (entry # es) n =
     buffer_loop es (if le_Index entry \<le> fo_applied n then n
                     else n\<lparr>fo_pending := fmupd (le_Index entry) entry (fo_pending n)\<rparr>)"

lemma applyOne_frame [simp]:
  "fo_pending (FollowerNode_applyOne now e n) = fo_pending n" "fo_applied (FollowerNode_applyOne now e n) = fo_applied n"
  "fo_leaderID (FollowerNode_applyOne now e n) = fo_leaderID n" "fo_leaderIndex (FollowerNode_applyOne now e n) = fo_leaderIndex n"
  "bn_id (FollowerNode_applyOne now e n) = bn_id n" "bn_state (FollowerNode_applyOne now e n) = bn_state n"
  "bn_peers (FollowerNode_applyOne now e n) = bn_peers n" "bn_store (FollowerNode_applyOne now e n) = Store_Set (bn_store n) (kvEntry_of e)"
  "bn_log (FollowerNode_applyOne now e n) = Log_SetCommitIndex (fst (Log_Append (bn_log n) e)) (le_Index e)"
  by (simp_all add: FollowerNode_applyOne_def BaseNode_HLCUpdate_def split_beta Let_def)

function apply_contiguous :: "int \<Rightarrow> FollowerNode \<Rightarrow> FollowerNode" where
  "apply_contiguous now n =
     (let next = fo_applied n + 1 in
      case fmlookup (fo_pending n) next of
        None \<Rightarrow> n
      | Some entry \<Rightarrow>
          (let n1 = FollowerNode_applyOne now entry n
           in apply_contiguous now (n1\<lparr>fo_pending := fmdrop next (fo_pending n1), fo_applied := next\<rparr>)))"
  by pat_completeness auto
termination
proof (relation "measure (\<lambda>(now, n). card (fmdom' (fo_pending n)))", simp, goal_cases)
  case (1 now n i e n1)
  then have "i \<in> fmdom' (fo_pending n)" by (simp add: fmdom'I)
  moreover have "finite (fmdom' (fo_pending n))" by simp
  ultimately have "card (fmdom' (fo_pending n) - {i}) < card (fmdom' (fo_pending n))" by (rule card_Diff1_less [rotated])
  then show ?case using 1 by simp
qed

declare apply_contiguous.simps [simp del]

definition FollowerNode_applyEntries :: "int \<Rightarrow> Message \<Rightarrow> FollowerNode \<Rightarrow> FollowerNode \<times> Action list" where
  "FollowerNode_applyEntries now msg n =
     (let n1 = apply_contiguous now (buffer_loop (m_Entries msg) n);
          n2 = (if m_AckIndex msg > fo_leaderIndex n1 then n1\<lparr>fo_leaderIndex := m_AckIndex msg\<rparr> else n1);
          applied = fo_applied n2;
          leaderLast = fo_leaderIndex n2;
          gap = (go_len (fo_pending n2) > 0);
          ack = Send ((msg_of MsgAppendAck (bn_id n2) (fo_leaderID n2))\<lparr>m_AckIndex := m_SeqNo msg\<rparr>);
          sync = (if gap then [FollowerNode_requestSync (applied + 1) n2] else []);
          lag = (if leaderLast > applied then i64 (int (leaderLast - applied)) else 0);
          n3 = n2\<lparr>bn_metrics := NodeMetrics_SetLag now lag (bn_metrics n2)\<rparr>;
          evt = (if lag > 0
                 then BaseNode_publishEvent now EvtFollowerLag
                        (fmap_of_list [(''follower_id'', EStr (bn_id n3)), (''lag_entries'', ENum lag), (''lag_ms'', ENum (i64 (lag * 10))),
                           (''leader_commit'', ENum (int leaderLast)), (''my_commit'', ENum (int applied))]) n3
                 else BaseNode_publishEvent now EvtEntryReplicated
                        (fmap_of_list [(''follower_id'', EStr (bn_id n3)), (''index'', ENum (int applied))]) n3)
      in (n3, [ack] @ sync @ [evt]))"

definition FollowerNode_HandleMessage :: "int \<Rightarrow> Message \<Rightarrow> FollowerNode \<Rightarrow> FollowerNode \<times> Action list" where
  "FollowerNode_HandleMessage now msg n =
     (if BaseNode_isPaused n then (n, [])
      else case m_Type msg of
        MsgAppendEntries \<Rightarrow> FollowerNode_applyEntries now msg n
      | MsgReadRepair \<Rightarrow>
          (case m_Entry msg of None \<Rightarrow> (n, []) | Some e \<Rightarrow> (n\<lparr>bn_store := Store_Set (bn_store n) e\<rparr>, []))
      | _ \<Rightarrow> (n, []))"

definition FollowerNode_Write :: "string \<Rightarrow> bytes \<Rightarrow> string \<Rightarrow> FollowerNode \<Rightarrow> SLError + KVEntry" where
  "FollowerNode_Write key val clientID n = Inl (NotAtFollower (bn_id n) (fo_leaderID n))"

definition FollowerNode_Delete :: "string \<Rightarrow> string \<Rightarrow> FollowerNode \<Rightarrow> SLError option" where
  "FollowerNode_Delete key clientID n = Some (NotAtFollower (bn_id n) (fo_leaderID n))"

definition FollowerNode_Read :: "int \<Rightarrow> string \<Rightarrow> string \<Rightarrow> FollowerNode \<Rightarrow> SLError + FollowerNode \<times> KVEntry" where
  "FollowerNode_Read now key clientID n =
     (if BaseNode_isPaused n then Inl (SLPaused (bn_id n))
      else (case Store_Get (bn_store n) key of
              None \<Rightarrow> Inl (SLKeyNotFound key)
            | Some entry \<Rightarrow>
                Inr (n\<lparr>fo_mono := MonotonicReads_RecordRead (fo_mono n) clientID entry,
                       bn_metrics := NodeMetrics_RecordRead now 0 (bn_metrics n)\<rparr>, entry)))"

end
