(* ===== verification/SingleLeaderCluster.thy ===== *)
theory SingleLeaderCluster
  imports SingleLeader "HOL-Library.Multiset"
begin

text \<open>
  A cluster of one leader and its followers over a network that may delay, reorder and lose messages. A step
  is a call on the leader or on a follower, one receive or the end of a waiting write, a delivery or a loss;
  the methods of one node do not interleave, except that a write waits between its start and its end. The
  membership is fixed. The invariant \<open>sl_inv\<close> says that what followers hold is the leader's log, and that an
  acknowledgement under way stands for entries its sender holds.
\<close>

record SLSys =
  sy_leader :: SingleLeaderNode
  sy_ids :: "node_id list"
  sy_fol :: "node_id \<Rightarrow> FollowerNode"
  sy_net :: "Message multiset"
  sy_waits :: "AckWait list"

definition init_sl :: "string \<Rightarrow> node_id \<Rightarrow> ReplicationMode \<Rightarrow> node_id list \<Rightarrow> SLSys" where
  "init_sl cid lid mode ids =
     \<lparr>sy_leader = fold BaseNode_AddPeer ids (NewSingleLeaderNode lid cid mode), sy_ids = ids,
      sy_fol = (\<lambda>i. NewFollowerNode i cid lid), sy_net = {#}, sy_waits = []\<rparr>"

datatype LeaderCall = LWrite int real string bytes string | LDelete int string | LBatch "(int \<times> string \<times> bytes) list" string
  | LRead int string string | LSetMode ReplicationMode | LPause int | LResume int | LStop | LSkew int

fun leader_call :: "LeaderCall \<Rightarrow> SingleLeaderNode \<Rightarrow> (SingleLeaderNode \<times> AckWait list \<times> Action list) option" where
  "leader_call (LWrite now took key val c) n =
     (case SingleLeaderNode_Write now took key val c n of Inl e \<Rightarrow> None | Inr (n', kv, w, as) \<Rightarrow> Some (n', [w], as))"
| "leader_call (LDelete now key) n =
     (case SingleLeaderNode_Delete now key n of Inl e \<Rightarrow> None | Inr (n', i, w, as) \<Rightarrow> Some (n', [w], as))"
| "leader_call (LBatch pairs c) n =
     (case SingleLeaderNode_WriteBatch pairs c n of Inl e \<Rightarrow> None | Inr (n', kvs, w, as) \<Rightarrow> Some (n', [w], as))"
| "leader_call (LRead now key c) n = (case SingleLeaderNode_Read now key c n of Inl e \<Rightarrow> None | Inr (n', kv) \<Rightarrow> Some (n', [], []))"
| "leader_call (LSetMode m) n = Some (SingleLeaderNode_SetMode m n, [], [])"
| "leader_call (LPause now) n = (case BaseNode_Pause now n of (n', as) \<Rightarrow> Some (n', [], as))"
| "leader_call (LResume now) n = (case BaseNode_Resume now n of (n', as) \<Rightarrow> Some (n', [], as))"
| "leader_call LStop n = Some (BaseNode_Stop n, [], [])"
| "leader_call (LSkew ms) n = Some (BaseNode_SetClockSkewMillis ms n, [], [])"

text \<open>How a waiting call goes on after the wait.\<close>

datatype Finish = FinWrite int string KVEntry | FinDelete int string nat | FinBatch int nat

fun finish_call :: "Finish \<Rightarrow> AckWait \<Rightarrow> SingleLeaderNode \<Rightarrow> SingleLeaderNode \<times> Action list \<times> SLError option" where
  "finish_call (FinWrite now key kv) w n = SingleLeaderNode_Write_finish now key kv w n"
| "finish_call (FinDelete now key i) w n = SingleLeaderNode_Delete_finish now key i w n"
| "finish_call (FinBatch now k) w n = SingleLeaderNode_WriteBatch_finish now k w n"

datatype FollowerCall = FTick | FRead int string string | FPause int | FResume int | FStop | FSkew int

fun follower_call :: "FollowerCall \<Rightarrow> FollowerNode \<Rightarrow> (FollowerNode \<times> Action list) option" where
  "follower_call FTick n = Some (n, FollowerNode_syncTick n)"
| "follower_call (FRead now key c) n = (case FollowerNode_Read now key c n of Inl e \<Rightarrow> None | Inr (n', kv) \<Rightarrow> Some (n', []))"
| "follower_call (FPause now) n = Some (BaseNode_Pause now n)"
| "follower_call (FResume now) n = Some (BaseNode_Resume now n)"
| "follower_call FStop n = Some (BaseNode_Stop n, [])"
| "follower_call (FSkew ms) n = Some (BaseNode_SetClockSkewMillis ms n, [])"

inductive sl_step :: "SLSys \<Rightarrow> SLSys \<Rightarrow> bool" where
  lcall: "leader_call c (sy_leader s) = Some (n', ws, as) \<Longrightarrow>
          sl_step s (s\<lparr>sy_leader := n', sy_waits := sy_waits s @ ws, sy_net := sy_net s + mset (sent_of as)\<rparr>)"
| recv: "k < length (sy_waits s) \<Longrightarrow> awaitReplication_recv (sy_waits s ! k) (sy_leader s) = Some (w', n') \<Longrightarrow>
         sl_step s (s\<lparr>sy_leader := n', sy_waits := (sy_waits s)[k := w']\<rparr>)"
| finish: "k < length (sy_waits s) \<Longrightarrow> finish_call c (sy_waits s ! k) (sy_leader s) = (n', as, err) \<Longrightarrow>
           sl_step s (s\<lparr>sy_leader := n', sy_waits := drop_nth k (sy_waits s)\<rparr>)"
| ldeliver: "m \<in># sy_net s \<Longrightarrow> m_TargetID m = bn_id (sy_leader s) \<Longrightarrow>
             SingleLeaderNode_HandleMessage m (sy_leader s) = Some (n', as) \<Longrightarrow>
             sl_step s (s\<lparr>sy_leader := n', sy_net := sy_net s - {#m#} + mset (sent_of as)\<rparr>)"
| fcall: "i \<in> set (sy_ids s) \<Longrightarrow> follower_call c (sy_fol s i) = Some (f', as) \<Longrightarrow>
          sl_step s (s\<lparr>sy_fol := (sy_fol s)(i := f'), sy_net := sy_net s + mset (sent_of as)\<rparr>)"
| fdeliver: "m \<in># sy_net s \<Longrightarrow> m_TargetID m \<in> set (sy_ids s) \<Longrightarrow>
             FollowerNode_HandleMessage now m (sy_fol s (m_TargetID m)) = (f', as) \<Longrightarrow>
             sl_step s (s\<lparr>sy_fol := (sy_fol s)(m_TargetID m := f'), sy_net := sy_net s - {#m#} + mset (sent_of as)\<rparr>)"
| lose: "sl_step s (s\<lparr>sy_net := sy_net s - {#m#}\<rparr>)"

section \<open>The log as the history of the store\<close>

definition replay :: "LogEntry list \<Rightarrow> Store" where
  "replay es = fold (\<lambda>e s. Store_Set s (kvEntry_of e)) es NewStore"

lemma replay_snoc [simp]: "replay (es @ [e]) = Store_Set (replay es) (kvEntry_of e)"
  by (simp add: replay_def)

text \<open>What a client can see of a store; the tombstone of a delete at the leader keeps the old value, the one at a
  follower does not.\<close>

definition same_view :: "Store \<Rightarrow> Store \<Rightarrow> bool" where
  "same_view s t \<longleftrightarrow> st_version s = st_version t \<and> (\<forall>k. Store_Get s k = Store_Get t k)"

lemma same_view_Set: "same_view s t \<Longrightarrow> same_view (Store_Set s e) (Store_Set t e)"
  by (auto simp: same_view_def Get_raw GetRaw_Set)

lemma same_view_Delete:
  "same_view s t \<Longrightarrow> kv_Key e = k \<Longrightarrow> kv_Tombstone e \<Longrightarrow> same_view (Store_Delete s k nid ts vc) (Store_Set t e)"
  by (auto simp: same_view_def Get_raw GetRaw_Set GetRaw_Delete)

definition indexed :: "LogEntry list \<Rightarrow> bool" where
  "indexed es \<longleftrightarrow> (\<forall>k < length es. le_Index (es ! k) = k + 1)"

definition plain_log :: "ReplicationLog \<Rightarrow> bool" where
  "plain_log l \<longleftrightarrow> log_inv l \<and> rl_snapshotIndex l = 0"

lemma plain_log_indexed: "plain_log l \<Longrightarrow> indexed (rl_entries l) \<and> rl_nextIndex l = length (rl_entries l) + 1"
  by (simp add: plain_log_def log_inv_def indexed_def)

lemma plain_log_New [simp]: "plain_log NewReplicationLog"
  by (simp add: plain_log_def) (simp add: NewReplicationLog_def)

lemma plain_SetCommitIndex [simp]: "plain_log (Log_SetCommitIndex l i) = plain_log l" "rl_entries (Log_SetCommitIndex l i) = rl_entries l"
  by (simp_all add: plain_log_def) (simp_all add: Log_SetCommitIndex_def)

lemma plain_Append:
  "plain_log l \<Longrightarrow> plain_log (fst (Log_Append l e)) \<and> rl_entries (fst (Log_Append l e)) = rl_entries l @ [e\<lparr>le_Index := length (rl_entries l) + 1\<rparr>]
     \<and> snd (Log_Append l e) = length (rl_entries l) + 1"
  using Append_inv(1) [of l e] by (simp add: plain_log_def) (simp add: Log_Append_def Let_def log_inv_def)

definition entry_at :: "LogEntry list \<Rightarrow> LogEntry \<Rightarrow> bool" where
  "entry_at es e \<longleftrightarrow> 1 \<le> le_Index e \<and> le_Index e \<le> length es \<and> es ! (le_Index e - 1) = e"

lemma entry_at_append: "entry_at es e \<Longrightarrow> entry_at (es @ xs) e"
  by (auto simp: entry_at_def nth_append)

lemma indexed_entry_at: "indexed es \<Longrightarrow> e \<in> set es \<Longrightarrow> entry_at es e"
  by (auto simp: indexed_def entry_at_def in_set_conv_nth)

section \<open>The leader\<close>

definition leader_ok :: "SingleLeaderNode \<Rightarrow> bool" where
  "leader_ok n \<longleftrightarrow> plain_log (bn_log n) \<and> same_view (bn_store n) (replay (rl_entries (bn_log n)))"

text \<open>Nothing but the log, the store and the clocks changes.\<close>

definition leader_same :: "SingleLeaderNode \<Rightarrow> SingleLeaderNode \<Rightarrow> bool" where
  "leader_same n n' \<longleftrightarrow> bn_id n' = bn_id n \<and> bn_peers n' = bn_peers n \<and> sl_seqNo n' = sl_seqNo n \<and> sl_ackChs n' = sl_ackChs n"

lemma leader_same_trans: "leader_same a b \<Longrightarrow> leader_same b c \<Longrightarrow> leader_same a c"
  by (simp add: leader_same_def)

lemma Write_log_spec:
  assumes "plain_log (bn_log n)" and "Write_log now key val op n = (n', e)"
  shows "plain_log (bn_log n')" "rl_entries (bn_log n') = rl_entries (bn_log n) @ [e]" "leader_same n n'" "bn_store n' = bn_store n"
    "le_Op e = op" "le_Key e = key" "le_OriginID e = bn_id n" "le_Index e = length (rl_entries (bn_log n)) + 1"
  using assms plain_Append [OF assms(1)]
  by (auto simp: Write_log_def BaseNode_HLCNow_def split_beta Let_def leader_same_def)

lemma Write_store_spec:
  assumes "Write_store c e n = (n', kv)" and "le_OriginID e = bn_id n" and "le_Op e = OpSet"
  shows "bn_store n' = Store_Set (bn_store n) (kvEntry_of e)" "bn_log n' = bn_log n" "leader_same n n'"
  using assms by (auto simp: Write_store_def Let_def leader_same_def kvEntry_of_def)

lemma write_one:
  assumes "leader_ok n" and "Write_log now key val OpSet n = (n1, e)" and "Write_store c e n1 = (n2, kv)"
  shows "leader_ok n2 \<and> rl_entries (bn_log n2) = rl_entries (bn_log n) @ [e] \<and> leader_same n n2"
proof -
  have p: "plain_log (bn_log n)" "same_view (bn_store n) (replay (rl_entries (bn_log n)))" using assms(1) by (simp_all add: leader_ok_def)
  note l = Write_log_spec [OF p(1) assms(2)]
  have "le_OriginID e = bn_id n1" using l(3,7) by (simp add: leader_same_def)
  note s = Write_store_spec [OF assms(3) this l(5)]
  show ?thesis using l s p(2) leader_same_trans [OF l(3) s(3)] by (simp add: leader_ok_def same_view_Set)
qed

lemma delete_one:
  assumes "leader_ok n" and "Write_log now key val OpDelete n = (n1, e)"
  shows "leader_ok (n1\<lparr>bn_store := Store_Delete (bn_store n1) key nid ts vc\<rparr>) \<and> rl_entries (bn_log n1) = rl_entries (bn_log n) @ [e] \<and> leader_same n n1"
proof -
  have p: "plain_log (bn_log n)" "same_view (bn_store n) (replay (rl_entries (bn_log n)))" using assms(1) by (simp_all add: leader_ok_def)
  note l = Write_log_spec [OF p(1) assms(2)]
  have "kv_Key (kvEntry_of e) = key" "kv_Tombstone (kvEntry_of e)" using l(5,6) by (simp_all add: kvEntry_of_def)
  then show ?thesis using l p(2) same_view_Delete [OF p(2)] by (simp add: leader_ok_def)
qed

lemma batch_spec:
  "leader_ok n \<Longrightarrow> batch_loop c ps (n, es, kvs, i) = (n', es', kvs', i') \<Longrightarrow>
   \<exists>xs. es' = es @ xs \<and> leader_ok n' \<and> rl_entries (bn_log n') = rl_entries (bn_log n) @ xs \<and> leader_same n n'"
proof (induction c ps "(n, es, kvs, i)" arbitrary: n es kvs i rule: batch_loop.induct)
  case (1 c)
  then show ?case by (auto simp: leader_same_def)
next
  case (2 c now key val ps n es kvs i)
  obtain n1 e where w: "Write_log now key val OpSet n = (n1, e)" by fastforce
  obtain n2 kv where s: "Write_store c e n1 = (n2, kv)" by fastforce
  note o = write_one [OF 2(2) w s]
  have "batch_loop c ps (n2, es @ [e], kvs @ [kv], le_Index e) = (n', es', kvs', i')" using 2(3) w s by simp
  from 2(1) [OF w [symmetric] refl s [symmetric] refl _ this] o obtain xs where
    "es' = (es @ [e]) @ xs" "leader_ok n'" "rl_entries (bn_log n') = rl_entries (bn_log n2) @ xs" "leader_same n2 n'" by auto
  then show ?case using o leader_same_trans [of n n2 n'] by (intro exI [of _ "e # xs"]) simp
qed

text \<open>A call that writes appends its entries to the log and sends them all in one message under a new number.\<close>

definition leader_writes :: "SingleLeaderNode \<Rightarrow> SingleLeaderNode \<Rightarrow> LogEntry list \<Rightarrow> AckWait \<Rightarrow> Action list \<Rightarrow> bool" where
  "leader_writes n n' xs w as \<longleftrightarrow>
     leader_ok n' \<and> rl_entries (bn_log n') = rl_entries (bn_log n) @ xs \<and> bn_id n' = bn_id n \<and> bn_peers n' = bn_peers n \<and>
     sl_seqNo n' = sl_seqNo n + 1 \<and>
     (sl_ackChs n' = sl_ackChs n \<or> sl_ackChs n' = fmupd (sl_seqNo n + 1) (chan_make (length (bn_peers n))) (sl_ackChs n)) \<and>
     aw_seq w = sl_seqNo n + 1 \<and> aw_peers w = bn_peers n \<and> aw_received w = fmempty \<and> aw_got w = (bn_peers n = []) \<and>
     m_Type (aw_msg w) = MsgAppendEntries \<and> m_SenderID (aw_msg w) = bn_id n \<and> m_SeqNo (aw_msg w) = sl_seqNo n + 1 \<and>
     m_Entries (aw_msg w) = xs \<and> sent_of as = map (\<lambda>p. (aw_msg w)\<lparr>m_TargetID := p\<rparr>) (bn_peers n)"

lemma Write_send_spec:
  assumes "Write_send xs i n1 = (n2, w, as)" and "leader_ok n1" and "rl_entries (bn_log n1) = rl_entries (bn_log n) @ xs" and "leader_same n n1"
  shows "leader_writes n n2 xs w as"
  using assms
  by (auto simp: Write_send_def awaitReplication_start_def Let_def leader_writes_def leader_same_def leader_ok_def
      msg_of_def BaseNode_GetPeers_def)

lemma leader_call_spec:
  assumes "leader_ok n" and "leader_call c n = Some (n', ws, as)"
  obtains (quiet) "ws = []" "sent_of as = []" "leader_ok n'" "rl_entries (bn_log n') = rl_entries (bn_log n)" "leader_same n n'"
  | (writes) w xs where "ws = [w]" "leader_writes n n' xs w as"
proof (cases c)
  case (LWrite now took key val cl)
  obtain n1 e where w: "Write_log now key val OpSet n = (n1, e)" by fastforce
  obtain n2 kv where s: "Write_store cl e n1 = (n2, kv)" by fastforce
  let ?n3 = "n2\<lparr>bn_metrics := NodeMetrics_RecordWrite now took (bn_metrics n2)\<rparr>"
  obtain n4 aw bs where t: "Write_send [e] (le_Index e) ?n3 = (n4, aw, bs)" by (metis prod_cases3)
  have "n4 = n'" "ws = [aw]" "bs = as" using assms(2) LWrite w s t by (auto simp: SingleLeaderNode_Write_def split: if_splits)
  moreover have "leader_writes n n4 [e] aw bs"
    by (rule Write_send_spec [OF t]) (use write_one [OF assms(1) w s] in \<open>auto simp: leader_ok_def leader_same_def\<close>)
  ultimately show thesis using writes by simp
next
  case (LDelete now key)
  obtain n1 e where w: "Write_log now key None OpDelete n = (n1, e)" by fastforce
  let ?n2 = "n1\<lparr>bn_store := Store_Delete (bn_store n1) key (bn_id n1) (le_Timestamp e) (le_VClock e)\<rparr>"
  obtain n4 aw bs where t: "Write_send [e] (le_Index e) ?n2 = (n4, aw, bs)" by (metis prod_cases3)
  have "n4 = n'" "ws = [aw]" "bs = as" using assms(2) LDelete w t by (auto simp: SingleLeaderNode_Delete_def split: if_splits)
  moreover have "leader_writes n n4 [e] aw bs"
    by (rule Write_send_spec [OF t]) (use delete_one [OF assms(1) w] in \<open>simp_all add: leader_same_def\<close>)
  ultimately show thesis using writes by simp
next
  case (LBatch pairs cl)
  obtain n1 es kvs i where b: "batch_loop cl pairs (n, [], [], 0) = (n1, es, kvs, i)" by (metis prod_cases4)
  obtain n4 aw bs where t: "Write_send es i n1 = (n4, aw, bs)" by (metis prod_cases3)
  have "n4 = n'" "ws = [aw]" "bs = as" using assms(2) LBatch b t by (auto simp: SingleLeaderNode_WriteBatch_def split: if_splits)
  moreover have "leader_writes n n4 es aw bs"
    by (rule Write_send_spec [OF t]) (use batch_spec [OF assms(1) b] in simp_all)
  ultimately show thesis using writes by simp
qed (use assms in \<open>auto simp: SingleLeaderNode_Read_def SingleLeaderNode_SetMode_def BaseNode_Pause_def BaseNode_Resume_def
      BaseNode_Stop_def BaseNode_SetClockSkewMillis_def BaseNode_publishStateChange_def Let_def leader_ok_def leader_same_def
      intro!: quiet split: sum.splits option.splits if_splits\<close>)

section \<open>The follower\<close>

definition holds :: "FollowerNode \<Rightarrow> nat \<Rightarrow> bool" where
  "holds f j \<longleftrightarrow> j \<le> fo_applied f \<or> j \<in> fmdom' (fo_pending f)"

definition fol_ok :: "node_id \<Rightarrow> LogEntry list \<Rightarrow> node_id \<Rightarrow> FollowerNode \<Rightarrow> bool" where
  "fol_ok lid es i f \<longleftrightarrow> bn_id f = i \<and> fo_leaderID f = lid \<and> fo_applied f \<le> length es \<and> plain_log (bn_log f) \<and>
     rl_entries (bn_log f) = take (fo_applied f) es \<and> bn_store f = replay (take (fo_applied f) es) \<and>
     (\<forall>j e. fmlookup (fo_pending f) j = Some e \<longrightarrow> le_Index e = j \<and> fo_applied f < j \<and> entry_at es e)"

lemma fol_ok_append: "fol_ok lid es i f \<Longrightarrow> fol_ok lid (es @ xs) i f"
  by (auto simp: fol_ok_def entry_at_append)

lemma buffer_spec:
  assumes "fol_ok lid es i f" and "\<forall>e \<in> set xs. entry_at es e"
  shows "fol_ok lid es i (buffer_loop xs f) \<and> (\<forall>j. holds f j \<longrightarrow> holds (buffer_loop xs f) j) \<and>
    (\<forall>e \<in> set xs. holds (buffer_loop xs f) (le_Index e)) \<and> bn_state (buffer_loop xs f) = bn_state f"
  using assms
proof (induction xs f rule: buffer_loop.induct)
  case (2 e es' n)
  let ?n = "if le_Index e \<le> fo_applied n then n else n\<lparr>fo_pending := fmupd (le_Index e) e (fo_pending n)\<rparr>"
  have "fol_ok lid es i ?n" using 2(2,3) by (auto simp: fol_ok_def)
  note ih = 2(1) [OF this]
  have "holds ?n (le_Index e)" "\<forall>j. holds n j \<longrightarrow> holds ?n j" "bn_state ?n = bn_state n" by (auto simp: holds_def fmdom'I)
  then show ?case using ih 2(3) by auto
qed simp

lemma apply_next:
  fixes now :: int
  assumes f: "fol_ok lid es i f" and e: "fmlookup (fo_pending f) (fo_applied f + 1) = Some e"
  defines "f' \<equiv> (FollowerNode_applyOne now e f)\<lparr>fo_pending := fmdrop (fo_applied f + 1) (fo_pending f), fo_applied := fo_applied f + 1\<rparr>"
  shows "fol_ok lid es i f'" and "holds f j \<Longrightarrow> holds f' j"
proof -
  let ?k = "fo_applied f"
  have k: "le_Index e = ?k + 1" "entry_at es e" "\<And>j x. fmlookup (fo_pending f) j = Some x \<Longrightarrow> le_Index x = j \<and> ?k < j \<and> entry_at es x"
    using f e by (auto simp: fol_ok_def)
  then have nth: "?k < length es" "es ! ?k = e" by (auto simp: entry_at_def)
  have l: "plain_log (bn_log f)" "rl_entries (bn_log f) = take ?k es" "bn_store f = replay (take ?k es)" using f by (simp_all add: fol_ok_def)
  have tk: "take (?k + 1) es = take ?k es @ [e]" using nth by (simp add: take_Suc_conv_app_nth)
  have ap: "plain_log (fst (Log_Append (bn_log f) e))" "rl_entries (fst (Log_Append (bn_log f) e)) = take (?k + 1) es"
    using plain_Append [OF l(1), of e] l(2) nth k(1) tk by (simp_all add: min_def)
  show "fol_ok lid es i f'"
    using f nth ap tk l(3) k(3) by (auto simp: fol_ok_def f'_def intro: Suc_lessI)
  show "holds f j \<Longrightarrow> holds f' j" by (auto simp: holds_def f'_def)
qed

lemma contiguous_spec:
  "fol_ok lid es i f \<Longrightarrow> fol_ok lid es i (apply_contiguous now f) \<and> (\<forall>j. holds f j \<longrightarrow> holds (apply_contiguous now f) j) \<and>
    fmlookup (fo_pending (apply_contiguous now f)) (fo_applied (apply_contiguous now f) + 1) = None \<and>
    bn_state (apply_contiguous now f) = bn_state f"
proof (induction now f rule: apply_contiguous.induct)
  case (1 now n)
  show ?case
  proof (cases "fmlookup (fo_pending n) (fo_applied n + 1)")
    case None
    then show ?thesis using "1.prems" by (subst (1 2 3 4 5) apply_contiguous.simps) simp
  next
    case (Some e)
    let ?n = "(FollowerNode_applyOne now e n)\<lparr>fo_pending := fmdrop (fo_applied n + 1) (fo_pending n), fo_applied := fo_applied n + 1\<rparr>"
    have unf: "apply_contiguous now n = apply_contiguous now ?n" using Some by (subst apply_contiguous.simps) simp
    note nx = apply_next [OF "1.prems" Some, where now = now]
    show ?thesis using "1.IH" [OF refl Some refl] nx unfolding unf by simp
  qed
qed

definition ack_msg :: "node_id \<Rightarrow> node_id \<Rightarrow> nat \<Rightarrow> Message" where
  "ack_msg i lid q = (msg_of MsgAppendAck i lid)\<lparr>m_AckIndex := q\<rparr>"

definition sync_msg :: "node_id \<Rightarrow> node_id \<Rightarrow> nat \<Rightarrow> Message" where
  "sync_msg i lid k = (msg_of MsgSync i lid)\<lparr>m_AckIndex := k\<rparr>"

lemma ack_sync_fields [simp]:
  "m_Type (ack_msg i lid q) = MsgAppendAck" "m_SenderID (ack_msg i lid q) = i" "m_TargetID (ack_msg i lid q) = lid" "m_AckIndex (ack_msg i lid q) = q"
  "m_Type (sync_msg i lid k) = MsgSync" "m_SenderID (sync_msg i lid k) = i" "m_TargetID (sync_msg i lid k) = lid" "m_AckIndex (sync_msg i lid k) = k"
  by (simp_all add: ack_msg_def sync_msg_def msg_of_def)

lemma go_len_pos [simp]: "0 < go_len m \<longleftrightarrow> m \<noteq> fmempty"
  by (metis go_len_0 gr0I less_irrefl)

lemma sent_of_event [simp]: "sent_of [if b then BaseNode_publishEvent t x d n else BaseNode_publishEvent t' x' d' n'] = []"
  by (simp add: BaseNode_publishEvent_def)

lemma applyEntries_sent:
  fixes now m f
  defines "c \<equiv> apply_contiguous now (buffer_loop (m_Entries m) f)"
  shows "sent_of (snd (FollowerNode_applyEntries now m f)) = ack_msg (bn_id c) (fo_leaderID c) (m_SeqNo m) #
     (if go_len (fo_pending c) > 0 then [sync_msg (bn_id c) (fo_leaderID c) (fo_applied c + 1)] else [])"
proof -
  have "bn_id (if b then c\<lparr>fo_leaderIndex := k\<rparr> else c) = bn_id c" "fo_leaderID (if b then c\<lparr>fo_leaderIndex := k\<rparr> else c) = fo_leaderID c"
    "fo_applied (if b then c\<lparr>fo_leaderIndex := k\<rparr> else c) = fo_applied c" "fo_pending (if b then c\<lparr>fo_leaderIndex := k\<rparr> else c) = fo_pending c" for b k
    by simp_all
  then show ?thesis
    unfolding FollowerNode_applyEntries_def c_def [symmetric] Let_def FollowerNode_requestSync_def ack_msg_def sync_msg_def by auto
qed

lemma applyEntries_spec:
  assumes "fol_ok lid es i f" and "\<forall>e \<in> set (m_Entries m). entry_at es e" and "FollowerNode_applyEntries now m f = (f', as)"
  shows "fol_ok lid es i f'" and "holds f j \<Longrightarrow> holds f' j" and "e \<in> set (m_Entries m) \<Longrightarrow> holds f' (le_Index e)"
    and "fmlookup (fo_pending f') (fo_applied f' + 1) = None"
    and "set (sent_of as) \<subseteq> insert (ack_msg i lid (m_SeqNo m)) (range (sync_msg i lid))"
    and "bn_state f' = bn_state f"
proof -
  let ?b = "buffer_loop (m_Entries m) f"
  let ?c = "apply_contiguous now ?b"
  note b = buffer_spec [OF assms(1,2)]
  note c = contiguous_spec [of lid es i ?b now]
  have f': "fo_applied f' = fo_applied ?c" "fo_pending f' = fo_pending ?c" "bn_log f' = bn_log ?c" "bn_store f' = bn_store ?c"
    "bn_id f' = bn_id ?c" "fo_leaderID f' = fo_leaderID ?c" "bn_state f' = bn_state ?c"
    using assms(3) by (auto simp: FollowerNode_applyEntries_def Let_def)
  have hd: "holds f' j = holds ?c j" for j by (simp add: holds_def f')
  show ok: "fol_ok lid es i f'" using b c f' by (simp add: fol_ok_def)
  show "holds f j \<Longrightarrow> holds f' j" "e \<in> set (m_Entries m) \<Longrightarrow> holds f' (le_Index e)"
    "fmlookup (fo_pending f') (fo_applied f' + 1) = None" "bn_state f' = bn_state f"
    using b c f' hd by simp_all
  have "bn_id ?c = i" "fo_leaderID ?c = lid" using b c by (simp_all add: fol_ok_def)
  then show "set (sent_of as) \<subseteq> insert (ack_msg i lid (m_SeqNo m)) (range (sync_msg i lid))"
    using applyEntries_sent [of now m f] assms(3) by auto
qed

lemma follower_call_frame:
  assumes "follower_call c f = Some (f', as)"
  shows "fo_applied f' = fo_applied f \<and> fo_pending f' = fo_pending f \<and> bn_log f' = bn_log f \<and> bn_store f' = bn_store f \<and>
    bn_id f' = bn_id f \<and> fo_leaderID f' = fo_leaderID f \<and> set (sent_of as) \<subseteq> {sync_msg (bn_id f) (fo_leaderID f) (fo_applied f + 1)}"
proof (cases c)
  case FTick
  then show ?thesis using assms by (auto simp: FollowerNode_syncTick_def FollowerNode_requestSync_def sync_msg_def split: if_splits)
next
  case (FRead now key cl)
  then show ?thesis using assms by (auto simp: FollowerNode_Read_def split: if_splits option.splits)
qed (use assms in \<open>auto simp: BaseNode_Pause_def BaseNode_Resume_def BaseNode_Stop_def BaseNode_SetClockSkewMillis_def
      BaseNode_publishStateChange_def Let_def\<close>)

lemma follower_call_spec:
  assumes "follower_call c f = Some (f', as)" and "fol_ok lid es i f"
  shows "fol_ok lid es i f'" "holds f' j = holds f j" "set (sent_of as) \<subseteq> range (sync_msg i lid)"
proof -
  note fr = follower_call_frame [OF assms(1)]
  show "fol_ok lid es i f'" "holds f' j = holds f j" using fr assms(2) by (simp_all add: fol_ok_def holds_def)
  show "set (sent_of as) \<subseteq> range (sync_msg i lid)" using fr assms(2) by (auto simp: fol_ok_def)
qed

section \<open>The invariant\<close>

abbreviation sl_lid :: "SLSys \<Rightarrow> node_id" where
  "sl_lid s \<equiv> bn_id (sy_leader s)"

abbreviation sl_es :: "SLSys \<Rightarrow> LogEntry list" where
  "sl_es s \<equiv> rl_entries (bn_log (sy_leader s))"

abbreviation sl_seq :: "SLSys \<Rightarrow> nat" where
  "sl_seq s \<equiv> sl_seqNo (sy_leader s)"

abbreviation sl_acks :: "SLSys \<Rightarrow> (nat, node_id GoChan) fmap" where
  "sl_acks s \<equiv> sl_ackChs (sy_leader s)"

definition msg_ok :: "SLSys \<Rightarrow> Message \<Rightarrow> bool" where
  "msg_ok s m \<longleftrightarrow>
     m_Type m = MsgAppendEntries \<and> m_TargetID m \<in> set (sy_ids s) \<and> m_SeqNo m \<le> sl_seq s \<and> (\<forall>e \<in> set (m_Entries m). entry_at (sl_es s) e) \<or>
     m_Type m = MsgAppendAck \<and> m_SenderID m \<in> set (sy_ids s) \<and> m_TargetID m = sl_lid s \<and> m_AckIndex m \<le> sl_seq s \<or>
     m_Type m = MsgSync \<and> m_SenderID m \<in> set (sy_ids s) \<and> m_TargetID m = sl_lid s"

definition held :: "SLSys \<Rightarrow> node_id \<Rightarrow> AckWait \<Rightarrow> bool" where
  "held s p w \<longleftrightarrow> p \<in> set (sy_ids s) \<and> (\<forall>e \<in> set (m_Entries (aw_msg w)). holds (sy_fol s p) (le_Index e))"

definition msg_for :: "SLSys \<Rightarrow> AckWait \<Rightarrow> Message \<Rightarrow> bool" where
  "msg_for s w m \<longleftrightarrow>
     (m_Type m = MsgAppendEntries \<and> m_SeqNo m = aw_seq w \<longrightarrow> m_Entries m = m_Entries (aw_msg w)) \<and>
     (m_Type m = MsgAppendAck \<and> m_AckIndex m = aw_seq w \<longrightarrow> held s (m_SenderID m) w)"

definition wait_ok :: "SLSys \<Rightarrow> AckWait \<Rightarrow> bool" where
  "wait_ok s w \<longleftrightarrow> aw_peers w = sy_ids s \<and> 1 \<le> aw_seq w \<and> aw_seq w \<le> sl_seq s \<and>
     (\<forall>e \<in> set (m_Entries (aw_msg w)). entry_at (sl_es s) e) \<and> (\<forall>m \<in># sy_net s. msg_for s w m) \<and>
     (\<forall>c p. fmlookup (sl_acks s) (aw_seq w) = Some c \<and> p \<in> set (ch_buf c) \<longrightarrow> held s p w) \<and>
     (\<forall>p \<in> fmdom' (aw_received w). held s p w) \<and> (aw_got w \<and> sy_ids s \<noteq> [] \<longrightarrow> (\<exists>p. held s p w))"

definition sl_inv :: "SLSys \<Rightarrow> bool" where
  "sl_inv s \<longleftrightarrow> distinct (sy_ids s) \<and> sl_lid s \<notin> set (sy_ids s) \<and> bn_peers (sy_leader s) = sy_ids s \<and> leader_ok (sy_leader s) \<and>
     (\<forall>j \<in> fmdom' (sl_acks s). j \<le> sl_seq s) \<and> (\<forall>i \<in> set (sy_ids s). fol_ok (sl_lid s) (sl_es s) i (sy_fol s i)) \<and>
     (\<forall>m \<in># sy_net s. msg_ok s m) \<and> (\<forall>w \<in> set (sy_waits s). wait_ok s w)"

definition sl_grow :: "SLSys \<Rightarrow> SLSys \<Rightarrow> bool" where
  "sl_grow s s' \<longleftrightarrow> sy_ids s' = sy_ids s \<and> sl_lid s' = sl_lid s \<and> sl_seq s \<le> sl_seq s' \<and> (\<exists>xs. sl_es s' = sl_es s @ xs) \<and>
     (\<forall>p \<in> set (sy_ids s). \<forall>j. holds (sy_fol s p) j \<longrightarrow> holds (sy_fol s' p) j)"

lemma held_grow: "held s p w \<Longrightarrow> sl_grow s s' \<Longrightarrow> held s' p w"
  by (auto simp: held_def sl_grow_def)

lemma msg_ok_grow: "msg_ok s m \<Longrightarrow> sl_grow s s' \<Longrightarrow> msg_ok s' m"
  by (auto simp: msg_ok_def sl_grow_def entry_at_append)

lemma msg_for_grow: "msg_for s w m \<Longrightarrow> sl_grow s s' \<Longrightarrow> msg_for s' w m"
  using held_grow by (auto simp: msg_for_def)

lemma wait_ok_grow:
  assumes w: "wait_ok s w" and g: "sl_grow s s'" and net: "\<And>m. m \<in># sy_net s' \<Longrightarrow> m \<in># sy_net s \<or> msg_for s' w m"
    and acks: "\<And>c p. fmlookup (sl_acks s') (aw_seq w) = Some c \<Longrightarrow> p \<in> set (ch_buf c) \<Longrightarrow>
      (\<exists>c'. fmlookup (sl_acks s) (aw_seq w) = Some c' \<and> p \<in> set (ch_buf c')) \<or> held s' p w"
  shows "wait_ok s' w"
proof -
  have "msg_for s' w m" if "m \<in># sy_net s'" for m using net [OF that] msg_for_grow [OF _ g] w by (auto simp: wait_ok_def)
  moreover have "held s' p w" if "fmlookup (sl_acks s') (aw_seq w) = Some c" "p \<in> set (ch_buf c)" for c p
    using acks [OF that] held_grow [OF _ g] w by (auto simp: wait_ok_def)
  moreover have "entry_at (sl_es s') e" if "e \<in> set (m_Entries (aw_msg w))" for e
    using w g that by (auto simp: wait_ok_def sl_grow_def entry_at_append)
  moreover have "\<forall>p \<in> fmdom' (aw_received w). held s' p w" "aw_got w \<and> sy_ids s \<noteq> [] \<longrightarrow> (\<exists>p. held s' p w)"
    using w held_grow [OF _ g] unfolding wait_ok_def by blast+
  moreover have "aw_peers w = sy_ids s' \<and> 1 \<le> aw_seq w \<and> aw_seq w \<le> sl_seq s' \<and> sy_ids s' = sy_ids s"
    using w g by (simp add: wait_ok_def sl_grow_def)
  ultimately show ?thesis by (simp add: wait_ok_def)
qed

lemma sl_inv_grow:
  assumes inv: "sl_inv s" and g: "sl_grow s s'" and l: "leader_ok (sy_leader s')" "bn_peers (sy_leader s') = sy_ids s"
    and a: "\<And>j. j \<in> fmdom' (sl_acks s') \<Longrightarrow> j \<le> sl_seq s'"
    and f: "\<And>i. i \<in> set (sy_ids s) \<Longrightarrow> fol_ok (sl_lid s) (sl_es s) i (sy_fol s i) \<Longrightarrow> fol_ok (sl_lid s) (sl_es s') i (sy_fol s' i)"
    and n: "\<And>m. m \<in># sy_net s' \<Longrightarrow> m \<in># sy_net s \<or> msg_ok s' m"
    and w: "\<And>w. w \<in> set (sy_waits s') \<Longrightarrow> wait_ok s' w"
  shows "sl_inv s'"
proof -
  have ids: "sy_ids s' = sy_ids s" "sl_lid s' = sl_lid s" using g by (simp_all add: sl_grow_def)
  have "msg_ok s' m" if "m \<in># sy_net s'" for m using n [OF that] msg_ok_grow [OF _ g] inv by (auto simp: sl_inv_def)
  moreover have "\<forall>i \<in> set (sy_ids s'). fol_ok (sl_lid s') (sl_es s') i (sy_fol s' i)" using f inv ids by (simp add: sl_inv_def)
  moreover have "distinct (sy_ids s')" "sl_lid s' \<notin> set (sy_ids s')" using inv ids by (simp_all add: sl_inv_def)
  ultimately show ?thesis using l a w ids unfolding sl_inv_def by simp
qed

lemma step_writes:
  assumes inv: "sl_inv s" and wr: "leader_writes (sy_leader s) n' xs w as"
  shows "sl_inv (s\<lparr>sy_leader := n', sy_waits := sy_waits s @ [w], sy_net := sy_net s + mset (sent_of as)\<rparr>)" (is "sl_inv ?s")
proof -
  note i = inv [unfolded sl_inv_def] and d = wr [unfolded leader_writes_def]
  have g: "sl_grow s ?s" using d by (auto simp: sl_grow_def)
  have es: "sl_es ?s = sl_es s @ xs" using d by simp
  have "leader_ok n'" using d by blast
  then have "indexed (rl_entries (bn_log n'))" by (simp add: leader_ok_def plain_log_indexed)
  then have xs: "entry_at (sl_es ?s) e" if "e \<in> set xs" for e using d that by (intro indexed_entry_at) simp_all
  have new: "m_Type m = MsgAppendEntries" "m_SeqNo m = sl_seq s + 1" "m_Entries m = xs" "m_TargetID m \<in> set (sy_ids s)"
    if "m \<in> set (sent_of as)" for m using that d i by auto
  have fresh: "fmlookup (sl_acks s) (sl_seq s + 1) = None" using i by (intro fmdom'_notD) force
  have old: "wait_ok ?s w'" if "w' \<in> set (sy_waits s)" for w'
  proof (rule wait_ok_grow [OF _ g])
    show w': "wait_ok s w'" using i that by blast
    then have q: "aw_seq w' \<le> sl_seq s" by (simp add: wait_ok_def)
    show "m \<in># sy_net s \<or> msg_for ?s w' m" if "m \<in># sy_net ?s" for m using that new [of m] q by (auto simp: msg_for_def)
    show "(\<exists>c'. fmlookup (sl_acks s) (aw_seq w') = Some c' \<and> p \<in> set (ch_buf c')) \<or> held ?s p w'"
      if "fmlookup (sl_acks ?s) (aw_seq w') = Some c" "p \<in> set (ch_buf c)" for c p using that d q by (auto split: if_splits)
  qed
  have "wait_ok ?s w"
  proof -
    have "msg_for ?s w m" if "m \<in># sy_net ?s" for m
    proof (cases "m \<in># sy_net s")
      case True
      then have "msg_ok s m" using i by blast
      then show ?thesis using d by (auto simp: msg_for_def msg_ok_def)
    next
      case False
      then show ?thesis using that new [of m] d by (auto simp: msg_for_def)
    qed
    moreover have "held ?s p w" if "fmlookup (sl_acks ?s) (aw_seq w) = Some c" "p \<in> set (ch_buf c)" for c p
      using that d fresh by auto
    moreover have "aw_peers w = sy_ids s" "aw_seq w = sl_seq s + 1" "aw_received w = fmempty" "aw_got w = (sy_ids s = [])"
      "m_Entries (aw_msg w) = xs" "sl_seq ?s = sl_seq s + 1" using d i by simp_all
    ultimately show ?thesis using xs unfolding wait_ok_def by simp
  qed
  moreover have "msg_ok ?s m" if "m \<in> set (sent_of as)" for m using new [OF that] xs d by (simp add: msg_ok_def)
  moreover have "j \<le> sl_seq ?s" if "j \<in> fmdom' (sl_acks ?s)" for j
  proof -
    have "j \<in> insert (sl_seq s + 1) (fmdom' (sl_acks s))" using that d by auto
    then have "j = sl_seq s + 1 \<or> j \<le> sl_seq s" using i by blast
    then show ?thesis using d by auto
  qed
  moreover have "leader_ok (sy_leader ?s)" "bn_peers (sy_leader ?s) = sy_ids s" using d i by simp_all
  ultimately show ?thesis
    using old fol_ok_append [of "sl_lid s" "sl_es s"] es by (intro sl_inv_grow [OF inv g]) auto
qed

text \<open>The other steps at the leader: no new entry; the acknowledgement channels pass on only what followers sent.\<close>

lemma step_leader:
  assumes inv: "sl_inv s" and l: "leader_ok n'" "rl_entries (bn_log n') = sl_es s" "bn_id n' = sl_lid s" "bn_peers n' = bn_peers (sy_leader s)"
      "sl_seqNo n' = sl_seq s"
    and dom: "fmdom' (sl_ackChs n') \<subseteq> fmdom' (sl_acks s)"
    and net: "\<And>m. m \<in># net \<Longrightarrow> m \<in># sy_net s \<or> m_Type m = MsgAppendEntries \<and> m_SeqNo m = 0 \<and> m_TargetID m \<in> set (sy_ids s) \<and> set (m_Entries m) \<subseteq> set (sl_es s)"
    and acks: "\<And>w j c p. w \<in> set (sy_waits s) \<Longrightarrow> fmlookup (sl_ackChs n') (aw_seq w) = Some c \<Longrightarrow> p \<in> set (ch_buf c) \<Longrightarrow> held s p w"
    and waits: "\<And>w. w \<in> set ws \<Longrightarrow> \<exists>w0 \<in> set (sy_waits s). aw_peers w = aw_peers w0 \<and> aw_seq w = aw_seq w0 \<and> aw_msg w = aw_msg w0 \<and>
      (\<forall>p \<in> fmdom' (aw_received w). held s p w0) \<and> (aw_got w \<and> sy_ids s \<noteq> [] \<longrightarrow> (\<exists>p. held s p w0))"
  shows "sl_inv (s\<lparr>sy_leader := n', sy_waits := ws, sy_net := net\<rparr>)" (is "sl_inv ?s")
proof -
  note i = inv [unfolded sl_inv_def]
  have g: "sl_grow s ?s" using l by (simp add: sl_grow_def)
  have hd: "held ?s = held s" by (intro ext) (simp add: held_def)
  have "indexed (sl_es s)" using i by (simp add: leader_ok_def plain_log_indexed)
  then have es: "entry_at (sl_es s) e" if "e \<in> set (sl_es s)" for e using that by (rule indexed_entry_at)
  have "wait_ok ?s w" if "w \<in> set ws" for w
  proof -
    from waits [OF that] obtain w0 where w0: "w0 \<in> set (sy_waits s)" "aw_peers w = aw_peers w0" "aw_seq w = aw_seq w0" "aw_msg w = aw_msg w0"
      "\<forall>p \<in> fmdom' (aw_received w). held s p w0" "aw_got w \<and> sy_ids s \<noteq> [] \<longrightarrow> (\<exists>p. held s p w0)" by blast
    have ok: "wait_ok s w0" using w0(1) i by blast
    have h: "held s p w = held s p w0" "msg_for s w m = msg_for s w0 m" for p m using w0(3,4) by (simp_all add: held_def msg_for_def)
    have q: "1 \<le> aw_seq w" "\<forall>m \<in># sy_net s. msg_for s w0 m" using ok w0(3) by (simp_all add: wait_ok_def)
    have "msg_for s w m" if "m \<in># net" for m
    proof (cases "m \<in># sy_net s")
      case True
      then show ?thesis using q(2) h(2) by blast
    next
      case False
      then show ?thesis using net [OF that] q(1) by (simp add: msg_for_def)
    qed
    moreover have "msg_for ?s w m = msg_for s w m" for m by (simp add: msg_for_def hd)
    moreover have "held s p w" if "fmlookup (sl_ackChs n') (aw_seq w) = Some c" "p \<in> set (ch_buf c)" for c p
      using acks [OF w0(1)] that w0(3) h by simp
    moreover have "aw_peers w = sy_ids s \<and> aw_seq w \<le> sl_seq s \<and> (\<forall>e \<in> set (m_Entries (aw_msg w)). entry_at (sl_es s) e)"
      using ok w0(2,3,4) by (simp add: wait_ok_def)
    ultimately show ?thesis using w0(5,6) q(1) l(2,5) unfolding wait_ok_def by (simp add: hd h)
  qed
  moreover have "msg_ok ?s m" if "m \<in># net" "m \<notin># sy_net s" for m using net [OF that(1)] that(2) es l by (auto simp: msg_ok_def)
  moreover have "j \<le> sl_seq ?s" if "j \<in> fmdom' (sl_ackChs n')" for j using that dom i l by auto
  ultimately show ?thesis using l i by (intro sl_inv_grow [OF inv g]) auto
qed

lemma step_follower:
  assumes inv: "sl_inv s" and i: "i \<in> set (sy_ids s)" and f: "fol_ok (sl_lid s) (sl_es s) i f'" "\<And>j. holds (sy_fol s i) j \<Longrightarrow> holds f' j"
    and net: "\<And>m. m \<in># net \<Longrightarrow> m \<in># sy_net s \<or> m \<in> range (sync_msg i (sl_lid s)) \<or> (\<exists>q \<le> sl_seq s. m = ack_msg i (sl_lid s) q \<and>
      (\<forall>w \<in> set (sy_waits s). aw_seq w = q \<longrightarrow> (\<forall>e \<in> set (m_Entries (aw_msg w)). holds f' (le_Index e))))"
  shows "sl_inv (s\<lparr>sy_fol := (sy_fol s)(i := f'), sy_net := net\<rparr>)" (is "sl_inv ?s")
proof -
  have g: "sl_grow s ?s" using f(2) by (simp add: sl_grow_def)
  have w: "wait_ok ?s w" if "w \<in> set (sy_waits s)" for w
  proof (rule wait_ok_grow [OF _ g])
    show "wait_ok s w" using inv that by (simp add: sl_inv_def)
    show "m \<in># sy_net s \<or> msg_for ?s w m" if "m \<in># sy_net ?s" for m
    proof -
      have "m \<in># net" using that by simp
      from net [OF this] consider "m \<in># sy_net s" | k where "m = sync_msg i (sl_lid s) k"
        | q where "m = ack_msg i (sl_lid s) q" "aw_seq w = q \<longrightarrow> (\<forall>e \<in> set (m_Entries (aw_msg w)). holds f' (le_Index e))"
        using \<open>w \<in> set (sy_waits s)\<close> by blast
      then show ?thesis using i by cases (auto simp: msg_for_def held_def)
    qed
  qed auto
  have m: "m \<in># sy_net s \<or> msg_ok ?s m" if "m \<in># net" for m
    using net [OF that] i by (auto simp: msg_ok_def)
  show ?thesis
    using inv f(1) w m by (intro sl_inv_grow [OF inv g]) (auto simp: sl_inv_def)
qed

lemma end_spec:
  assumes "finish_call c w n = (n', as, err)"
  shows "leader_ok n \<Longrightarrow> leader_ok n'" "bn_log n' = bn_log n" "bn_id n' = bn_id n" "bn_peers n' = bn_peers n" "sl_seqNo n' = sl_seqNo n"
    "sl_ackChs n' = sl_ackChs n \<or> sl_ackChs n' = fmdrop (aw_seq w) (sl_ackChs n)" "err = snd (awaitReplication_end w n)" "bn_store n' = bn_store n"
proof -
  let ?e = "fst (awaitReplication_end w n)"
  have e: "bn_log ?e = bn_log n" "bn_store ?e = bn_store n" "bn_id ?e = bn_id n" "bn_peers ?e = bn_peers n" "sl_seqNo ?e = sl_seqNo n"
    "sl_ackChs ?e = sl_ackChs n \<or> sl_ackChs ?e = fmdrop (aw_seq w) (sl_ackChs n)"
    by (simp_all add: awaitReplication_end_def split: ReplicationMode.splits)
  have n': "\<exists>mt. n' = ?e\<lparr>bn_metrics := mt\<rparr>" "err = snd (awaitReplication_end w n)"
    using assms by (cases c; auto simp: SingleLeaderNode_Write_finish_def SingleLeaderNode_Delete_finish_def
        SingleLeaderNode_WriteBatch_finish_def split_beta Let_def intro: exI [of _ "bn_metrics ?e"])+
  then show "leader_ok n \<Longrightarrow> leader_ok n'" "bn_log n' = bn_log n" "bn_id n' = bn_id n" "bn_peers n' = bn_peers n" "sl_seqNo n' = sl_seqNo n"
    "sl_ackChs n' = sl_ackChs n \<or> sl_ackChs n' = fmdrop (aw_seq w) (sl_ackChs n)" "err = snd (awaitReplication_end w n)" "bn_store n' = bn_store n"
    using e by (auto simp: leader_ok_def)
qed

lemma step_finish:
  assumes inv: "sl_inv s" and "finish_call c (sy_waits s ! k) (sy_leader s) = (n', as, err)"
  shows "sl_inv (s\<lparr>sy_leader := n', sy_waits := drop_nth k (sy_waits s)\<rparr>)"
proof -
  note e = end_spec [OF assms(2)]
  have w: "wait_ok s w" if "w \<in> set (sy_waits s)" for w using that inv by (simp add: sl_inv_def)
  have "sl_inv (s\<lparr>sy_leader := n', sy_waits := drop_nth k (sy_waits s), sy_net := sy_net s\<rparr>)"
  proof (rule step_leader [OF inv])
    show "leader_ok n'" using e(1) inv by (simp add: sl_inv_def)
    show "fmdom' (sl_ackChs n') \<subseteq> fmdom' (sl_acks s)" using e(6) by auto
    show "held s p w" if "w \<in> set (sy_waits s)" "fmlookup (sl_ackChs n') (aw_seq w) = Some c" "p \<in> set (ch_buf c)" for w c p
      using w [OF that(1)] that e(6) by (auto simp: wait_ok_def split: if_splits)
    show "\<exists>w0 \<in> set (sy_waits s). aw_peers w = aw_peers w0 \<and> aw_seq w = aw_seq w0 \<and> aw_msg w = aw_msg w0 \<and>
      (\<forall>p \<in> fmdom' (aw_received w). held s p w0) \<and> (aw_got w \<and> sy_ids s \<noteq> [] \<longrightarrow> (\<exists>p. held s p w0))"
      if "w \<in> set (drop_nth k (sy_waits s))" for w
    proof -
      have "w \<in> set (sy_waits s)" using that set_drop_nth by fastforce
      then show ?thesis using w [of w] unfolding wait_ok_def by blast
    qed
  qed (use e in simp_all)
  then show ?thesis by simp
qed

lemma step_recv:
  assumes inv: "sl_inv s" and k: "k < length (sy_waits s)" and r: "awaitReplication_recv (sy_waits s ! k) (sy_leader s) = Some (w', n')"
  shows "sl_inv (s\<lparr>sy_leader := n', sy_waits := (sy_waits s)[k := w']\<rparr>)"
proof -
  let ?w = "sy_waits s ! k"
  obtain c senderID rest where c: "fmlookup (sl_acks s) (aw_seq ?w) = Some c" "ch_buf c = senderID # rest"
    and n': "n' = (sy_leader s)\<lparr>sl_ackChs := fmupd (aw_seq ?w) (c\<lparr>ch_buf := rest\<rparr>) (sl_acks s)\<rparr>"
    and w': "w' = (if aw_mode ?w = ModeSync then ?w\<lparr>aw_received := fmupd senderID True (aw_received ?w)\<rparr> else ?w\<lparr>aw_got := True\<rparr>)"
    using r by (auto simp: awaitReplication_recv_def split: if_splits option.splits list.splits)
  have in_w: "?w \<in> set (sy_waits s)" using k by simp
  have w: "wait_ok s w" if "w \<in> set (sy_waits s)" for w using that inv by (simp add: sl_inv_def)
  have snd: "held s senderID ?w" using w [OF in_w] c by (simp add: wait_ok_def)
  have "sl_inv (s\<lparr>sy_leader := n', sy_waits := (sy_waits s)[k := w'], sy_net := sy_net s\<rparr>)"
  proof (rule step_leader [OF inv])
    show "leader_ok n'" using inv n' by (simp add: sl_inv_def leader_ok_def)
    show "fmdom' (sl_ackChs n') \<subseteq> fmdom' (sl_acks s)" using n' c(1) by (auto simp: fmdom'I)
    show "held s p w" if "w \<in> set (sy_waits s)" "fmlookup (sl_ackChs n') (aw_seq w) = Some c'" "p \<in> set (ch_buf c')" for w c' p
    proof -
      have "\<exists>c. fmlookup (sl_acks s) (aw_seq w) = Some c \<and> p \<in> set (ch_buf c)" using that(2,3) n' c by (auto split: if_splits)
      then show ?thesis using w [OF that(1)] unfolding wait_ok_def by blast
    qed
    show "\<exists>w0 \<in> set (sy_waits s). aw_peers w = aw_peers w0 \<and> aw_seq w = aw_seq w0 \<and> aw_msg w = aw_msg w0 \<and>
      (\<forall>p \<in> fmdom' (aw_received w). held s p w0) \<and> (aw_got w \<and> sy_ids s \<noteq> [] \<longrightarrow> (\<exists>p. held s p w0))"
      if "w \<in> set ((sy_waits s)[k := w'])" for w
    proof (cases "w = w'")
      case True
      have "\<forall>p \<in> fmdom' (aw_received ?w). held s p ?w" "aw_got ?w \<and> sy_ids s \<noteq> [] \<longrightarrow> (\<exists>p. held s p ?w)"
        using w [OF in_w] unfolding wait_ok_def by blast+
      then show ?thesis using True w' snd by (intro bexI [OF _ in_w]) auto
    next
      case False
      then have "w \<in> set (sy_waits s)" using that set_update_subset_insert [of "sy_waits s" k w'] by blast
      then show ?thesis using w [of w] unfolding wait_ok_def by blast
    qed
  qed (use n' in simp_all)
  then show ?thesis by simp
qed

lemma handle_ack:
  assumes inv: "sl_inv s" and m: "m \<in># sy_net s" "m_Type m = MsgAppendAck"
    and h: "SingleLeaderNode_HandleMessage m (sy_leader s) = Some (n', as)"
  shows "sl_inv (s\<lparr>sy_leader := n', sy_net := sy_net s - {#m#} + mset (sent_of as)\<rparr>)"
proof -
  note i = inv [unfolded sl_inv_def]
  have w: "wait_ok s w" if "w \<in> set (sy_waits s)" for w using that i by blast
  let ?a = "case fmlookup (sl_acks s) (m_AckIndex m) of None \<Rightarrow> sl_acks s | Some ch \<Rightarrow> fmupd (m_AckIndex m) (chan_try (m_SenderID m) ch) (sl_acks s)"
  have n': "n' = (sy_leader s)\<lparr>sl_ackChs := ?a\<rparr>" "as = []"
    using h m(2) by (auto simp: SingleLeaderNode_HandleMessage_def split: option.splits)
  have held: "held s p w" if "w \<in> set (sy_waits s)" "fmlookup ?a (aw_seq w) = Some c" "p \<in> set (ch_buf c)" for w c p
  proof -
    have "(\<exists>c'. fmlookup (sl_acks s) (aw_seq w) = Some c' \<and> p \<in> set (ch_buf c')) \<or> aw_seq w = m_AckIndex m \<and> p = m_SenderID m"
      using that(2,3) by (auto simp: chan_try_def split: option.splits if_splits)
    then show ?thesis using w [OF that(1)] m unfolding wait_ok_def msg_for_def by auto
  qed
  have dom: "fmdom' ?a \<subseteq> fmdom' (sl_acks s)" by (auto simp: fmdom'I split: option.splits)
  have "sl_inv (s\<lparr>sy_leader := n', sy_waits := sy_waits s, sy_net := sy_net s - {#m#} + mset (sent_of as)\<rparr>)"
  proof (rule step_leader [OF inv])
    show "\<exists>w0 \<in> set (sy_waits s). aw_peers w = aw_peers w0 \<and> aw_seq w = aw_seq w0 \<and> aw_msg w = aw_msg w0 \<and>
      (\<forall>p \<in> fmdom' (aw_received w). held s p w0) \<and> (aw_got w \<and> sy_ids s \<noteq> [] \<longrightarrow> (\<exists>p. held s p w0))"
      if "w \<in> set (sy_waits s)" for w using w [OF that] that unfolding wait_ok_def by blast
    show "held s p w" if "w \<in> set (sy_waits s)" "fmlookup (sl_ackChs n') (aw_seq w) = Some c" "p \<in> set (ch_buf c)" for w c p
      using held [of w c p] that n'(1) by simp
    show "fmdom' (sl_ackChs n') \<subseteq> fmdom' (sl_acks s)" using dom n'(1) by simp
    show "leader_ok n'" using i n'(1) by (simp add: leader_ok_def)
  qed (use n' in \<open>auto dest: in_diffD\<close>)
  then show ?thesis by simp
qed

lemma handle_sync:
  assumes inv: "sl_inv s" and m: "m_Type m = MsgSync" "m_SenderID m \<in> set (sy_ids s)"
    and h: "SingleLeaderNode_HandleMessage m (sy_leader s) = Some (n', as)"
  shows "sl_inv (s\<lparr>sy_leader := n', sy_net := sy_net s - {#m#} + mset (sent_of as)\<rparr>)"
proof -
  note i = inv [unfolded sl_inv_def]
  have w: "wait_ok s w" if "w \<in> set (sy_waits s)" for w using that i by blast
  have "log_inv (bn_log (sy_leader s))" using i by (simp add: leader_ok_def plain_log_def)
  note get = GetFrom_at [OF this, of "m_AckIndex m"]
  have n': "n' = sy_leader s" using h m get by (auto simp: SingleLeaderNode_HandleMessage_def split: if_splits)
  have as: "m_Type x = MsgAppendEntries \<and> m_SeqNo x = 0 \<and> m_TargetID x \<in> set (sy_ids s) \<and> set (m_Entries x) \<subseteq> set (sl_es s)"
    if "x \<in> set (sent_of as)" for x
    using that h m get by (auto simp: SingleLeaderNode_HandleMessage_def msg_of_def split: if_splits dest: in_set_dropD)
  have "sl_inv (s\<lparr>sy_leader := n', sy_waits := sy_waits s, sy_net := sy_net s - {#m#} + mset (sent_of as)\<rparr>)"
  proof (rule step_leader [OF inv])
    show "x \<in># sy_net s \<or> m_Type x = MsgAppendEntries \<and> m_SeqNo x = 0 \<and> m_TargetID x \<in> set (sy_ids s) \<and> set (m_Entries x) \<subseteq> set (sl_es s)"
      if "x \<in># sy_net s - {#m#} + mset (sent_of as)" for x using that as [of x] by (auto dest: in_diffD)
    show "\<exists>w0 \<in> set (sy_waits s). aw_peers w = aw_peers w0 \<and> aw_seq w = aw_seq w0 \<and> aw_msg w = aw_msg w0 \<and>
      (\<forall>p \<in> fmdom' (aw_received w). held s p w0) \<and> (aw_got w \<and> sy_ids s \<noteq> [] \<longrightarrow> (\<exists>p. held s p w0))"
      if "w \<in> set (sy_waits s)" for w using w [OF that] that unfolding wait_ok_def by blast
    show "held s p w" if "w \<in> set (sy_waits s)" "fmlookup (sl_ackChs n') (aw_seq w) = Some c" "p \<in> set (ch_buf c)" for w c p
      using w [OF that(1)] that n' unfolding wait_ok_def by blast
  qed (use n' i in simp_all)
  then show ?thesis by simp
qed

lemma step_fdeliver:
  assumes inv: "sl_inv s" and m: "m \<in># sy_net s" "m_TargetID m \<in> set (sy_ids s)"
    and h: "FollowerNode_HandleMessage now m (sy_fol s (m_TargetID m)) = (f', as)"
  shows "sl_inv (s\<lparr>sy_fol := (sy_fol s)(m_TargetID m := f'), sy_net := sy_net s - {#m#} + mset (sent_of as)\<rparr>)"
proof -
  note i = inv [unfolded sl_inv_def]
  let ?i = "m_TargetID m" and ?f = "sy_fol s (m_TargetID m)"
  have fo: "fol_ok (sl_lid s) (sl_es s) ?i ?f" using i m(2) by blast
  have "msg_ok s m" using m(1) i by blast
  then have t: "m_Type m = MsgAppendEntries" "m_SeqNo m \<le> sl_seq s" "\<forall>e \<in> set (m_Entries m). entry_at (sl_es s) e"
    using m(2) i by (auto simp: msg_ok_def)
  show ?thesis
  proof (cases "BaseNode_isPaused ?f")
    case True
    then have "f' = ?f" "as = []" using h by (simp_all add: FollowerNode_HandleMessage_def)
    then show ?thesis using fo by (intro step_follower [OF inv m(2)]) (auto dest: in_diffD)
  next
    case False
    then have a: "FollowerNode_applyEntries now m ?f = (f', as)" using h t(1) by (simp add: FollowerNode_HandleMessage_def)
    note sp = applyEntries_spec [OF fo t(3) a]
    have same: "m_Entries m = m_Entries (aw_msg w)" if "w \<in> set (sy_waits s)" "aw_seq w = m_SeqNo m" for w
    proof -
      have "wait_ok s w" using that(1) i by blast
      then have "msg_for s w m" using m(1) unfolding wait_ok_def by blast
      then show ?thesis using that(2) t(1) by (simp add: msg_for_def)
    qed
    have "x \<in> range (sync_msg ?i (sl_lid s)) \<or> (\<exists>q \<le> sl_seq s. x = ack_msg ?i (sl_lid s) q \<and>
      (\<forall>w \<in> set (sy_waits s). aw_seq w = q \<longrightarrow> (\<forall>e \<in> set (m_Entries (aw_msg w)). holds f' (le_Index e))))" if "x \<in> set (sent_of as)" for x
    proof -
      have "x = ack_msg ?i (sl_lid s) (m_SeqNo m) \<or> x \<in> range (sync_msg ?i (sl_lid s))" using that sp(5) by blast
      then show ?thesis using t(2) same sp(3) by metis
    qed
    then show ?thesis using sp(1,2) by (intro step_follower [OF inv m(2)]) (auto dest: in_diffD)
  qed
qed

lemma sl_inv_step: "sl_step s s' \<Longrightarrow> sl_inv s \<Longrightarrow> sl_inv s'"
proof (induction rule: sl_step.induct)
  case (lcall c s n' ws as)
  have l: "leader_ok (sy_leader s)" using lcall(2) by (simp add: sl_inv_def)
  show ?case
  proof (cases rule: leader_call_spec [OF l lcall(1)])
    case 1
    then show ?thesis
      using lcall(2) by (intro sl_inv_grow [OF lcall(2)]) (auto simp: sl_inv_def sl_grow_def leader_same_def intro: wait_ok_grow)
  next
    case (2 w xs)
    then show ?thesis using step_writes [OF lcall(2)] by simp
  qed
next
  case (recv k s w' n')
  then show ?case using step_recv by blast
next
  case (finish k s c n' as err)
  then show ?case using step_finish by blast
next
  case (ldeliver m s n' as)
  have "msg_ok s m" using ldeliver(1,4) by (simp add: sl_inv_def)
  then have "m_Type m = MsgAppendAck \<or> m_Type m = MsgSync \<and> m_SenderID m \<in> set (sy_ids s)"
    using ldeliver(2,4) by (auto simp: msg_ok_def sl_inv_def)
  then show ?case using handle_ack [OF ldeliver(4,1) _ ldeliver(3)] handle_sync [OF ldeliver(4) _ _ ldeliver(3)] by blast
next
  case (fcall i s c f' as)
  have fo: "fol_ok (sl_lid s) (sl_es s) i (sy_fol s i)" using fcall(1,3) by (simp add: sl_inv_def)
  note sp = follower_call_spec [OF fcall(2) fo]
  show ?case using sp(1,2,3) by (intro step_follower [OF fcall(3,1)]) auto
next
  case (fdeliver m s now f' as)
  then show ?case using step_fdeliver by blast
next
  case (lose s m)
  let ?s = "s\<lparr>sy_net := sy_net s - {#m#}\<rparr>"
  have g: "sl_grow s ?s" by (simp add: sl_grow_def)
  have "wait_ok ?s w" if "w \<in> set (sy_waits s)" for w
    by (rule wait_ok_grow [OF _ g]) (use lose that in \<open>auto simp: sl_inv_def dest: in_diffD\<close>)
  then show ?case using lose by (intro sl_inv_grow [OF lose g]) (auto simp: sl_inv_def dest: in_diffD)
qed

lemma sl_inv_init:
  assumes "distinct ids" and "lid \<notin> set ids"
  shows "sl_inv (init_sl cid lid mode ids)"
proof -
  let ?n = "NewSingleLeaderNode lid cid mode"
  have l: "sy_leader (init_sl cid lid mode ids) = ?n\<lparr>bn_peers := ids\<rparr>"
    using fold_AddPeer_distinct [OF assms(1), of "[]"]
    by (simp add: init_sl_def fold_AddPeer NewSingleLeaderNode_def newBaseNode_def BaseNode.defs)
  have n: "bn_id ?n = lid" "bn_log ?n = NewReplicationLog" "bn_store ?n = NewStore" "sl_ackChs ?n = fmempty" "sl_seqNo ?n = 0"
    by (simp_all add: NewSingleLeaderNode_def newBaseNode_def BaseNode.defs SingleLeaderNode.defs)
  have e: "rl_entries NewReplicationLog = []" by (simp add: NewReplicationLog_def)
  have "leader_ok (?n\<lparr>bn_peers := ids\<rparr>)" using n e by (simp add: leader_ok_def same_view_def replay_def)
  moreover have "fol_ok lid [] i (NewFollowerNode i cid lid)" for i
    using e by (simp add: fol_ok_def NewFollowerNode_def newBaseNode_def BaseNode.defs FollowerNode.defs replay_def)
  ultimately show ?thesis using assms n e unfolding sl_inv_def l by (simp add: init_sl_def)
qed

lemma sl_inv_reach:
  assumes "distinct ids" and "lid \<notin> set ids" and "sl_step\<^sup>*\<^sup>* (init_sl cid lid mode ids) s"
  shows "sl_inv s \<and> sy_ids s = ids"
  using assms(3)
proof (induction rule: rtranclp_induct)
  case base
  then show ?case using sl_inv_init [OF assms(1,2)] by (simp add: init_sl_def)
next
  case (step s s')
  then show ?case using sl_inv_step [OF step(2)] by (auto elim: sl_step.cases)
qed

section \<open>Executable runs\<close>

text \<open>A schedule with the messages in flight as a list, the newest last; an event names a message or a wait by its position.\<close>

datatype SLEvent = VLeader LeaderCall | VRecv nat | VFinish nat Finish | VFollower node_id FollowerCall | VDeliver int nat | VLose nat

fun sl_event :: "SLEvent \<Rightarrow> SLSys \<times> Message list \<Rightarrow> (SLSys \<times> Message list) option" where
  "sl_event (VLeader c) (s, ms) =
     (case leader_call c (sy_leader s) of None \<Rightarrow> None
      | Some (n', ws, as) \<Rightarrow> Some (s\<lparr>sy_leader := n', sy_waits := sy_waits s @ ws\<rparr>, ms @ sent_of as))"
| "sl_event (VRecv k) (s, ms) =
     (if k < length (sy_waits s)
      then case awaitReplication_recv (sy_waits s ! k) (sy_leader s) of None \<Rightarrow> None
           | Some (w', n') \<Rightarrow> Some (s\<lparr>sy_leader := n', sy_waits := (sy_waits s)[k := w']\<rparr>, ms)
      else None)"
| "sl_event (VFinish k c) (s, ms) =
     (if k < length (sy_waits s)
      then case finish_call c (sy_waits s ! k) (sy_leader s) of
             (n', as, err) \<Rightarrow> Some (s\<lparr>sy_leader := n', sy_waits := drop_nth k (sy_waits s)\<rparr>, ms)
      else None)"
| "sl_event (VFollower i c) (s, ms) =
     (if i \<in> set (sy_ids s)
      then case follower_call c (sy_fol s i) of None \<Rightarrow> None
           | Some (f', as) \<Rightarrow> Some (s\<lparr>sy_fol := (sy_fol s)(i := f')\<rparr>, ms @ sent_of as)
      else None)"
| "sl_event (VDeliver now k) (s, ms) =
     (if k \<ge> length ms then None
      else if m_TargetID (ms ! k) = bn_id (sy_leader s)
      then case SingleLeaderNode_HandleMessage (ms ! k) (sy_leader s) of None \<Rightarrow> None
           | Some (n', as) \<Rightarrow> Some (s\<lparr>sy_leader := n'\<rparr>, drop_nth k ms @ sent_of as)
      else if m_TargetID (ms ! k) \<in> set (sy_ids s)
      then case FollowerNode_HandleMessage now (ms ! k) (sy_fol s (m_TargetID (ms ! k))) of
             (f', as) \<Rightarrow> Some (s\<lparr>sy_fol := (sy_fol s)(m_TargetID (ms ! k) := f')\<rparr>, drop_nth k ms @ sent_of as)
      else None)"
| "sl_event (VLose k) (s, ms) = (if k < length ms then Some (s, drop_nth k ms) else None)"

fun sl_exec :: "SLEvent list \<Rightarrow> SLSys \<times> Message list \<Rightarrow> (SLSys \<times> Message list) option" where
  "sl_exec [] x = Some x"
| "sl_exec (e # es) x = Option.bind (sl_event e x) (sl_exec es)"

abbreviation with_net :: "Message list \<Rightarrow> SLSys \<Rightarrow> SLSys" where
  "with_net ms s \<equiv> s\<lparr>sy_net := mset ms\<rparr>"

lemma sl_event_step:
  assumes "sl_event e (s, ms) = Some (s', ms')"
  shows "sl_step (with_net ms s) (with_net ms' s')"
proof (cases e)
  case (VLeader c)
  then obtain n' ws as where "leader_call c (sy_leader s) = Some (n', ws, as)" "s' = s\<lparr>sy_leader := n', sy_waits := sy_waits s @ ws\<rparr>" "ms' = ms @ sent_of as"
    using assms by (auto split: option.splits)
  then show ?thesis using sl_step.lcall [of c "with_net ms s" n' ws as] by simp
next
  case (VRecv k)
  then obtain w' n' where "k < length (sy_waits s)" "awaitReplication_recv (sy_waits s ! k) (sy_leader s) = Some (w', n')"
      "s' = s\<lparr>sy_leader := n', sy_waits := (sy_waits s)[k := w']\<rparr>" "ms' = ms"
    using assms by (auto split: option.splits if_splits)
  then show ?thesis using sl_step.recv [of k "with_net ms s" w' n'] by (cases s) simp
next
  case (VFinish k c)
  obtain n' as err where f: "finish_call c (sy_waits s ! k) (sy_leader s) = (n', as, err)" by (metis prod_cases3)
  then have "k < length (sy_waits s)" "s' = s\<lparr>sy_leader := n', sy_waits := drop_nth k (sy_waits s)\<rparr>" "ms' = ms"
    using assms VFinish by (auto split: if_splits)
  then show ?thesis using sl_step.finish [of k "with_net ms s" c n' as err] f by (cases s) simp
next
  case (VFollower i c)
  then obtain f' as where "i \<in> set (sy_ids s)" "follower_call c (sy_fol s i) = Some (f', as)" "s' = s\<lparr>sy_fol := (sy_fol s)(i := f')\<rparr>"
      "ms' = ms @ sent_of as" using assms by (auto split: option.splits if_splits)
  then show ?thesis using sl_step.fcall [of i "with_net ms s" c f' as] by simp
next
  case (VDeliver now k)
  then have k: "k < length ms" using assms by (auto split: if_splits)
  let ?m = "ms ! k"
  show ?thesis
  proof (cases "m_TargetID ?m = bn_id (sy_leader s)")
    case True
    then obtain n' as where "SingleLeaderNode_HandleMessage ?m (sy_leader s) = Some (n', as)" "s' = s\<lparr>sy_leader := n'\<rparr>" "ms' = drop_nth k ms @ sent_of as"
      using assms VDeliver k by (auto split: option.splits)
    then show ?thesis using sl_step.ldeliver [of ?m "with_net ms s" n' as] k True mset_drop_nth [OF k] by simp
  next
    case False
    obtain f' as where f: "FollowerNode_HandleMessage now ?m (sy_fol s (m_TargetID ?m)) = (f', as)" by fastforce
    then have "m_TargetID ?m \<in> set (sy_ids s)" "s' = s\<lparr>sy_fol := (sy_fol s)(m_TargetID ?m := f')\<rparr>" "ms' = drop_nth k ms @ sent_of as"
      using assms VDeliver k False by (auto split: if_splits)
    then show ?thesis using sl_step.fdeliver [of ?m "with_net ms s" now f' as] k f mset_drop_nth [OF k] by simp
  qed
next
  case (VLose k)
  then show ?thesis using assms sl_step.lose [of "with_net ms s" "ms ! k"] mset_drop_nth [of k ms] by (auto split: if_splits)
qed

lemma sl_exec_steps: "sl_exec es (s, ms) = Some (s', ms') \<Longrightarrow> sl_step\<^sup>*\<^sup>* (with_net ms s) (with_net ms' s')"
proof (induction es arbitrary: s ms)
  case (Cons e es)
  then obtain s1 ms1 where "sl_event e (s, ms) = Some (s1, ms1)" "sl_exec es (s1, ms1) = Some (s', ms')"
    by (auto simp: Option.bind_eq_Some_conv)
  then show ?case using Cons.IH sl_event_step by (meson converse_rtranclp_into_rtranclp)
qed simp

definition sl_end :: "(SLSys \<times> Message list) option \<Rightarrow> SLSys" where
  "sl_end r = with_net (snd (the r)) (fst (the r))"

lemma sl_exec_reach:
  assumes "sl_exec es (init_sl cid lid mode ids, []) \<noteq> None"
  shows "sl_step\<^sup>*\<^sup>* (init_sl cid lid mode ids) (sl_end (sl_exec es (init_sl cid lid mode ids, [])))"
proof -
  obtain s ms where r: "sl_exec es (init_sl cid lid mode ids, []) = Some (s, ms)" using assms by auto
  have "with_net [] (init_sl cid lid mode ids) = init_sl cid lid mode ids" by (simp add: init_sl_def)
  then show ?thesis using sl_exec_steps [OF r] r by (simp add: sl_end_def)
qed

section \<open>Properties\<close>


text \<open>A batch of two writes and a delete; the first message to \<open>a\<close> is late, and \<open>b\<close> has only the batch.\<close>

definition demo_sl_end :: "SLSys" where
  "demo_sl_end = sl_end (sl_exec [VLeader (LBatch [(1, ''x'', Some ''1''), (2, ''y'', Some ''2'')] ''c''), VLeader (LDelete 3 ''x''),
     VDeliver 4 2, VDeliver 5 1] (init_sl ''k'' ''L'' ModeSync [''a'', ''b''], []))"

lemma demo_sl_reach: "sl_step\<^sup>*\<^sup>* (init_sl ''k'' ''L'' ModeSync [''a'', ''b'']) demo_sl_end"
  unfolding demo_sl_end_def by (rule sl_exec_reach) code_simp


definition stored_at :: "FollowerNode \<Rightarrow> LogEntry \<Rightarrow> bool" where
  "stored_at f e \<longleftrightarrow> log_at (bn_log f) (le_Index e) = Some e \<or> fmlookup (fo_pending f) (le_Index e) = Some e"

lemma held_stored:
  assumes inv: "sl_inv s" and w: "w \<in> set (sy_waits s)" and h: "held s p w" and e: "e \<in> set (m_Entries (aw_msg w))"
  shows "stored_at (sy_fol s p) e"
proof -
  let ?f = "sy_fol s p"
  have p: "p \<in> set (sy_ids s)" "holds ?f (le_Index e)" using h e by (simp_all add: held_def)
  then have f: "fol_ok (sl_lid s) (sl_es s) p ?f" using inv by (simp add: sl_inv_def)
  have "entry_at (sl_es s) e" using inv w e by (simp add: sl_inv_def wait_ok_def)
  then have at: "1 \<le> le_Index e" "le_Index e \<le> length (sl_es s)" "sl_es s ! (le_Index e - 1) = e" by (auto simp: entry_at_def)
  from p(2) consider "le_Index e \<le> fo_applied ?f" | x where "fmlookup (fo_pending ?f) (le_Index e) = Some x"
    unfolding holds_def by (auto simp: fmlookup_dom'_iff)
  then show ?thesis
  proof cases
    case 1
    have l: "plain_log (bn_log ?f)" "rl_entries (bn_log ?f) = take (fo_applied ?f) (sl_es s)" "fo_applied ?f \<le> length (sl_es s)"
      using f by (simp_all add: fol_ok_def)
    then have "log_at (bn_log ?f) (le_Index e) = Some e"
      using 1 at plain_log_indexed [OF l(1)] by (simp add: log_at_def plain_log_def min_def)
    then show ?thesis by (simp add: stored_at_def)
  next
    case 2
    then have "le_Index x = le_Index e" "entry_at (sl_es s) x" using f by (auto simp: fol_ok_def)
    then have "x = e" using at by (simp add: entry_at_def)
    then show ?thesis using 2 by (simp add: stored_at_def)
  qed
qed

text \<open>C6. A synchronous write, delete or batch that returns without an error is stored at every follower, and a
  semi-synchronous one at some follower, in its log or in the buffer of entries that wait for a gap to close.\<close>

theorem sync_write_durable:
  assumes "distinct ids" and "lid \<notin> set ids" and "sl_step\<^sup>*\<^sup>* (init_sl cid lid mode ids) s" and "w \<in> set (sy_waits s)"
    and "finish_call c w (sy_leader s) = (n', as, None)"
  shows "(aw_mode w = ModeSync \<longrightarrow> (\<forall>p \<in> set ids. \<forall>e \<in> set (m_Entries (aw_msg w)). stored_at (sy_fol s p) e)) \<and>
    (aw_mode w = ModeSemiSync \<and> ids \<noteq> [] \<longrightarrow> (\<exists>p \<in> set ids. \<forall>e \<in> set (m_Entries (aw_msg w)). stored_at (sy_fol s p) e))"
proof -
  have inv: "sl_inv s" "sy_ids s = ids" using sl_inv_reach [OF assms(1-3)] by simp_all
  then have ok: "wait_ok s w" using assms(4) by (simp add: sl_inv_def)
  have err: "snd (awaitReplication_end w (sy_leader s)) = None" using end_spec(7) [OF assms(5)] by simp
  note st = held_stored [OF inv(1) assms(4)]
  have "\<forall>p \<in> set ids. held s p w" if "aw_mode w = ModeSync"
  proof -
    have "length ids \<le> go_len (aw_received w)"
      using err that ok inv(2) by (auto simp: awaitReplication_end_def wait_ok_def split: if_splits)
    moreover have "go_len (aw_received w) = card (fmdom' (aw_received w))" by (simp add: go_len_def fcard.rep_eq fmdom'_alt_def)
    moreover have "fmdom' (aw_received w) \<subseteq> set ids" using ok inv(2) by (auto simp: wait_ok_def held_def)
    moreover have "card (set ids) = length ids" using assms(1) by (rule distinct_card)
    ultimately have "fmdom' (aw_received w) = set ids" by (intro card_seteq) simp_all
    then show ?thesis using ok by (auto simp: wait_ok_def)
  qed
  moreover have "\<exists>p. held s p w" if "aw_mode w = ModeSemiSync" "ids \<noteq> []"
    using err that ok inv(2) by (auto simp: awaitReplication_end_def wait_ok_def split: if_splits)
  moreover have "p \<in> set ids" if "held s p w" for p using that inv(2) by (simp add: held_def)
  ultimately show ?thesis using st by meson
qed

text \<open>Both followers acknowledge the delete, \<open>a\<close> out of its buffer: the delete succeeds although \<open>a\<close> has applied nothing.\<close>

definition demo_sync_end :: "SLSys" where
  "demo_sync_end = sl_end (sl_exec [VLeader (LBatch [(1, ''x'', Some ''1''), (2, ''y'', Some ''2'')] ''c''), VLeader (LDelete 3 ''x''),
     VDeliver 4 2, VDeliver 5 1, VDeliver 6 1, VDeliver 7 1, VDeliver 8 3, VRecv 1, VRecv 1] (init_sl ''k'' ''L'' ModeSync [''a'', ''b''], []))"

lemma demo_sync_reach: "sl_step\<^sup>*\<^sup>* (init_sl ''k'' ''L'' ModeSync [''a'', ''b'']) demo_sync_end"
  unfolding demo_sync_end_def by (rule sl_exec_reach) code_simp

theorem sync_write_durable_witness:
  "snd (snd (finish_call (FinDelete 9 ''x'' 3) (sy_waits demo_sync_end ! 1) (sy_leader demo_sync_end))) = None \<and>
   stored_at (sy_fol demo_sync_end ''a'') (Log_Snapshot (bn_log (sy_leader demo_sync_end)) ! 2) \<and>
   stored_at (sy_fol demo_sync_end ''b'') (Log_Snapshot (bn_log (sy_leader demo_sync_end)) ! 2) \<and>
   fo_applied (sy_fol demo_sync_end ''a'') = 0"
proof -
  let ?w = "sy_waits demo_sync_end ! 1" and ?r = "finish_call (FinDelete 9 ''x'' 3) (sy_waits demo_sync_end ! 1) (sy_leader demo_sync_end)"
  have err: "snd (snd ?r) = None" by code_simp
  then have r: "?r = (fst ?r, fst (snd ?r), None)" by (simp add: prod_eq_iff)
  have "length (sy_waits demo_sync_end) = 2" by code_simp
  then have w: "?w \<in> set (sy_waits demo_sync_end)" by simp
  have d: "distinct [''a'', ''b'']" "''L'' \<notin> set [''a'', ''b'']" by simp_all
  note t = sync_write_durable [OF d demo_sync_reach w r]
  have "aw_mode ?w = ModeSync" by code_simp
  moreover have "m_Entries (aw_msg ?w) = [Log_Snapshot (bn_log (sy_leader demo_sync_end)) ! 2]" by code_simp
  moreover have "fo_applied (sy_fol demo_sync_end ''a'') = 0" by code_simp
  ultimately show ?thesis using t err by simp
qed

lemma catch_up_index:
  assumes "fol_ok lid es i f'" and hf: "\<And>j. holds f j \<Longrightarrow> holds f' j" and none: "fmlookup (fo_pending f') (fo_applied f' + 1) = None"
    and rest: "\<And>e. e \<in> set (drop (fo_applied f) es) \<Longrightarrow> holds f' (le_Index e)" and idx: "indexed es"
  shows "fo_applied f' = length es"
proof (rule ccontr)
  let ?j = "fo_applied f'"
  assume "?j \<noteq> length es"
  then have j: "?j < length es" using assms(1) by (simp add: fol_ok_def)
  have "holds f' (?j + 1)"
  proof (cases "?j + 1 \<le> fo_applied f")
    case True
    then show ?thesis by (intro hf) (simp add: holds_def)
  next
    case False
    then have "es ! ?j \<in> set (drop (fo_applied f) es)" using j
      by (auto simp: in_set_conv_nth intro!: exI [of _ "?j - fo_applied f"])
    then show ?thesis using rest [of "es ! ?j"] idx j by (simp add: indexed_def)
  qed
  then show False using none by (simp add: holds_def fmlookup_dom'_iff)
qed

text \<open>C7. A follower catches up: whatever was lost before, if a follower that is not paused sends the request of its periodic
  tick, the leader answers it and the answer arrives, then the follower has applied the leader's whole log
  and answers every read as the leader does. If the leader has nothing to send, the follower had done so already.\<close>

theorem follower_catches_up:
  assumes "distinct ids" and "lid \<notin> set ids" and "sl_step\<^sup>*\<^sup>* (init_sl cid lid mode ids) s" and "i \<in> set ids"
    and "\<not> BaseNode_isPaused (sy_fol s i)"
  shows "\<exists>m as. sent_of (FollowerNode_syncTick (sy_fol s i)) = [m] \<and> SingleLeaderNode_HandleMessage m (sy_leader s) = Some (sy_leader s, as) \<and>
    (let f' = fold (\<lambda>r f. fst (FollowerNode_HandleMessage now r f)) (sent_of as) (sy_fol s i)
     in fo_applied f' = Log_LastIndex (bn_log (sy_leader s)) \<and> Store_Get (bn_store f') key = Store_Get (bn_store (sy_leader s)) key)"
proof -
  let ?f = "sy_fol s i" and ?l = "sy_leader s" and ?es = "sl_es s"
  have inv: "sl_inv s" "sy_ids s = ids" using sl_inv_reach [OF assms(1-3)] by simp_all
  then have f: "fol_ok (sl_lid s) ?es i ?f" and l: "leader_ok ?l" using assms(4) by (simp_all add: sl_inv_def)
  have pl: "plain_log (bn_log ?l)" using l by (simp add: leader_ok_def)
  then have last: "Log_LastIndex (bn_log ?l) = length ?es" "log_inv (bn_log ?l)" "rl_snapshotIndex (bn_log ?l) = 0"
    using plain_log_indexed [OF pl] by (simp_all add: Log_LastIndex_def plain_log_def)
  have eq: "Store_Get (bn_store f') key = Store_Get (bn_store ?l) key" if "fol_ok (sl_lid s) ?es i f'" "fo_applied f' = length ?es" for f'
    using that l by (simp add: fol_ok_def leader_ok_def same_view_def)
  let ?m = "sync_msg i (sl_lid s) (fo_applied ?f + 1)" and ?d = "drop (fo_applied ?f) ?es"
  let ?r = "(msg_of MsgAppendEntries (sl_lid s) i)\<lparr>m_Entries := ?d, m_AckIndex := Log_LastIndex (bn_log ?l)\<rparr>"
  have tick: "sent_of (FollowerNode_syncTick ?f) = [?m]"
    using assms(5) f by (simp add: FollowerNode_syncTick_def FollowerNode_requestSync_def sync_msg_def fol_ok_def)
  have reply: "SingleLeaderNode_HandleMessage ?m ?l = Some (?l, if ?d = [] then [] else [Send ?r])"
    using GetFrom_at [OF last(2)] last(3) by (simp add: SingleLeaderNode_HandleMessage_def)
  show ?thesis
  proof (cases "?d = []")
    case True
    then have "fo_applied ?f = length ?es" using f by (simp add: fol_ok_def)
    then show ?thesis using tick reply True eq [OF f] last(1) by (intro exI [of _ ?m] exI [of _ "[]"]) simp
  next
    case False
    obtain f' as where a: "FollowerNode_applyEntries now ?r ?f = (f', as)" by fastforce
    have es: "\<forall>e \<in> set (m_Entries ?r). entry_at ?es e"
      using plain_log_indexed [OF pl] by (auto dest: in_set_dropD intro: indexed_entry_at)
    note sp = applyEntries_spec [OF f es a]
    have "fo_applied f' = length ?es"
      by (rule catch_up_index [OF sp(1,2,4)]) (use sp(3) plain_log_indexed [OF pl] in simp_all)
    then show ?thesis
      using tick reply False eq [OF sp(1)] last(1) a assms(5)
      by (intro exI [of _ ?m] exI [of _ "[Send ?r]"]) (simp add: FollowerNode_HandleMessage_def msg_of_def)
  qed
qed

theorem follower_catches_up_witness:
  "fo_applied (sy_fol demo_sl_end ''a'') = 0 \<and>
   (\<exists>m as. sent_of (FollowerNode_syncTick (sy_fol demo_sl_end ''a'')) = [m] \<and>
      SingleLeaderNode_HandleMessage m (sy_leader demo_sl_end) = Some (sy_leader demo_sl_end, as) \<and>
      (let f' = fold (\<lambda>r f. fst (FollowerNode_HandleMessage 9 r f)) (sent_of as) (sy_fol demo_sl_end ''a'')
       in fo_applied f' = 3 \<and> Store_Get (bn_store f') ''y'' = Store_Get (bn_store (sy_leader demo_sl_end)) ''y''))"
proof -
  have v: "fo_applied (sy_fol demo_sl_end ''a'') = 0 \<and> \<not> BaseNode_isPaused (sy_fol demo_sl_end ''a'') \<and> Log_LastIndex (bn_log (sy_leader demo_sl_end)) = 3"
    by code_simp
  have d: "distinct [''a'', ''b'']" "''L'' \<notin> set [''a'', ''b'']" "''a'' \<in> set [''a'', ''b'']" by simp_all
  show ?thesis using follower_catches_up [OF d(1,2) demo_sl_reach d(3), of 9 "''y''"] v by simp
qed


end
