(* ===== verification/MultiLeader.thy ===== *)
theory MultiLeader
  imports NodeBase Conflict
begin

text \<open>
  The multi-leader node, \<open>internal/node/multileader.go\<close>. Every node takes writes, replicates the stored entries
  and reconciles what it receives by vector clocks. Writes and remote applies of one node exclude each
  other (\<open>applyMu\<close>), so each method is one step. The identifier \<open>uuid.New()\<close>, the wall clock, the
  measured latencies and the codec of the CRDT values are arguments. The event of a resolved conflict
  leaves out the text of the reason.
\<close>

record MultiLeaderNode = BaseNode +
  ml_resolver :: ConflictResolver
  ml_conflicts :: "Conflict list"
  ml_resolutions :: "Resolution list"
  ml_pending :: "(string, Conflict) fmap"

text \<open>A nil resolver is replaced by last-write-wins.\<close>

definition NewMultiLeaderNode :: "node_id \<Rightarrow> string \<Rightarrow> ConflictResolver option \<Rightarrow> MultiLeaderNode" where
  "NewMultiLeaderNode i clusterID resolver =
     BaseNode.extend (newBaseNode i clusterID StrategyMultiLeader RolePrimary)
       (MultiLeaderNode.fields (case resolver of None \<Rightarrow> LWWResolver | Some r \<Rightarrow> r) [] [] fmempty)"

text \<open>One tick of \<open>runAntiEntropy\<close>; the order of the entries is that of a range loop.\<close>

definition MultiLeaderNode_antiEntropyTick :: "MultiLeaderNode \<Rightarrow> Action list" where
  "MultiLeaderNode_antiEntropyTick n =
     (if BaseNode_isPaused n then []
      else (let entries = Store_Snapshot (bn_store n); peers = BaseNode_GetPeers n
            in go_range (\<lambda>key entry as. as @ broadcast ((msg_of MsgWrite (bn_id n) [])\<lparr>m_Entry := Some entry\<rparr>) peers) entries []))"

definition replicated_event :: "int \<Rightarrow> KVEntry \<Rightarrow> MultiLeaderNode \<Rightarrow> Action" where
  "replicated_event now remote n =
     BaseNode_publishEvent now EvtEntryReplicated
       (fmap_of_list [(''key'', EStr (kv_Key remote)), (''origin'', EStr (kv_NodeID remote))]) n"

fun resolver_string :: "ResolverType \<Rightarrow> string" where
  "resolver_string ResolverLWW = ''lww''"
| "resolver_string ResolverVectorClock = ''vector_clock''"
| "resolver_string ResolverCRDT = ''crdt''"
| "resolver_string ResolverManual = ''manual''"

text \<open>The conflict branch of \<open>receiveRemoteWrite\<close>: record it, then park it or resolve it.\<close>

definition detect_conflict :: "string \<Rightarrow> int \<Rightarrow> KVEntry \<Rightarrow> KVEntry \<Rightarrow> MultiLeaderNode \<Rightarrow> Conflict \<times> MultiLeaderNode \<times> Action list" where
  "detect_conflict uid now local remote n =
     (let c = \<lparr>cf_ID = uid, cf_Key = kv_Key remote, cf_Local = local, cf_Remote = remote, cf_DetectedAt = now,
               cf_NodeID = bn_id n, cf_ClusterID = bn_clusterID n\<rparr>;
          n1 = n\<lparr>ml_conflicts := ml_conflicts n @ [c], bn_metrics := NodeMetrics_RecordConflict now (bn_metrics n)\<rparr>
      in (c, n1, [BaseNode_publishEvent now EvtConflictDetected
           (fmap_of_list [(''conflict_id'', EStr (cf_ID c)), (''key'', EStr (cf_Key c)), (''local_ts'', ENum (kv_Timestamp local)),
              (''remote_ts'', ENum (kv_Timestamp remote)), (''local_node'', EStr (kv_NodeID local)), (''remote_node'', EStr (kv_NodeID remote)),
              (''local_vc'', EClock (kv_VClock local)), (''remote_vc'', EClock (kv_VClock remote))]) n1]))"

definition resolve_conflict :: "CrdtCodec \<Rightarrow> int \<Rightarrow> Conflict \<Rightarrow> MultiLeaderNode \<Rightarrow> MultiLeaderNode \<times> Action list" where
  "resolve_conflict cc now c n =
     (let resolution = Resolve cc (ml_resolver n) now c;
          n1 = n\<lparr>ml_resolutions := ml_resolutions n @ [resolution]\<rparr>;
          merged = VectorClock_Merge (VectorClock_Clone (vc_of (kv_VClock (cf_Local c)))) (vc_of (kv_VClock (cf_Remote c)));
          merged' = (case kv_VClock (rs_Winner resolution) of None \<Rightarrow> merged | Some vc \<Rightarrow> VectorClock_Merge merged vc);
          winner = (rs_Winner resolution)\<lparr>kv_VClock := Some merged'\<rparr>;
          n2 = n1\<lparr>bn_store := Store_Set (bn_store n1) winner\<rparr>
      in (n2, [BaseNode_publishEvent now EvtConflictResolved
           (fmap_of_list [(''conflict_id'', EStr (cf_ID c)), (''resolver'', EStr (resolver_string (rs_ResolverType resolution))),
              (''winner_node'', EStr (kv_NodeID (rs_Winner resolution))), (''winner_ts'', ENum (kv_Timestamp (rs_Winner resolution)))]) n2]))"

definition MultiLeaderNode_receiveRemoteWrite ::
  "CrdtCodec \<Rightarrow> string \<Rightarrow> int \<Rightarrow> KVEntry \<Rightarrow> MultiLeaderNode \<Rightarrow> MultiLeaderNode \<times> Action list" where
  "MultiLeaderNode_receiveRemoteWrite cc uid now remote n0 =
     (let (n, _) = BaseNode_HLCUpdate now (kv_Timestamp remote) n0 in
      case Store_GetRaw (bn_store n) (kv_Key remote) of
        None \<Rightarrow> (n\<lparr>bn_store := Store_Set (bn_store n) remote\<rparr>, [replicated_event now remote n])
      | Some local \<Rightarrow>
          (let localVC = vc_of (kv_VClock local); remoteVC = vc_of (kv_VClock remote) in
           if VectorClock_Equal remoteVC localVC then (n, [])
           else if VectorClock_HappensBefore remoteVC localVC then (n, [])
           else if VectorClock_HappensBefore localVC remoteVC
           then (n\<lparr>bn_store := Store_Set (bn_store n) remote, ml_pending := fmdrop (kv_Key remote) (ml_pending n)\<rparr>,
                 [replicated_event now remote n])
           else if Resolver_Type (ml_resolver n) = ResolverManual \<and> fmlookup (ml_pending n) (kv_Key remote) \<noteq> None then (n, [])
           else (let (c, n1, as) = detect_conflict uid now local remote n in
                 if Resolver_Type (ml_resolver n1) = ResolverManual
                 then (n1\<lparr>ml_pending := fmupd (kv_Key remote) c (ml_pending n1)\<rparr>, as)
                 else (let (n2, bs) = resolve_conflict cc now c n1 in (n2, as @ bs)))))"

definition MultiLeaderNode_HandleMessage ::
  "CrdtCodec \<Rightarrow> string \<Rightarrow> int \<Rightarrow> Message \<Rightarrow> MultiLeaderNode \<Rightarrow> MultiLeaderNode \<times> Action list" where
  "MultiLeaderNode_HandleMessage cc uid now msg n =
     (if BaseNode_isPaused n then (n, [])
      else case m_Type msg of
        MsgWrite \<Rightarrow>
          (case m_Entry msg of None \<Rightarrow> (n, []) | Some e \<Rightarrow> MultiLeaderNode_receiveRemoteWrite cc uid now e n)
      | _ \<Rightarrow> (n, []))"

section \<open>Client calls\<close>

datatype MLError = MLPaused node_id | MLKeyNotFound string | NoPendingConflict string node_id

text \<open>The clock of a local write: the stored one, tombstones included, advanced at this node.\<close>

definition next_clock :: "string \<Rightarrow> MultiLeaderNode \<Rightarrow> vclock" where
  "next_clock key n =
     VectorClock_Increment
       (case Store_GetRaw (bn_store n) key of
          Some existing \<Rightarrow> (case kv_VClock existing of Some vc \<Rightarrow> VectorClock_Clone vc | None \<Rightarrow> NewVectorClock)
        | None \<Rightarrow> NewVectorClock) (bn_id n)"

definition MultiLeaderNode_Write ::
  "int \<Rightarrow> real \<Rightarrow> string \<Rightarrow> bytes \<Rightarrow> MultiLeaderNode \<Rightarrow> MLError + MultiLeaderNode \<times> KVEntry \<times> Action list" where
  "MultiLeaderNode_Write now took key val n =
     (if BaseNode_isPaused n then Inl (MLPaused (bn_id n))
      else (let vc = next_clock key n;
                (n1, ts) = BaseNode_HLCNow now n;
                kvEntry = \<lparr>kv_Key = key, kv_Value = val, kv_VClock = Some vc, kv_Timestamp = ts, kv_NodeID = bn_id n1,
                           kv_Tombstone = False, kv_Version = 0\<rparr>;
                n2 = n1\<lparr>bn_store := Store_Set (bn_store n1) kvEntry\<rparr>;
                n3 = n2\<lparr>bn_metrics := NodeMetrics_RecordWrite now took (bn_metrics n2)\<rparr>;
                msg = (msg_of MsgWrite (bn_id n3) [])\<lparr>m_Entry := Some kvEntry\<rparr>
            in Inr (n3, kvEntry, broadcast msg (BaseNode_GetPeers n3) @
                 [BaseNode_publishEvent now EvtWriteReceived (fmap_of_list [(''key'', EStr key), (''vclock'', EClock (Some vc))]) n3])))"

definition MultiLeaderNode_Delete :: "int \<Rightarrow> string \<Rightarrow> MultiLeaderNode \<Rightarrow> MLError + MultiLeaderNode \<times> Action list" where
  "MultiLeaderNode_Delete now key n =
     (if BaseNode_isPaused n then Inl (MLPaused (bn_id n))
      else (let vc = next_clock key n;
                (n1, ts) = BaseNode_HLCNow now n;
                tomb = \<lparr>kv_Key = key, kv_Value = None, kv_VClock = Some vc, kv_Timestamp = ts, kv_NodeID = bn_id n1,
                        kv_Tombstone = True, kv_Version = 0\<rparr>;
                n2 = n1\<lparr>bn_store := Store_Set (bn_store n1) tomb\<rparr>;
                msg = (msg_of MsgWrite (bn_id n2) [])\<lparr>m_Entry := Some tomb\<rparr>
            in Inr (n2, broadcast msg (BaseNode_GetPeers n2) @
                 [BaseNode_publishEvent now EvtWriteReceived
                    (fmap_of_list [(''key'', EStr key), (''op'', EStr ''delete''), (''vclock'', EClock (Some vc))]) n2])))"

definition MultiLeaderNode_Read :: "int \<Rightarrow> string \<Rightarrow> MultiLeaderNode \<Rightarrow> MLError + MultiLeaderNode \<times> KVEntry" where
  "MultiLeaderNode_Read now key n =
     (if BaseNode_isPaused n then Inl (MLPaused (bn_id n))
      else (case Store_Get (bn_store n) key of
              None \<Rightarrow> Inl (MLKeyNotFound key)
            | Some entry \<Rightarrow> Inr (n\<lparr>bn_metrics := NodeMetrics_RecordRead now 0 (bn_metrics n)\<rparr>, entry)))"

definition MultiLeaderNode_PendingConflicts :: "MultiLeaderNode \<Rightarrow> Conflict list" where
  "MultiLeaderNode_PendingConflicts n = go_range (\<lambda>k c out. out @ [c]) (ml_pending n) []"

text \<open>\<open>Merge\<close> and \<open>Increment\<close> on the clone of a nil clock work on an empty map. A choice other than \<open>remote\<close> means the
  local version.\<close>

definition MultiLeaderNode_ResolveConflict ::
  "int \<Rightarrow> string \<Rightarrow> string \<Rightarrow> MultiLeaderNode \<Rightarrow> MLError + MultiLeaderNode \<times> Action list" where
  "MultiLeaderNode_ResolveConflict now key choice n =
     (case fmlookup (ml_pending n) key of
        None \<Rightarrow> Inl (NoPendingConflict key (bn_id n))
      | Some c \<Rightarrow>
          (let n1 = n\<lparr>ml_pending := fmdrop key (ml_pending n)\<rparr>;
               winner = (if choice = ''remote'' then cf_Remote c else cf_Local c);
               merged = VectorClock_Increment (VectorClock_Merge (VectorClock_Clone (vc_of (kv_VClock (cf_Local c))))
                          (vc_of (kv_VClock (cf_Remote c)))) (bn_id n1);
               (n2, ts) = BaseNode_HLCNow now n1;
               resolved = winner\<lparr>kv_VClock := Some merged, kv_Timestamp := ts, kv_NodeID := bn_id n2\<rparr>;
               n3 = n2\<lparr>bn_store := Store_Set (bn_store n2) resolved,
                       ml_resolutions := ml_resolutions n2 @ [mk_resolution c now ResolverManual resolved (ManualChoice choice)]\<rparr>
           in Inr (n3, broadcast ((msg_of MsgWrite (bn_id n3) [])\<lparr>m_Entry := Some resolved\<rparr>) (BaseNode_GetPeers n3) @
                [BaseNode_publishEvent now EvtConflictResolved
                   (fmap_of_list [(''key'', EStr key), (''resolver'', EStr ''manual''), (''choice'', EStr choice)]) n3])))"

definition MultiLeaderNode_GetConflicts :: "MultiLeaderNode \<Rightarrow> Conflict list" where
  "MultiLeaderNode_GetConflicts n = ml_conflicts n"

definition MultiLeaderNode_GetResolutions :: "MultiLeaderNode \<Rightarrow> Resolution list" where
  "MultiLeaderNode_GetResolutions n = ml_resolutions n"

end
