(* ===== verification/MultiLeaderCluster.thy ===== *)
theory MultiLeaderCluster
  imports MultiLeader "HOL-Library.Multiset" "HOL-Library.Product_Lexorder"
begin

text \<open>
  A cluster of multi-leader nodes that resolve conflicts by last write wins, alone or behind vector clocks. The
  network delays, reorders, duplicates (by anti-entropy) and loses messages. The history variable
  \<open>my_hist\<close> lists, for a key and a node, the writes of the key at that node. A vector clock of a version
  of the key counts how many of them the version knows of; the invariant says that the version is the
  last of those writes in the order of timestamp and node. Hybrid clocks keep that order in line with causality.
\<close>

type_synonym ml_hist = "string \<times> node_id \<Rightarrow> (int \<times> bytes \<times> bool) list"

record MLSys =
  my_ids :: "node_id list"
  my_node :: "node_id \<Rightarrow> MultiLeaderNode"
  my_net :: "Message multiset"
  my_hist :: ml_hist

definition init_mln :: "string \<Rightarrow> ConflictResolver \<Rightarrow> node_id list \<Rightarrow> node_id \<Rightarrow> MultiLeaderNode" where
  "init_mln cid res ids i = fold BaseNode_AddPeer (filter (\<lambda>j. j \<noteq> i) ids) (NewMultiLeaderNode i cid (Some res))"

definition init_ml :: "string \<Rightarrow> ConflictResolver \<Rightarrow> node_id list \<Rightarrow> MLSys" where
  "init_ml cid res ids = \<lparr>my_ids = ids, my_node = init_mln cid res ids, my_net = {#}, my_hist = (\<lambda>_. [])\<rparr>"

datatype MLCall = MRead int string | MTick | MPause int | MResume int | MStop | MSkew int

fun ml_call :: "MLCall \<Rightarrow> MultiLeaderNode \<Rightarrow> (MultiLeaderNode \<times> Action list) option" where
  "ml_call (MRead now key) n = (case MultiLeaderNode_Read now key n of Inl e \<Rightarrow> None | Inr (n', kv) \<Rightarrow> Some (n', []))"
| "ml_call MTick n = Some (n, MultiLeaderNode_antiEntropyTick n)"
| "ml_call (MPause now) n = Some (BaseNode_Pause now n)"
| "ml_call (MResume now) n = Some (BaseNode_Resume now n)"
| "ml_call MStop n = Some (BaseNode_Stop n, [])"
| "ml_call (MSkew ms) n = Some (BaseNode_SetClockSkewMillis ms n, [])"

text \<open>A write or a delete, with the version it stores.\<close>

datatype MLWrite = MWrite int real string bytes | MDelete int string

fun ml_write :: "MLWrite \<Rightarrow> MultiLeaderNode \<Rightarrow> (MultiLeaderNode \<times> KVEntry \<times> Action list) option" where
  "ml_write (MWrite now took key val) n =
     (case MultiLeaderNode_Write now took key val n of Inl e \<Rightarrow> None | Inr r \<Rightarrow> Some r)"
| "ml_write (MDelete now key) n =
     (case MultiLeaderNode_Delete now key n of Inl e \<Rightarrow> None
      | Inr (n', as) \<Rightarrow> map_option (\<lambda>e. (n', e, as)) (Store_GetRaw (bn_store n') key))"

definition note_write :: "KVEntry \<Rightarrow> node_id \<Rightarrow> ml_hist \<Rightarrow> ml_hist" where
  "note_write e i H = H((kv_Key e, i) := H (kv_Key e, i) @ [(kv_Timestamp e, kv_Value e, kv_Tombstone e)])"

inductive ml_step :: "CrdtCodec \<Rightarrow> MLSys \<Rightarrow> MLSys \<Rightarrow> bool" for cc where
  call: "i \<in> set (my_ids s) \<Longrightarrow> ml_call c (my_node s i) = Some (n', as) \<Longrightarrow>
         ml_step cc s (s\<lparr>my_node := (my_node s)(i := n'), my_net := my_net s + mset (sent_of as)\<rparr>)"
| wrt: "i \<in> set (my_ids s) \<Longrightarrow> ml_write c (my_node s i) = Some (n', e, as) \<Longrightarrow>
        ml_step cc s (s\<lparr>my_node := (my_node s)(i := n'), my_net := my_net s + mset (sent_of as), my_hist := note_write e i (my_hist s)\<rparr>)"
| deliver: "m \<in># my_net s \<Longrightarrow> m_TargetID m \<in> set (my_ids s) \<Longrightarrow>
            MultiLeaderNode_HandleMessage cc uid now m (my_node s (m_TargetID m)) = (n', as) \<Longrightarrow>
            ml_step cc s (s\<lparr>my_node := (my_node s)(m_TargetID m := n'), my_net := my_net s - {#m#} + mset (sent_of as)\<rparr>)"
| lose: "ml_step cc s (s\<lparr>my_net := my_net s - {#m#}\<rparr>)"

section \<open>Versions and clocks\<close>

text \<open>The writes of key \<open>k\<close> that a clock covers.\<close>

definition covered :: "ml_hist \<Rightarrow> string \<Rightarrow> vclock \<Rightarrow> (node_id \<times> nat) set" where
  "covered H k vc = {(j, m). m < unat (zget vc j)}"

definition stamp_of :: "ml_hist \<Rightarrow> string \<Rightarrow> node_id \<times> nat \<Rightarrow> int \<times> node_id" where
  "stamp_of H k w = (fst (H (k, fst w) ! snd w), fst w)"

definition stamp :: "KVEntry \<Rightarrow> int \<times> node_id" where
  "stamp e = (kv_Timestamp e, kv_NodeID e)"

text \<open>The version is the last of the covered writes.\<close>

definition picks :: "ml_hist \<Rightarrow> string \<Rightarrow> vclock \<Rightarrow> KVEntry \<Rightarrow> bool" where
  "picks H k vc e \<longleftrightarrow>
     (\<exists>m. (kv_NodeID e, m) \<in> covered H k vc \<and> H (k, kv_NodeID e) ! m = (kv_Timestamp e, kv_Value e, kv_Tombstone e)) \<and>
     (\<forall>w \<in> covered H k vc. stamp_of H k w \<le> stamp e)"

definition version_ok :: "ml_hist \<Rightarrow> string \<Rightarrow> KVEntry \<Rightarrow> bool" where
  "version_ok H k e \<longleftrightarrow> kv_Key e = k \<and> (\<exists>vc. kv_VClock e = Some vc \<and> vc_wf vc \<and> (\<forall>j. unat (zget vc j) \<le> length (H (k, j))) \<and> picks H k vc e)"

definition hist_ok :: "nat \<Rightarrow> ml_hist \<Rightarrow> bool" where
  "hist_ok n H \<longleftrightarrow> (\<forall>k j. sorted_wrt (<) (map fst (H (k, j))) \<and> length (H (k, j)) \<le> n \<and> (\<forall>w \<in> set (H (k, j)). - (2 ^ 63) \<le> fst w))"

lemma unat_max: "unat (max a b) = max (unat a) (unat (b :: u64))"
  by (simp add: max_def word_le_nat_alt)

lemma covered_Merge: "covered H k (VectorClock_Merge a b) = covered H k a \<union> covered H k b"
  by (auto simp: covered_def unat_max)

text \<open>Last write wins.\<close>

definition lww_version :: "KVEntry \<Rightarrow> KVEntry \<Rightarrow> KVEntry" where
  "lww_version l r = (if stamp l < stamp r then r else l)"

lemma picks_Merge:
  assumes "picks H k a e" and "picks H k b f"
  shows "picks H k (VectorClock_Merge a b) (lww_version e f)"
proof -
  have "stamp e \<le> stamp (lww_version e f)" "stamp f \<le> stamp (lww_version e f)" by (auto simp: lww_version_def)
  then have "\<forall>w \<in> covered H k (VectorClock_Merge a b). stamp_of H k w \<le> stamp (lww_version e f)"
    using assms unfolding picks_def covered_Merge by (meson UnE order_trans)
  moreover have "\<exists>m. (kv_NodeID x, m) \<in> covered H k (VectorClock_Merge a b) \<and> H (k, kv_NodeID x) ! m = (kv_Timestamp x, kv_Value x, kv_Tombstone x)"
    if "x = lww_version e f" for x
    using that assms unfolding picks_def covered_Merge by (auto simp: lww_version_def)
  ultimately show ?thesis unfolding picks_def by blast
qed

definition same_version :: "KVEntry \<Rightarrow> KVEntry \<Rightarrow> bool" where
  "same_version e f \<longleftrightarrow> kv_Key e = kv_Key f \<and> kv_Value e = kv_Value f \<and> kv_Timestamp e = kv_Timestamp f \<and> kv_NodeID e = kv_NodeID f \<and>
     kv_Tombstone e = kv_Tombstone f"

lemma picks_unique:
  assumes "hist_ok n H" and "picks H k vc e" and "picks H k vc f" and "\<And>j. unat (zget vc j) \<le> length (H (k, j))" and "kv_Key e = kv_Key f"
  shows "same_version e f"
proof -
  obtain m where m: "(kv_NodeID e, m) \<in> covered H k vc" "H (k, kv_NodeID e) ! m = (kv_Timestamp e, kv_Value e, kv_Tombstone e)"
    using assms(2) by (auto simp: picks_def)
  obtain m' where m': "(kv_NodeID f, m') \<in> covered H k vc" "H (k, kv_NodeID f) ! m' = (kv_Timestamp f, kv_Value f, kv_Tombstone f)"
    using assms(3) by (auto simp: picks_def)
  have "stamp_of H k (kv_NodeID e, m) = stamp e" "stamp_of H k (kv_NodeID f, m') = stamp f" using m m' by (simp_all add: stamp_of_def stamp_def)
  then have "stamp e = stamp f" using assms(2,3) m(1) m'(1) unfolding picks_def by (metis order_antisym)
  then have eq: "kv_Timestamp e = kv_Timestamp f" "kv_NodeID e = kv_NodeID f" by (simp_all add: stamp_def)
  let ?h = "H (k, kv_NodeID e)"
  have lt: "m < length ?h" "m' < length ?h" using m(1) m'(1) assms(4) [of "kv_NodeID e"] eq(2) by (auto simp: covered_def)
  have sorted: "sorted_wrt (<) (map fst ?h)" using assms(1) by (simp add: hist_ok_def)
  have "map fst ?h ! m = map fst ?h ! m'" using m(2) m'(2) lt eq by simp
  moreover have "distinct (map fst ?h)" using sorted by (simp add: strict_sorted_iff)
  ultimately have "m = m'" using lt nth_eq_iff_index_eq [of "map fst ?h" m m'] by simp
  then show ?thesis using m(2) m'(2) eq assms(5) by (simp add: same_version_def)
qed

section \<open>One node\<close>

fun lww_like :: "ConflictResolver \<Rightarrow> bool" where
  "lww_like LWWResolver = True"
| "lww_like (VectorClockResolver f) = lww_like f"
| "lww_like _ = False"

lemma lww_like_winner:
  assumes "lww_like res" and "kv_VClock (cf_Local c) = Some a" and "kv_VClock (cf_Remote c) = Some b"
    and "\<not> VectorClock_HappensBefore a b" and "\<not> VectorClock_HappensBefore b a"
  shows "rs_Winner (Resolve cc res now c) = lww_version (cf_Local c) (cf_Remote c)"
  using assms(1)
proof (induction res rule: lww_like.induct)
  case 1
  then show ?case by (auto simp: LWWResolver_Resolve_def Let_def lww_version_def stamp_def)
next
  case (2 f)
  then show ?case using assms(2-5) by (simp add: Let_def)
qed simp_all

lemma lww_like_auto: "lww_like res \<Longrightarrow> Resolver_Type res \<noteq> ResolverManual"
  by (induction res rule: lww_like.induct) simp_all

definition clock_at :: "MultiLeaderNode \<Rightarrow> string \<Rightarrow> vclock" where
  "clock_at n k = (case Store_GetRaw (bn_store n) k of None \<Rightarrow> fmempty | Some e \<Rightarrow> vc_of (kv_VClock e))"

definition nd_ok :: "ml_hist \<Rightarrow> int \<Rightarrow> node_id \<Rightarrow> MultiLeaderNode \<Rightarrow> bool" where
  "nd_ok H B i n \<longleftrightarrow> bn_id n = i \<and> lww_like (ml_resolver n) \<and> hlc_inv (bn_hlc n) \<and> hlc_ts (bn_hlc n) \<le> B \<and>
     (\<forall>k e. Store_GetRaw (bn_store n) k = Some e \<longrightarrow> version_ok H k e \<and> kv_Timestamp e \<le> hlc_ts (bn_hlc n)) \<and>
     (\<forall>k. unat (zget (clock_at n k) i) = length (H (k, i))) \<and> (\<forall>k. \<forall>w \<in> set (H (k, i)). fst w \<le> hlc_ts (bn_hlc n))"

lemma version_write:
  assumes "version_ok H k e"
  shows "(kv_Timestamp e, kv_Value e, kv_Tombstone e) \<in> set (H (k, kv_NodeID e))"
proof -
  obtain m vc where "H (k, kv_NodeID e) ! m = (kv_Timestamp e, kv_Value e, kv_Tombstone e)" "m < length (H (k, kv_NodeID e))"
    using assms by (fastforce simp: version_ok_def picks_def covered_def intro: less_le_trans)
  then show ?thesis by (metis nth_mem)
qed

lemma version_range: "hist_ok q H \<Longrightarrow> version_ok H k e \<Longrightarrow> - (2 ^ 63) \<le> kv_Timestamp e"
  using version_write [of H k e] by (fastforce simp: hist_ok_def)

lemma version_clock: "version_ok H k e \<Longrightarrow> \<exists>vc. kv_VClock e = Some vc \<and> vc_wf vc \<and> (\<forall>j. unat (zget vc j) \<le> length (H (k, j))) \<and> picks H k vc e"
  by (simp add: version_ok_def)

lemma Merge_absorb: "vc_wf a \<Longrightarrow> vc_wf b \<Longrightarrow> VectorClock_Dominates a b \<Longrightarrow> VectorClock_Merge a b = a"
  by (auto intro!: vc_wf_ext simp: vc_wf_Merge Dominates_iff max_def intro: order_antisym)

lemma version_ok_merge:
  assumes "version_ok H k l" and "version_ok H k r" and "kv_VClock l = Some a" and "kv_VClock r = Some b"
  shows "version_ok H k ((lww_version l r)\<lparr>kv_VClock := Some (VectorClock_Merge a b)\<rparr>)"
proof -
  have "picks H k (VectorClock_Merge a b) (lww_version l r)" using assms by (intro picks_Merge) (auto simp: version_ok_def)
  then have "picks H k (VectorClock_Merge a b) ((lww_version l r)\<lparr>kv_VClock := Some (VectorClock_Merge a b)\<rparr>)"
    by (simp add: picks_def stamp_def)
  moreover have "kv_Key (lww_version l r) = k" using assms(1,2) by (simp add: lww_version_def version_ok_def)
  moreover have "vc_wf (VectorClock_Merge a b)" using assms by (auto simp: version_ok_def vc_wf_Merge)
  moreover have "unat (zget (VectorClock_Merge a b) j) \<le> length (H (k, j))" for j using assms by (auto simp: version_ok_def unat_max)
  ultimately show ?thesis by (simp add: version_ok_def)
qed

lemma version_ok_stored [simp]: "version_ok H k (e\<lparr>kv_Version := v\<rparr>) = version_ok H k e"
  by (simp add: version_ok_def picks_def stamp_def)

lemma resolve_conflict_spec:
  assumes l: "version_ok H k (cf_Local c)" and r: "version_ok H k (cf_Remote c)"
    and ab: "kv_VClock (cf_Local c) = Some a" "kv_VClock (cf_Remote c) = Some b"
    and con: "\<not> VectorClock_HappensBefore a b" "\<not> VectorClock_HappensBefore b a" and res: "lww_like (ml_resolver n)"
    and run: "resolve_conflict cc now c n = (n', as)"
  shows "bn_store n' = Store_Set (bn_store n) ((lww_version (cf_Local c) (cf_Remote c))\<lparr>kv_VClock := Some (VectorClock_Merge a b)\<rparr>)"
    and "bn_hlc n' = bn_hlc n" "bn_id n' = bn_id n" "bn_state n' = bn_state n" "bn_peers n' = bn_peers n" "ml_resolver n' = ml_resolver n" "sent_of as = []"
proof -
  note w = lww_like_winner [OF res ab con, of cc now]
  have "vc_wf a" "vc_wf b" using l r ab by (auto simp: version_ok_def)
  then have ab': "VectorClock_Merge (VectorClock_Merge a b) a = VectorClock_Merge a b" "VectorClock_Merge (VectorClock_Merge a b) b = VectorClock_Merge a b"
    by (auto intro!: Merge_absorb simp: vc_wf_Merge Dominates_iff)
  have "(case kv_VClock (lww_version (cf_Local c) (cf_Remote c)) of None \<Rightarrow> VectorClock_Merge a b | Some vc \<Rightarrow> VectorClock_Merge (VectorClock_Merge a b) vc) = VectorClock_Merge a b"
    using ab ab' by (simp add: lww_version_def)
  then show "bn_store n' = Store_Set (bn_store n) ((lww_version (cf_Local c) (cf_Remote c))\<lparr>kv_VClock := Some (VectorClock_Merge a b)\<rparr>)"
    using run w ab by (auto simp: resolve_conflict_def Let_def)
  show "bn_hlc n' = bn_hlc n" "bn_id n' = bn_id n" "bn_state n' = bn_state n" "bn_peers n' = bn_peers n" "ml_resolver n' = ml_resolver n" "sent_of as = []"
    using run by (auto simp: resolve_conflict_def Let_def BaseNode_publishEvent_def)
qed

text \<open>A received version leaves the store alone if the stored one covers it, and otherwise replaces it by
  a version for the union of the two clocks.\<close>

definition ml_frame :: "MultiLeaderNode \<Rightarrow> MultiLeaderNode \<Rightarrow> bool" where
  "ml_frame n n' \<longleftrightarrow> bn_id n' = bn_id n \<and> bn_state n' = bn_state n \<and> bn_peers n' = bn_peers n \<and> ml_resolver n' = ml_resolver n"

lemma receive_cases:
  assumes run: "MultiLeaderNode_receiveRemoteWrite cc uid now r n = (n', as)" and r: "version_ok H (kv_Key r) r" "kv_VClock r = Some b"
    and all: "\<forall>e. Store_GetRaw (bn_store n) (kv_Key r) = Some e \<longrightarrow> version_ok H (kv_Key r) e" and res: "lww_like (ml_resolver n)"
  obtains (keep) e a where "Store_GetRaw (bn_store n) (kv_Key r) = Some e" "kv_VClock e = Some a" "bn_store n' = bn_store n" "VectorClock_Dominates a b"
      "ml_frame n n'" "bn_hlc n' = fst (HLC_Update (bn_hlc n) now (kv_Timestamp r))" "sent_of as = []"
  | (put) e where "bn_store n' = Store_Set (bn_store n) e" "version_ok H (kv_Key r) e"
      "\<And>j. zget (vc_of (kv_VClock e)) j = max (zget (clock_at n (kv_Key r)) j) (zget b j)"
      "kv_Timestamp e = kv_Timestamp r \<or> (\<exists>l. Store_GetRaw (bn_store n) (kv_Key r) = Some l \<and> kv_Timestamp e = kv_Timestamp l)"
      "ml_frame n n'" "bn_hlc n' = fst (HLC_Update (bn_hlc n) now (kv_Timestamp r))" "sent_of as = []"
proof -
  obtain n1 t where pr: "BaseNode_HLCUpdate now (kv_Timestamp r) n = (n1, t)" by fastforce
  then have n1: "n1 = n\<lparr>bn_hlc := fst (HLC_Update (bn_hlc n) now (kv_Timestamp r))\<rparr>" by (auto simp: BaseNode_HLCUpdate_def split_beta)
  have st: "version_ok H (kv_Key r) e" if "Store_GetRaw (bn_store n) (kv_Key r) = Some e" for e using all that by blast
  have ev: "sent_of [replicated_event now r n1] = []" by (simp add: replicated_event_def BaseNode_publishEvent_def)
  note run' = run [unfolded MultiLeaderNode_receiveRemoteWrite_def, unfolded pr prod.case Let_def]
  show thesis
  proof (cases "Store_GetRaw (bn_store n) (kv_Key r)")
    case None
    then have "n' = n1\<lparr>bn_store := Store_Set (bn_store n1) r\<rparr>" "as = [replicated_event now r n1]" using run' n1 by simp_all
    then show thesis using r None ev n1 by (intro put [of r]) (simp_all add: clock_at_def ml_frame_def)
  next
    case (Some l)
    obtain a where a: "kv_VClock l = Some a" "vc_wf a" using st [OF Some] by (auto simp: version_ok_def)
    have wf: "vc_wf b" using r by (auto simp: version_ok_def)
    have ck: "clock_at n (kv_Key r) = a" using Some a by (simp add: clock_at_def)
    have "Store_GetRaw (bn_store n1) (kv_Key r) = Some l" using Some n1 by simp
    note run2 = run' [unfolded this option.case a(1) r(2) vc_of_simps]
    consider (eq) "VectorClock_Equal b a \<or> VectorClock_HappensBefore b a" | (newer) "VectorClock_HappensBefore a b" "\<not> VectorClock_Equal b a" "\<not> VectorClock_HappensBefore b a"
      | (con) "\<not> VectorClock_Equal b a" "\<not> VectorClock_HappensBefore b a" "\<not> VectorClock_HappensBefore a b" by blast
    then show thesis
    proof cases
      case eq
      then have "n' = n1" "as = []" using run2 by (auto split: if_splits)
      moreover have "VectorClock_Dominates a b" using eq Equal_wf [OF wf a(2)] by (auto simp: HappensBefore_iff Dominates_iff)
      ultimately show thesis using Some a(1) n1 by (intro keep [of l a]) (simp_all add: ml_frame_def)
    next
      case newer
      then have "n' = n1\<lparr>bn_store := Store_Set (bn_store n1) r, ml_pending := fmdrop (kv_Key r) (ml_pending n1)\<rparr>" "as = [replicated_event now r n1]"
        using run2 newer by simp_all
      moreover have "zget b j = max (zget a j) (zget b j)" for j using newer(1) by (simp add: HappensBefore_iff max_def)
      ultimately show thesis using r ev n1 ck by (intro put [of r]) (simp_all add: ml_frame_def)
    next
      case con
      obtain c n2 bs where d: "detect_conflict uid now l r n1 = (c, n2, bs)" by (metis prod_cases3)
      then have n2: "cf_Local c = l" "cf_Remote c = r" "bn_store n2 = bn_store n" "bn_hlc n2 = bn_hlc n1" "ml_frame n n2" "sent_of bs = []"
        using n1 by (auto simp: detect_conflict_def Let_def ml_frame_def BaseNode_publishEvent_def)
      obtain n3 ds where rc: "resolve_conflict cc now c n2 = (n3, ds)" by fastforce
      have res2: "lww_like (ml_resolver n2)" using n2(5) res by (simp add: ml_frame_def)
      have "Resolver_Type (ml_resolver n1) \<noteq> ResolverManual" "Resolver_Type (ml_resolver n2) \<noteq> ResolverManual"
        using lww_like_auto res res2 n1 by simp_all
      then have "n' = n3" "as = bs @ ds" using run2 con d rc by simp_all
      moreover note sp = resolve_conflict_spec [OF _ _ _ _ con(3,2) res2 rc, of H "kv_Key r", unfolded n2(1,2), OF st [OF Some] r(1) a(1) r(2)]
      moreover have "ml_frame n n3" using n2(5) sp by (simp add: ml_frame_def)
      ultimately show thesis
        using version_ok_merge [OF st [OF Some] r(1) a(1) r(2)] n2 n1 ck Some
        by (intro put [of "(lww_version l r)\<lparr>kv_VClock := Some (VectorClock_Merge a b)\<rparr>"]) (auto simp: lww_version_def)
    qed
  qed
qed

definition bound_ok :: "int \<Rightarrow> bool" where
  "bound_ok B \<longleftrightarrow> B < 2 ^ 63 - 1 \<and> 9223372036854 * 65536 \<le> B"

lemma receive_write_ok:
  assumes n: "nd_ok H B i n" and h: "hist_ok q H" and B: "bound_ok B" and r: "version_ok H (kv_Key r) r" "kv_Timestamp r \<le> B"
    and run: "MultiLeaderNode_receiveRemoteWrite cc uid now r n = (n', as)"
  shows "nd_ok H (B + 1) i n' \<and> (\<forall>j. zget (clock_at n' (kv_Key r)) j = max (zget (clock_at n (kv_Key r)) j) (zget (vc_of (kv_VClock r)) j)) \<and>
    (\<exists>e. Store_GetRaw (bn_store n') (kv_Key r) = Some e) \<and> ml_frame n n' \<and> sent_of as = [] \<and>
    (\<forall>k. k \<noteq> kv_Key r \<longrightarrow> Store_GetRaw (bn_store n') k = Store_GetRaw (bn_store n) k)"
proof -
  obtain b where b: "kv_VClock r = Some b" "unat (zget b i) \<le> length (H (kv_Key r, i))" using version_clock [OF r(1)] by blast
  have st: "\<forall>e. Store_GetRaw (bn_store n) (kv_Key r) = Some e \<longrightarrow> version_ok H (kv_Key r) e" using n by (simp add: nd_ok_def)
  have lk: "lww_like (ml_resolver n)" using n by (simp add: nd_ok_def)
  obtain h' where up: "HLC_Update (bn_hlc n) now (kv_Timestamp r) = (h', hlc_ts h')" "hlc_inv h'" "hlc_ts (bn_hlc n) < hlc_ts h'" "hlc_ts h' \<le> B + 1" "kv_Timestamp r < hlc_ts h'"
    by (rule Update_bound [of "bn_hlc n" B "kv_Timestamp r" now])
       (use n B r version_range [OF h r(1)] in \<open>simp_all add: nd_ok_def bound_ok_def\<close>)
  have basic: "bn_id n = i" "\<And>k. unat (zget (clock_at n k) i) = length (H (k, i))" "\<And>k e. Store_GetRaw (bn_store n) k = Some e \<Longrightarrow> version_ok H k e"
    using n by (simp_all add: nd_ok_def)
  have t1: "kv_Timestamp e \<le> hlc_ts h'" if "Store_GetRaw (bn_store n) k = Some e" for k e using n that up(3) by (force simp: nd_ok_def)
  have t2: "fst w \<le> hlc_ts h'" if "w \<in> set (H (k, i))" for w k using n that up(3) by (force simp: nd_ok_def)
  show ?thesis
  proof (cases rule: receive_cases [OF run r(1) b(1) st lk])
    case (1 e a)
    then have c: "clock_at n' = clock_at n" by (intro ext) (simp add: clock_at_def)
    have hl: "bn_hlc n' = h'" using 1(6) up(1) by simp
    have "nd_ok H (B + 1) i n'" using 1(3,5) up(2,4) c hl basic lk t1 t2 unfolding nd_ok_def ml_frame_def by simp
    moreover have "zget b j \<le> zget (clock_at n (kv_Key r)) j" for j using 1(1,2,4) by (simp add: clock_at_def Dominates_iff)
    then have "max (zget (clock_at n (kv_Key r)) j) (zget b j) = zget (clock_at n (kv_Key r)) j" for j by (rule max.absorb1)
    ultimately show ?thesis using 1 c b(1) by simp
  next
    case (2 e)
    have key: "kv_Key e = kv_Key r" using 2(2) by (simp add: version_ok_def)
    have raw: "Store_GetRaw (bn_store n') k = (if k = kv_Key r then Some (e\<lparr>kv_Version := st_version (bn_store n) + 1\<rparr>) else Store_GetRaw (bn_store n) k)" for k
      using 2(1) key by (simp add: GetRaw_Set)
    have ck: "clock_at n' k = (if k = kv_Key r then vc_of (kv_VClock e) else clock_at n k)" for k by (simp add: clock_at_def raw)
    have own: "unat (zget (clock_at n' k) i) = length (H (k, i))" for k
      using 2(3) [of i] b(2) ck basic(2) [of k] by (auto simp: unat_max)
    have ts: "kv_Timestamp e \<le> hlc_ts h'" using 2(4) up(5) t1 by auto
    have hl: "bn_hlc n' = h'" using 2(6) up(1) by simp
    have "nd_ok H (B + 1) i n'"
      using 2(2,5) up(2,4) ts own raw hl basic lk t1 t2 unfolding nd_ok_def ml_frame_def by simp
    then show ?thesis using 2 ck raw b(1) by simp
  qed
qed

text \<open>A local write: its timestamp is beyond all the node has seen, so it is the last of the writes its clock covers.\<close>

lemma version_ok_note:
  assumes "version_ok H k f"
  shows "version_ok (note_write e i H) k f"
proof -
  obtain vc where vc: "kv_Key f = k" "kv_VClock f = Some vc" "vc_wf vc" "\<And>j. unat (zget vc j) \<le> length (H (k, j))" "picks H k vc f"
    using assms by (auto simp: version_ok_def)
  have same: "note_write e i H (k, j) ! m = H (k, j) ! m" if "(j, m) \<in> covered H k vc" for j m
    using that vc(4) [of j] by (auto simp: covered_def note_write_def nth_append)
  have "covered (note_write e i H) k vc = covered H k vc" by (simp add: covered_def)
  then have "picks (note_write e i H) k vc f"
    using vc(5) same unfolding picks_def stamp_of_def by (auto split: prod.splits)
  moreover have "unat (zget vc j) \<le> length (note_write e i H (k, j))" for j using vc(4) [of j] by (auto simp: note_write_def)
  ultimately show ?thesis using vc(1-3) by (simp add: version_ok_def)
qed

lemma note_other: "j \<noteq> i \<Longrightarrow> note_write e i H (k, j) = H (k, j)"
  by (simp add: note_write_def)

lemma nd_ok_other:
  assumes "nd_ok H B j n" and "j \<noteq> i" and "B \<le> B'"
  shows "nd_ok (note_write e i H) B' j n"
  using assms version_ok_note [of H _ _ e i] unfolding nd_ok_def by (auto simp: note_other)

lemma picks_new:
  assumes e: "kv_NodeID e = i" and z: "\<And>j. unat (zget vc' j) = (if j = i then length (H (kv_Key e, i)) + 1 else unat (zget vc j))"
    and le: "\<And>j. unat (zget vc j) \<le> length (H (kv_Key e, j))"
    and own: "unat (zget vc i) = length (H (kv_Key e, i))"
    and old: "\<And>w. w \<in> covered H (kv_Key e) vc \<Longrightarrow> fst (stamp_of H (kv_Key e) w) < kv_Timestamp e"
  shows "picks (note_write e i H) (kv_Key e) vc' e"
proof -
  let ?k = "kv_Key e" and ?H = "note_write e i H"
  have new: "?H (?k, i) = H (?k, i) @ [(kv_Timestamp e, kv_Value e, kv_Tombstone e)]" by (simp add: note_write_def)
  have cov: "(j, m) \<in> covered H ?k vc \<or> j = i \<and> m = length (H (?k, i))" if "(j, m) \<in> covered ?H ?k vc'" for j m
    using that z [of j] own by (auto simp: covered_def split: if_splits)
  have "stamp_of ?H ?k w \<le> stamp e" if w: "w \<in> covered ?H ?k vc'" for w
  proof (cases "w \<in> covered H ?k vc")
    case True
    obtain j m where jm: "w = (j, m)" by fastforce
    have "m < length (H (?k, j))" using True jm le [of j] by (auto simp: covered_def)
    then have "stamp_of ?H ?k w = stamp_of H ?k w" using jm by (auto simp: stamp_of_def note_write_def nth_append)
    then show ?thesis using old [OF True] by (simp add: stamp_def less_eq_prod_def)
  next
    case False
    then have "w = (i, length (H (?k, i)))" using cov w by (cases w) auto
    then show ?thesis using new e by (simp add: stamp_of_def stamp_def)
  qed
  moreover have "(i, length (H (?k, i))) \<in> covered ?H ?k vc'" using z [of i] by (simp add: covered_def)
  ultimately show ?thesis unfolding picks_def using new e by (intro conjI ballI exI [of _ "length (H (?k, i))"]) simp_all
qed

lemma ml_write_shape:
  assumes "ml_write c n = Some (n', e, as)"
  obtains now e0 where "bn_hlc n' = fst (HLC_Now (bn_hlc n) now)" "kv_Timestamp e = snd (HLC_Now (bn_hlc n) now)" "kv_NodeID e = bn_id n"
    "kv_VClock e = Some (next_clock (kv_Key e) n)" "bn_store n' = Store_Set (bn_store n) e0" "e = e0\<lparr>kv_Version := kv_Version e\<rparr>" "ml_frame n n'"
    "\<And>m. m \<in> set (sent_of as) \<Longrightarrow> m_Type m = MsgWrite \<and> m_Entry m = Some e0 \<and> m_SenderID m = bn_id n"
proof (cases c)
  case (MWrite now took key val)
  then have "\<not> BaseNode_isPaused n" using assms by (auto simp: MultiLeaderNode_Write_def)
  then show thesis using assms MWrite
    by (intro that [of now e]) (auto simp: MultiLeaderNode_Write_def BaseNode_HLCNow_def split_beta Let_def ml_frame_def msg_of_def BaseNode_publishEvent_def)
next
  case (MDelete now key)
  then have "\<not> BaseNode_isPaused n" using assms by (auto simp: MultiLeaderNode_Delete_def)
  then show thesis using assms MDelete
    by (intro that [of now "e\<lparr>kv_Version := 0\<rparr>"])
       (auto simp: MultiLeaderNode_Delete_def BaseNode_HLCNow_def split_beta Let_def ml_frame_def msg_of_def BaseNode_publishEvent_def GetRaw_Set)
qed

lemma zget_next_clock: "zget (next_clock k n) j = (if j = bn_id n then zget (clock_at n k) j + 1 else zget (clock_at n k) j)"
  by (auto simp: next_clock_def clock_at_def NewVectorClock_def split: option.splits)

lemma write_facts:
  assumes n: "nd_ok H B i n" and B: "bound_ok B" and run: "ml_write c n = Some (n', e, as)"
  obtains h' e0 where "bn_hlc n' = h'" "hlc_inv h'" "hlc_ts (bn_hlc n) < hlc_ts h'" "hlc_ts h' \<le> B + 1" "kv_Timestamp e = hlc_ts h'" "kv_NodeID e = i"
    "kv_VClock e = Some (next_clock (kv_Key e) n)" "bn_store n' = Store_Set (bn_store n) e0" "e = e0\<lparr>kv_Version := kv_Version e\<rparr>" "ml_frame n n'"
    "\<And>m. m \<in> set (sent_of as) \<Longrightarrow> m_Type m = MsgWrite \<and> m_Entry m = Some e0"
proof -
  obtain now e0 where sh: "bn_hlc n' = fst (HLC_Now (bn_hlc n) now)" "kv_Timestamp e = snd (HLC_Now (bn_hlc n) now)" "kv_NodeID e = bn_id n"
    "kv_VClock e = Some (next_clock (kv_Key e) n)" "bn_store n' = Store_Set (bn_store n) e0" "e = e0\<lparr>kv_Version := kv_Version e\<rparr>" "ml_frame n n'"
    "\<And>m. m \<in> set (sent_of as) \<Longrightarrow> m_Type m = MsgWrite \<and> m_Entry m = Some e0 \<and> m_SenderID m = bn_id n" using ml_write_shape [OF run] by blast
  have "hlc_inv (bn_hlc n)" "hlc_ts (bn_hlc n) \<le> B" using n by (simp_all add: nd_ok_def)
  from Now_bound [OF this] obtain h' where "HLC_Now (bn_hlc n) now = (h', hlc_ts h')" "hlc_inv h'" "hlc_ts (bn_hlc n) < hlc_ts h'" "hlc_ts h' \<le> B + 1"
    using B unfolding bound_ok_def by blast
  then show thesis using sh n by (intro that [of h' e0]) (auto simp: nd_ok_def)
qed

lemma write_clock:
  assumes n: "nd_ok H B i n" and h: "hist_ok q H" and q: "q < 2 ^ 62"
  shows "unat (zget (next_clock k n) j) = (if j = i then length (H (k, i)) + 1 else unat (zget (clock_at n k) j))" and "vc_wf (next_clock k n)"
proof -
  have basic: "bn_id n = i" "unat (zget (clock_at n k) i) = length (H (k, i))" "\<And>f. Store_GetRaw (bn_store n) k = Some f \<Longrightarrow> version_ok H k f"
    using n by (simp_all add: nd_ok_def)
  have "length (H (k, i)) \<le> q" using h by (simp add: hist_ok_def)
  then have "unat (zget (clock_at n k) i) + 1 < 2 ^ 64" using basic(2) q by simp
  then have inc: "unat (zget (clock_at n k) i + 1) = length (H (k, i)) + 1" using basic(2) by (simp add: unat_word_ariths)
  then show "unat (zget (next_clock k n) j) = (if j = i then length (H (k, i)) + 1 else unat (zget (clock_at n k) j))"
    using basic(1) by (simp add: zget_next_clock)
  have "vc_wf (clock_at n k)" using basic(3) by (auto simp: clock_at_def version_ok_def vc_wf_def split: option.splits)
  moreover have "zget (clock_at n k) i + 1 \<noteq> 0" using inc by auto
  ultimately show "vc_wf (next_clock k n)"
    using basic(1) vc_wf_Increment [of "clock_at n k" i] by (auto simp: next_clock_def clock_at_def NewVectorClock_def split: option.splits)
qed

lemma clock_at_le: "nd_ok H B i n \<Longrightarrow> unat (zget (clock_at n k) j) \<le> length (H (k, j))"
  by (fastforce simp: nd_ok_def clock_at_def version_ok_def split: option.splits)

lemma clock_at_old:
  assumes "nd_ok H B i n" and "w \<in> covered H k (clock_at n k)"
  shows "fst (stamp_of H k w) \<le> hlc_ts (bn_hlc n)"
proof -
  obtain f where f: "Store_GetRaw (bn_store n) k = Some f" using assms(2) by (auto simp: covered_def clock_at_def split: option.splits)
  then have v: "version_ok H k f" "kv_Timestamp f \<le> hlc_ts (bn_hlc n)" using assms(1) by (simp_all add: nd_ok_def)
  then have "stamp_of H k w \<le> stamp f" using assms(2) f by (auto simp: clock_at_def version_ok_def picks_def)
  then show ?thesis using v(2) by (auto simp: stamp_def less_eq_prod_def)
qed

lemma write_ok:
  assumes n: "nd_ok H B i n" and h: "hist_ok q H" and B: "bound_ok B" and q: "q < 2 ^ 62" and run: "ml_write c n = Some (n', e, as)"
  shows "nd_ok (note_write e i H) (B + 1) i n'" and "hist_ok (q + 1) (note_write e i H)" and "ml_frame n n'"
    and "m \<in> set (sent_of as) \<Longrightarrow> m_Type m = MsgWrite \<and> (\<exists>f. m_Entry m = Some f \<and> version_ok (note_write e i H) (kv_Key f) f)"
proof -
  obtain h' e0 where w: "bn_hlc n' = h'" "hlc_inv h'" "hlc_ts (bn_hlc n) < hlc_ts h'" "hlc_ts h' \<le> B + 1" "kv_Timestamp e = hlc_ts h'" "kv_NodeID e = i"
    "kv_VClock e = Some (next_clock (kv_Key e) n)" "bn_store n' = Store_Set (bn_store n) e0" "e = e0\<lparr>kv_Version := kv_Version e\<rparr>" "ml_frame n n'"
    "\<And>m. m \<in> set (sent_of as) \<Longrightarrow> m_Type m = MsgWrite \<and> m_Entry m = Some e0" using write_facts [OF n B run] by blast
  let ?k = "kv_Key e" and ?H = "note_write e i H" and ?vc = "next_clock (kv_Key e) n"
  note z = write_clock(1) [OF n h q, of ?k]
  have own: "unat (zget (clock_at n k) i) = length (H (k, i))" "\<forall>w \<in> set (H (k, i)). fst w \<le> hlc_ts (bn_hlc n)" for k using n by (simp_all add: nd_ok_def)
  have "fst (stamp_of H ?k x) < kv_Timestamp e" if "x \<in> covered H ?k (clock_at n ?k)" for x
    using clock_at_old [OF n that] w(3,5) by simp
  then have "picks ?H ?k ?vc e"
    by (intro picks_new [where vc = "clock_at n ?k"]) (use z clock_at_le [OF n] own(1) w(6) in auto)
  moreover have "unat (zget ?vc j) \<le> length (?H (?k, j))" for j using z [of j] clock_at_le [OF n, of ?k j] by (auto simp: note_write_def)
  ultimately have ve: "version_ok ?H ?k e" using w(7) write_clock(2) [OF n h q] by (simp add: version_ok_def)
  have key: "kv_Key e0 = ?k" "kv_Timestamp e0 = kv_Timestamp e" "kv_VClock e0 = kv_VClock e" "version_ok ?H k e0 = version_ok ?H k e" for k
    using arg_cong [OF w(9), of kv_Key] arg_cong [OF w(9), of kv_Timestamp] arg_cong [OF w(9), of kv_VClock] arg_cong [OF w(9), of "version_ok ?H k"] by simp_all
  show "ml_frame n n'" by (rule w(10))
  show "m \<in> set (sent_of as) \<Longrightarrow> m_Type m = MsgWrite \<and> (\<exists>f. m_Entry m = Some f \<and> version_ok ?H (kv_Key f) f)" using w(11) ve key by metis
  have hr: "- (2 ^ 63) \<le> hlc_ts h'" using w(2) by (rule hlc_ts_range)
  have "sorted_wrt (<) (map fst (H (?k, i) @ [(hlc_ts h', kv_Value e, kv_Tombstone e)]))"
    using h own(2) [of ?k] w(3) by (auto simp: hist_ok_def sorted_wrt_append intro: le_less_trans)
  then show "hist_ok (q + 1) ?H" using h hr w(5) unfolding hist_ok_def by (auto simp: note_write_def intro: le_SucI)
  have raw: "Store_GetRaw (bn_store n') k = (if k = ?k then Some (e0\<lparr>kv_Version := st_version (bn_store n) + 1\<rparr>) else Store_GetRaw (bn_store n) k)" for k
    using w(8) key(1) by (simp add: GetRaw_Set)
  have ck: "clock_at n' k = (if k = ?k then ?vc else clock_at n k)" for k using key(3) w(7) by (simp add: clock_at_def raw)
  have "unat (zget (clock_at n' k) i) = length (?H (k, i))" for k using z [of i] own(1) [of k] ck by (simp add: note_write_def)
  moreover have "fst x \<le> hlc_ts h'" if "x \<in> set (?H (k, i))" for x k using that own(2) [of k] w(3,5) by (force simp: note_write_def split: if_splits)
  moreover have "version_ok ?H k f \<and> kv_Timestamp f \<le> hlc_ts h'" if "Store_GetRaw (bn_store n') k = Some f" for k f
  proof (cases "k = ?k")
    case True
    then show ?thesis using that raw ve key w(5) by auto
  next
    case False
    then have "version_ok H k f" "kv_Timestamp f \<le> hlc_ts (bn_hlc n)" using that raw n by (simp_all add: nd_ok_def)
    then show ?thesis using version_ok_note w(3) by fastforce
  qed
  ultimately show "nd_ok ?H (B + 1) i n'" using n w(1,2,4,10) unfolding nd_ok_def ml_frame_def by simp
qed

section \<open>The invariant of the cluster\<close>

definition ml_inv :: "nat \<Rightarrow> MLSys \<Rightarrow> bool" where
  "ml_inv q s \<longleftrightarrow> hist_ok q (my_hist s) \<and> (\<forall>i \<in> set (my_ids s). nd_ok (my_hist s) (2 ^ 62 + int q) i (my_node s i)) \<and>
     (\<forall>k j. j \<notin> set (my_ids s) \<longrightarrow> my_hist s (k, j) = []) \<and>
     (\<forall>m \<in># my_net s. \<exists>f. m_Entry m = Some f \<and> version_ok (my_hist s) (kv_Key f) f)"

lemma nd_ok_mono: "nd_ok H B i n \<Longrightarrow> B \<le> B' \<Longrightarrow> nd_ok H B' i n"
  by (auto simp: nd_ok_def)

lemma hist_ok_mono: "hist_ok q H \<Longrightarrow> q \<le> q' \<Longrightarrow> hist_ok q' H"
  unfolding hist_ok_def by (meson order_trans)

lemma version_time:
  assumes inv: "ml_inv q s" and v: "version_ok (my_hist s) k f"
  shows "kv_Timestamp f \<le> 2 ^ 62 + int q"
proof -
  have w: "(kv_Timestamp f, kv_Value f, kv_Tombstone f) \<in> set (my_hist s (k, kv_NodeID f))" using v by (rule version_write)
  moreover have "j \<in> set (my_ids s)" if "x \<in> set (my_hist s (k, j))" for x j using inv that unfolding ml_inv_def by (metis empty_iff list.set(1))
  ultimately have "kv_NodeID f \<in> set (my_ids s)" by blast
  then have "nd_ok (my_hist s) (2 ^ 62 + int q) (kv_NodeID f) (my_node s (kv_NodeID f))" using inv unfolding ml_inv_def by blast
  then show ?thesis using w unfolding nd_ok_def by fastforce
qed

lemma tick_sends:
  "m \<in> set (sent_of (MultiLeaderNode_antiEntropyTick n)) \<longleftrightarrow>
   \<not> BaseNode_isPaused n \<and> (\<exists>k f p. Store_GetRaw (bn_store n) k = Some f \<and> p \<in> set (bn_peers n) \<and>
     m = (msg_of MsgWrite (bn_id n) [])\<lparr>m_Entry := Some f, m_TargetID := p\<rparr>)"
proof -
  have "set (sent_of (fold (\<lambda>(k, f) as. as @ g f) xs as)) = set (sent_of as) \<union> (\<Union>(k, f) \<in> set xs. set (sent_of (g f)))" for g and xs :: "(string \<times> KVEntry) list" and as
    by (induction xs arbitrary: as) auto
  then show ?thesis
    by (auto simp: MultiLeaderNode_antiEntropyTick_def BaseNode_GetPeers_def go_range_def Store_GetRaw_def)
qed

lemma call_ok:
  assumes n: "nd_ok H B i n" and run: "ml_call c n = Some (n', as)"
  shows "nd_ok H B i n'" and "bn_peers n' = bn_peers n"
    and "m \<in> set (sent_of as) \<Longrightarrow> \<exists>f. m_Entry m = Some f \<and> version_ok H (kv_Key f) f"
proof -
  have same: "bn_id n' = bn_id n \<and> ml_resolver n' = ml_resolver n \<and> bn_store n' = bn_store n \<and> hlc_inv (bn_hlc n') = hlc_inv (bn_hlc n) \<and>
      hlc_ts (bn_hlc n') = hlc_ts (bn_hlc n) \<and> bn_peers n' = bn_peers n"
    using run by (cases c) (auto simp: MultiLeaderNode_Read_def BaseNode_Pause_def BaseNode_Resume_def BaseNode_Stop_def BaseNode_SetClockSkewMillis_def
        Let_def split: if_splits option.splits)
  then show "nd_ok H B i n'" "bn_peers n' = bn_peers n" using n by (simp_all add: nd_ok_def clock_at_def)
  have "\<exists>f. m_Entry m = Some f \<and> version_ok H (kv_Key f) f" if "m \<in> set (sent_of (MultiLeaderNode_antiEntropyTick n))"
  proof -
    from that obtain k f where "Store_GetRaw (bn_store n) k = Some f" "m_Entry m = Some f" by (auto simp: tick_sends)
    then show ?thesis using n by (auto simp: nd_ok_def version_ok_def)
  qed
  then show "m \<in> set (sent_of as) \<Longrightarrow> \<exists>f. m_Entry m = Some f \<and> version_ok H (kv_Key f) f"
    using run by (cases c) (auto simp: BaseNode_Pause_def BaseNode_Resume_def Let_def BaseNode_publishStateChange_def BaseNode_publishEvent_def split: sum.splits)
qed

lemma handle_ok:
  assumes n: "nd_ok H B i n" and h: "hist_ok q H" and B: "bound_ok B"
    and m: "\<And>f. m_Entry m = Some f \<Longrightarrow> version_ok H (kv_Key f) f \<and> kv_Timestamp f \<le> B"
    and run: "MultiLeaderNode_HandleMessage cc uid now m n = (n', as)"
  shows "nd_ok H (B + 1) i n' \<and> ml_frame n n' \<and> sent_of as = []"
proof (cases "\<exists>f. m_Entry m = Some f \<and> MultiLeaderNode_receiveRemoteWrite cc uid now f n = (n', as)")
  case True
  then show ?thesis using receive_write_ok [OF n h B] m by blast
next
  case False
  then have "n' = n \<and> as = []"
    using run by (auto simp: MultiLeaderNode_HandleMessage_def split: if_splits MessageType.splits option.splits)
  then show ?thesis using nd_ok_mono [OF n, of "B + 1"] by (simp add: ml_frame_def)
qed

lemma ml_step_inv:
  assumes "ml_step cc s s'" and inv: "ml_inv q s" and q: "q < 2 ^ 61"
  shows "ml_inv (q + 1) s' \<and> my_ids s' = my_ids s \<and> (\<forall>i. bn_peers (my_node s' i) = bn_peers (my_node s i))"
proof -
  let ?H = "my_hist s" and ?B = "2 ^ 62 + int q"
  have h: "hist_ok q ?H" and nd: "\<And>i. i \<in> set (my_ids s) \<Longrightarrow> nd_ok ?H ?B i (my_node s i)" and out: "\<And>k j. j \<notin> set (my_ids s) \<Longrightarrow> ?H (k, j) = []"
    and net: "\<And>m. m \<in># my_net s \<Longrightarrow> \<exists>f. m_Entry m = Some f \<and> version_ok ?H (kv_Key f) f" using inv by (auto simp: ml_inv_def)
  have B: "bound_ok ?B" using q by (simp add: bound_ok_def)
  have up: "nd_ok ?H (?B + 1) i (my_node s i)" if "i \<in> set (my_ids s)" for i using nd_ok_mono [OF nd [OF that]] by simp
  have h': "hist_ok (q + 1) ?H" using hist_ok_mono [OF h] by simp
  show ?thesis using assms(1)
  proof cases
    case (call i c n' as)
    note co = call_ok [OF nd [OF call(2)] call(3)]
    have "nd_ok ?H (?B + 1) i n'" using nd_ok_mono [OF co(1)] by simp
    then show ?thesis using call(1) co(2,3) up out net h' by (auto simp: ml_inv_def algebra_simps)
  next
    case (wrt i c n' e as)
    have "q < 2 ^ 62" using q by simp
    note wo = write_ok [OF nd [OF wrt(2)] h B this wrt(3)]
    have "nd_ok (note_write e i ?H) (?B + 1) j (my_node s j)" if "j \<in> set (my_ids s)" "j \<noteq> i" for j using nd_ok_other [OF nd [OF that(1)] that(2)] by simp
    moreover have "note_write e i ?H (k, j) = []" if "j \<notin> set (my_ids s)" for k j using that out wrt(2) note_other by metis
    ultimately show ?thesis using wrt(1) wo net version_ok_note by (auto simp: ml_inv_def ml_frame_def algebra_simps) metis+
  next
    case (deliver m uid now n' as)
    have "version_ok ?H (kv_Key f) f \<and> kv_Timestamp f \<le> ?B" if "m_Entry m = Some f" for f
      using net [OF deliver(2)] that version_time [OF inv] by auto
    then have "nd_ok ?H (?B + 1) (m_TargetID m) n' \<and> ml_frame (my_node s (m_TargetID m)) n' \<and> sent_of as = []"
      using handle_ok [OF nd [OF deliver(3)] h B _ deliver(4)] by blast
    then show ?thesis using deliver(1) up out net h' by (auto simp: ml_inv_def ml_frame_def algebra_simps dest: in_diffD)
  next
    case (lose m)
    then show ?thesis using up out net h' by (auto simp: ml_inv_def algebra_simps dest: in_diffD)
  qed
qed

section \<open>Reachable states\<close>

lemma init_ml_ok:
  assumes "lww_like res"
  shows "ml_inv 0 (init_ml cid res ids)" and "my_ids (init_ml cid res ids) = ids"
    and "set (bn_peers (my_node (init_ml cid res ids) i)) = set ids - {i}"
proof -
  have peers: "set (fold (\<lambda>i xs. if i \<in> set xs then xs else xs @ [i]) ps xs) = set xs \<union> set ps" for ps xs :: "node_id list"
    by (induction ps arbitrary: xs) auto
  show "set (bn_peers (my_node (init_ml cid res ids) i)) = set ids - {i}"
    by (auto simp: init_ml_def init_mln_def fold_AddPeer peers NewMultiLeaderNode_def newBaseNode_def BaseNode.defs MultiLeaderNode.defs)
  show "my_ids (init_ml cid res ids) = ids" by (simp add: init_ml_def)
  have "nd_ok (\<lambda>_. []) (2 ^ 62) i (init_mln cid res ids i)" for i
    using assms by (simp add: nd_ok_def init_mln_def fold_AddPeer NewMultiLeaderNode_def newBaseNode_def BaseNode.defs MultiLeaderNode.defs hlc_inv_New
        clock_at_def Store_GetRaw_def NewStore_def)
  then show "ml_inv 0 (init_ml cid res ids)" by (simp add: ml_inv_def init_ml_def hist_ok_def)
qed

lemma ml_reach_inv:
  assumes "lww_like res" and "(ml_step cc ^^ q) (init_ml cid res ids) s" and "q < 2 ^ 61"
  shows "ml_inv q s \<and> my_ids s = ids \<and> (\<forall>i. set (bn_peers (my_node s i)) = set ids - {i})"
  using assms(2,3)
proof (induction q arbitrary: s)
  case 0
  then show ?case using init_ml_ok [OF assms(1)] by auto
next
  case (Suc q)
  then obtain s0 where s0: "(ml_step cc ^^ q) (init_ml cid res ids) s0" "ml_step cc s0 s" by auto
  have q: "q < 2 ^ 61" using Suc.prems(2) by simp
  note ih = Suc.IH [OF s0(1) q]
  then show ?case using ml_step_inv [OF s0(2) _ q] by simp
qed

lemma same_clock_same_version:
  assumes "hist_ok q H" and "version_ok H k e" and "version_ok H k f" and "kv_VClock e = kv_VClock f"
  shows "same_version e f"
  using assms picks_unique [of q H k _ e f] unfolding version_ok_def by fastforce

text \<open>C8. Multi-leader replication with last write wins is convergent. In every run of the cluster of less than
  \<open>2 ^ 61\<close> steps, with messages lost, reordered and sent again, a version a node holds for a key is a
  write one of the leaders accepted; it is, by timestamp and node, the last of the writes its vector
  clock counts; and two nodes whose versions carry the same clock hold the same version.\<close>

theorem multi_leader_convergence:
  assumes "lww_like res" and "(ml_step cc ^^ q) (init_ml cid res ids) s" and "q < 2 ^ 61" and "i \<in> set ids" and "j \<in> set ids"
    and "Store_GetRaw (bn_store (my_node s i)) k = Some e" and "Store_GetRaw (bn_store (my_node s j)) k = Some f"
  shows "kv_NodeID e \<in> set ids \<and> (kv_Timestamp e, kv_Value e, kv_Tombstone e) \<in> set (my_hist s (k, kv_NodeID e)) \<and>
    (\<forall>l m. m < unat (zget (vc_of (kv_VClock e)) l) \<longrightarrow> (fst (my_hist s (k, l) ! m), l) \<le> (kv_Timestamp e, kv_NodeID e)) \<and>
    (kv_VClock e = kv_VClock f \<longrightarrow> same_version e f)"
proof -
  have inv: "ml_inv q s" "my_ids s = ids" using ml_reach_inv [OF assms(1-3)] by simp_all
  have ok: "version_ok (my_hist s) k e" "version_ok (my_hist s) k f" "hist_ok q (my_hist s)"
    using inv assms(4-7) by (simp_all add: ml_inv_def nd_ok_def)
  note w = version_write [OF ok(1)]
  have "kv_NodeID e \<in> set ids" using inv w unfolding ml_inv_def by (metis empty_iff list.set(1))
  moreover have "(fst (my_hist s (k, l) ! m), l) \<le> (kv_Timestamp e, kv_NodeID e)" if "m < unat (zget (vc_of (kv_VClock e)) l)" for l m
    using ok(1) that unfolding version_ok_def picks_def covered_def stamp_of_def stamp_def by force
  ultimately show ?thesis using w same_clock_same_version [OF ok(3,1,2)] by blast
qed

section \<open>A round of anti-entropy\<close>

text \<open>The messages of one tick at every node that go to node \<open>i\<close>, and their handling there in some order.\<close>

definition round_msgs :: "MLSys \<Rightarrow> node_id \<Rightarrow> Message set" where
  "round_msgs s i = {m. \<exists>j \<in> set (my_ids s). m \<in> set (sent_of (MultiLeaderNode_antiEntropyTick (my_node s j))) \<and> m_TargetID m = i}"

definition handle_all :: "CrdtCodec \<Rightarrow> (string \<times> int \<times> Message) list \<Rightarrow> MultiLeaderNode \<Rightarrow> MultiLeaderNode" where
  "handle_all cc ds n = fold (\<lambda>(uid, now, m) n. fst (MultiLeaderNode_HandleMessage cc uid now m n)) ds n"

definition msgs_of :: "(string \<times> int \<times> Message) list \<Rightarrow> Message set" where
  "msgs_of ds = (\<lambda>d. snd (snd d)) ` set ds"

text \<open>Node \<open>n\<close> holds, for key \<open>k\<close>, the join of the clocks in the set.\<close>

definition joined :: "string \<Rightarrow> KVEntry set \<Rightarrow> MultiLeaderNode \<Rightarrow> bool" where
  "joined k E n \<longleftrightarrow> (\<forall>l w. zget (clock_at n k) l \<le> w \<longleftrightarrow> (\<forall>f \<in> E. zget (vc_of (kv_VClock f)) l \<le> w)) \<and> (Store_GetRaw (bn_store n) k = None \<longleftrightarrow> E = {})"

lemma joined_start: "joined k (set_option (Store_GetRaw (bn_store n) k)) n"
  by (auto simp: joined_def clock_at_def split: option.splits)

lemma joined_receive:
  assumes n: "nd_ok H B i n" and h: "hist_ok q H" and B: "bound_ok B" and r: "version_ok H (kv_Key r) r" "kv_Timestamp r \<le> B" and j: "joined k E n"
    and run: "MultiLeaderNode_receiveRemoteWrite cc uid now r n = (n', as)"
  shows "joined k (if kv_Key r = k then insert r E else E) n'"
  using receive_write_ok [OF n h B r run] j by (auto simp: joined_def clock_at_def)

lemma handle_all_joined:
  assumes "nd_ok H B i n" and h: "hist_ok q H" and "bound_ok (B + int (length ds))" and "9223372036854 * 65536 \<le> B" and "\<not> BaseNode_isPaused n"
    and "\<forall>m \<in> msgs_of ds. m_Type m = MsgWrite \<and> (\<exists>f. m_Entry m = Some f \<and> version_ok H (kv_Key f) f \<and> kv_Timestamp f \<le> B)" and "joined k E n"
  shows "nd_ok H (B + int (length ds)) i (handle_all cc ds n) \<and>
    joined k (E \<union> {f. kv_Key f = k \<and> (\<exists>m \<in> msgs_of ds. m_Entry m = Some f)}) (handle_all cc ds n)"
  using assms(1,3-)
proof (induction ds arbitrary: n B E)
  case Nil
  then show ?case by (simp add: handle_all_def msgs_of_def)
next
  case (Cons d ds)
  obtain uid now m where d: "d = (uid, now, m)" by (cases d)
  have ms: "m \<in> msgs_of (d # ds)" "msgs_of ds \<subseteq> msgs_of (d # ds)" using d by (auto simp: msgs_of_def)
  then obtain f where f: "m_Type m = MsgWrite" "m_Entry m = Some f" "version_ok H (kv_Key f) f" "kv_Timestamp f \<le> B" using Cons.prems(5) by blast
  obtain n' as where r: "MultiLeaderNode_receiveRemoteWrite cc uid now f n = (n', as)" by fastforce
  have B: "bound_ok B" using Cons.prems(2,3) by (simp add: bound_ok_def)
  have n': "nd_ok H (B + 1) i n'" "ml_frame n n'" using receive_write_ok [OF Cons.prems(1) h B f(3,4) r] by simp_all
  have all: "handle_all cc (d # ds) n = handle_all cc ds n'"
    using d f(1,2) r Cons.prems(4) by (simp add: handle_all_def MultiLeaderNode_HandleMessage_def)
  have "nd_ok H (B + 1 + int (length ds)) i (handle_all cc ds n') \<and>
      joined k ((if kv_Key f = k then insert f E else E) \<union> {f. kv_Key f = k \<and> (\<exists>m \<in> msgs_of ds. m_Entry m = Some f)}) (handle_all cc ds n')"
  proof (rule Cons.IH [OF n'(1) _ _ _ _ joined_receive [OF Cons.prems(1) h B f(3,4) Cons.prems(6) r]])
    show "bound_ok (B + 1 + int (length ds))" "9223372036854 * 65536 \<le> B + 1" using Cons.prems(2,3) by (simp_all add: algebra_simps)
    show "\<not> BaseNode_isPaused n'" using Cons.prems(4) n'(2) by (simp add: BaseNode_isPaused_def ml_frame_def)
    show "\<forall>m \<in> msgs_of ds. m_Type m = MsgWrite \<and> (\<exists>f. m_Entry m = Some f \<and> version_ok H (kv_Key f) f \<and> kv_Timestamp f \<le> B + 1)"
      using Cons.prems(5) ms(2) by (meson add_increasing2 subsetD zero_le_one)
  qed
  moreover have "(if kv_Key f = k then insert f E else E) \<union> {f. kv_Key f = k \<and> (\<exists>m \<in> msgs_of ds. m_Entry m = Some f)} =
      E \<union> {f. kv_Key f = k \<and> (\<exists>m \<in> msgs_of (d # ds). m_Entry m = Some f)}" using d f(2) by (auto simp: msgs_of_def)
  ultimately show ?case using all by (simp add: algebra_simps)
qed

lemma joined_same_clock:
  assumes "joined k E n" and "joined k E n'" and "hist_ok q H" and "nd_ok H B i n" and "nd_ok H B' j n'"
  shows "rel_option (\<lambda>e f. kv_VClock e = kv_VClock f \<and> same_version e f) (Store_GetRaw (bn_store n) k) (Store_GetRaw (bn_store n') k)"
proof (cases "E = {}")
  case True
  then show ?thesis using assms(1,2) by (simp add: joined_def)
next
  case False
  then obtain e f where ef: "Store_GetRaw (bn_store n) k = Some e" "Store_GetRaw (bn_store n') k = Some f" using assms(1,2) by (auto simp: joined_def)
  then have v: "version_ok H k e" "version_ok H k f" using assms(4,5) by (simp_all add: nd_ok_def)
  have "zget (clock_at n k) l \<le> w \<longleftrightarrow> zget (clock_at n' k) l \<le> w" for l w using assms(1,2) by (simp add: joined_def)
  then have "zget (clock_at n k) l = zget (clock_at n' k) l" for l by (meson order_antisym order_refl)
  then have "kv_VClock e = kv_VClock f" using v ef vc_wf_ext by (fastforce simp: version_ok_def clock_at_def)
  then show ?thesis using ef same_clock_same_version [OF assms(3) v] by simp
qed

lemma round_entries:
  assumes inv: "ml_inv q s" and i: "i \<in> set (my_ids s)" and run: "\<forall>l \<in> set (my_ids s). \<not> BaseNode_isPaused (my_node s l)"
    and peers: "\<And>l. set (bn_peers (my_node s l)) = set (my_ids s) - {l}"
  shows "set_option (Store_GetRaw (bn_store (my_node s i)) k) \<union> {f. kv_Key f = k \<and> (\<exists>m \<in> round_msgs s i. m_Entry m = Some f)} =
    {f. \<exists>l \<in> set (my_ids s). Store_GetRaw (bn_store (my_node s l)) k = Some f}" (is "?own \<union> ?got = ?all")
proof -
  have key: "kv_Key f = k'" if "l \<in> set (my_ids s)" "Store_GetRaw (bn_store (my_node s l)) k' = Some f" for l k' f
    using inv that by (auto simp: ml_inv_def nd_ok_def version_ok_def)
  have "?got \<subseteq> ?all" using key by (fastforce simp: round_msgs_def tick_sends)
  moreover have "f \<in> ?got" if "l \<in> set (my_ids s)" "l \<noteq> i" "Store_GetRaw (bn_store (my_node s l)) k = Some f" for l f
  proof -
    let ?m = "(msg_of MsgWrite (bn_id (my_node s l)) [])\<lparr>m_Entry := Some f, m_TargetID := i\<rparr>"
    have "?m \<in> set (sent_of (MultiLeaderNode_antiEntropyTick (my_node s l)))" unfolding tick_sends using run peers [of l] i that by auto
    then have "?m \<in> round_msgs s i" using that(1) unfolding round_msgs_def by auto
    then show ?thesis using key [OF that(1,3)] by (auto intro!: bexI [of _ ?m])
  qed
  moreover have "f \<in> ?own \<longleftrightarrow> Store_GetRaw (bn_store (my_node s i)) k = Some f" for f by (simp add: elem_set)
  ultimately show ?thesis using i by (intro set_eqI iffI) blast+
qed

lemma round_sends:
  assumes inv: "ml_inv q s" and "m \<in> round_msgs s i"
  shows "m_Type m = MsgWrite \<and> (\<exists>f. m_Entry m = Some f \<and> version_ok (my_hist s) (kv_Key f) f \<and> kv_Timestamp f \<le> 2 ^ 62 + int q)"
proof -
  from assms(2) obtain l k f where l: "l \<in> set (my_ids s)" "Store_GetRaw (bn_store (my_node s l)) k = Some f" and m: "m_Type m = MsgWrite" "m_Entry m = Some f"
    by (auto simp: round_msgs_def tick_sends msg_of_def)
  then have "version_ok (my_hist s) k f" using inv by (simp add: ml_inv_def nd_ok_def)
  then show ?thesis using m version_time [OF inv] by (auto simp: version_ok_def)
qed

lemma round_node:
  assumes inv: "ml_inv q s" and i: "i \<in> set (my_ids s)" and run: "\<forall>l \<in> set (my_ids s). \<not> BaseNode_isPaused (my_node s l)"
    and peers: "\<And>l. set (bn_peers (my_node s l)) = set (my_ids s) - {l}" and ds: "msgs_of ds = round_msgs s i" "q + length ds < 2 ^ 61"
  shows "nd_ok (my_hist s) (2 ^ 62 + int q + int (length ds)) i (handle_all cc ds (my_node s i)) \<and>
    joined k {f. \<exists>l \<in> set (my_ids s). Store_GetRaw (bn_store (my_node s l)) k = Some f} (handle_all cc ds (my_node s i))"
proof -
  have n: "nd_ok (my_hist s) (2 ^ 62 + int q) i (my_node s i)" and h: "hist_ok q (my_hist s)" using inv i by (auto simp: ml_inv_def)
  have "int q + int (length ds) < 2 ^ 61" using ds(2) by simp
  then have B: "bound_ok (2 ^ 62 + int q + int (length ds))" by (simp add: bound_ok_def)
  show ?thesis
    using handle_all_joined [OF n h B _ _ _ joined_start] round_sends [OF inv] round_entries [OF inv i run peers] ds(1) run i by simp
qed


section \<open>Runs that compute\<close>

datatype MLEvent = VCall node_id MLCall | VWrite node_id MLWrite | VDeliver string int nat

fun ml_event :: "CrdtCodec \<Rightarrow> MLEvent \<Rightarrow> MLSys \<times> Message list \<Rightarrow> (MLSys \<times> Message list) option" where
  "ml_event cc (VCall i c) (s, ms) =
     (if i \<in> set (my_ids s)
      then case ml_call c (my_node s i) of None \<Rightarrow> None
           | Some (n', as) \<Rightarrow> Some (s\<lparr>my_node := (my_node s)(i := n')\<rparr>, ms @ sent_of as)
      else None)"
| "ml_event cc (VWrite i c) (s, ms) =
     (if i \<in> set (my_ids s)
      then case ml_write c (my_node s i) of None \<Rightarrow> None
           | Some (n', e, as) \<Rightarrow> Some (s\<lparr>my_node := (my_node s)(i := n'), my_hist := note_write e i (my_hist s)\<rparr>, ms @ sent_of as)
      else None)"
| "ml_event cc (VDeliver uid now k) (s, ms) =
     (if k < length ms \<and> m_TargetID (ms ! k) \<in> set (my_ids s)
      then case MultiLeaderNode_HandleMessage cc uid now (ms ! k) (my_node s (m_TargetID (ms ! k))) of
             (n', as) \<Rightarrow> Some (s\<lparr>my_node := (my_node s)(m_TargetID (ms ! k) := n')\<rparr>, drop_nth k ms @ sent_of as)
      else None)"

fun ml_exec :: "CrdtCodec \<Rightarrow> MLEvent list \<Rightarrow> MLSys \<times> Message list \<Rightarrow> (MLSys \<times> Message list) option" where
  "ml_exec cc [] x = Some x"
| "ml_exec cc (e # es) x = Option.bind (ml_event cc e x) (ml_exec cc es)"

abbreviation ml_net :: "Message list \<Rightarrow> MLSys \<Rightarrow> MLSys" where
  "ml_net ms s \<equiv> s\<lparr>my_net := mset ms\<rparr>"

lemma ml_event_step:
  assumes "ml_event cc e (s, ms) = Some (s', ms')"
  shows "ml_step cc (ml_net ms s) (ml_net ms' s')"
proof (cases e)
  case (VCall i c)
  then obtain n' as where "i \<in> set (my_ids s)" "ml_call c (my_node s i) = Some (n', as)" "s' = s\<lparr>my_node := (my_node s)(i := n')\<rparr>" "ms' = ms @ sent_of as"
    using assms by (auto split: if_splits option.splits)
  then show ?thesis using ml_step.call [of i "ml_net ms s" c n' as cc] by simp
next
  case (VWrite i c)
  then obtain n' e as where "i \<in> set (my_ids s)" "ml_write c (my_node s i) = Some (n', e, as)"
    "s' = s\<lparr>my_node := (my_node s)(i := n'), my_hist := note_write e i (my_hist s)\<rparr>" "ms' = ms @ sent_of as"
    using assms by (auto split: if_splits option.splits)
  then show ?thesis using ml_step.wrt [of i "ml_net ms s" c n' e as cc] by (cases s) simp
next
  case (VDeliver uid now k)
  let ?m = "ms ! k"
  obtain n' as where r: "MultiLeaderNode_HandleMessage cc uid now ?m (my_node s (m_TargetID ?m)) = (n', as)" by fastforce
  have "k < length ms" "m_TargetID ?m \<in> set (my_ids s)" "s' = s\<lparr>my_node := (my_node s)(m_TargetID ?m := n')\<rparr>" "ms' = drop_nth k ms @ sent_of as"
    using assms VDeliver r by (auto split: if_splits)
  then show ?thesis using ml_step.deliver [of ?m "ml_net ms s" cc uid now n' as] r mset_drop_nth [of k ms] by simp
qed

lemma ml_exec_steps: "ml_exec cc es (s, ms) = Some (s', ms') \<Longrightarrow> (ml_step cc ^^ length es) (ml_net ms s) (ml_net ms' s')"
proof (induction es arbitrary: s ms)
  case (Cons e es)
  then obtain s1 ms1 where "ml_event cc e (s, ms) = Some (s1, ms1)" "ml_exec cc es (s1, ms1) = Some (s', ms')"
    by (auto simp: Option.bind_eq_Some_conv)
  then show ?case using Cons.IH ml_event_step by (metis length_Cons relpowp_Suc_I2)
qed simp

definition ml_end :: "(MLSys \<times> Message list) option \<Rightarrow> MLSys" where
  "ml_end r = ml_net (snd (the r)) (fst (the r))"

lemma ml_exec_reach:
  assumes "ml_exec cc es (init_ml cid res ids, []) \<noteq> None"
  shows "(ml_step cc ^^ length es) (init_ml cid res ids) (ml_end (ml_exec cc es (init_ml cid res ids, [])))"
proof -
  obtain s ms where r: "ml_exec cc es (init_ml cid res ids, []) = Some (s, ms)" using assms by auto
  have "ml_net [] (init_ml cid res ids) = init_ml cid res ids" by (simp add: init_ml_def)
  then show ?thesis using ml_exec_steps [OF r] r by (simp add: ml_end_def)
qed

text \<open>Nodes \<open>a\<close> and \<open>b\<close> write \<open>x\<close> at once; node \<open>c\<close> hears of the first write only and deletes \<open>x\<close>,
  which \<open>a\<close> hears of.\<close>

definition no_codec :: CrdtCodec where
  "no_codec = \<lparr>cc_tag = (\<lambda>_. None), cc_gcounter = (\<lambda>_. None), cc_pncounter = (\<lambda>_. None), cc_orset = (\<lambda>_. None), cc_lwwmap = (\<lambda>_. None),
     cc_rga = (\<lambda>_. None), cc_enc_gcounter = (\<lambda>_. None), cc_enc_pncounter = (\<lambda>_. None), cc_enc_orset = (\<lambda>_. None),
     cc_enc_lwwmap = (\<lambda>_. None), cc_enc_rga = (\<lambda>_. None)\<rparr>"

definition demo_ml_run :: "(MLSys \<times> Message list) option" where
  "demo_ml_run = ml_exec no_codec
     [VWrite ''a'' (MWrite 5000000 0 ''x'' (Some ''1'')), VWrite ''b'' (MWrite 7000000 0 ''x'' (Some ''2'')), VDeliver ''u'' 6000000 1,
      VWrite ''c'' (MDelete 6000000 ''x''), VDeliver ''u'' 6500000 3]
     (init_ml ''k'' (VectorClockResolver LWWResolver) [''a'', ''b'', ''c''], [])"

definition demo_ml :: MLSys where
  "demo_ml = ml_end demo_ml_run"

lemma demo_ml_reach:
  "(ml_step no_codec ^^ 5) (init_ml ''k'' (VectorClockResolver LWWResolver) [''a'', ''b'', ''c'']) demo_ml"
proof -
  have "demo_ml_run \<noteq> None" by code_simp
  from ml_exec_reach [OF this [unfolded demo_ml_run_def]] show ?thesis by (simp add: demo_ml_def demo_ml_run_def numeral_eq_Suc)
qed

definition demo_version :: "node_id \<Rightarrow> KVEntry" where
  "demo_version i = the (Store_GetRaw (bn_store (my_node demo_ml i)) ''x'')"

lemma demo_versions:
  "Store_GetRaw (bn_store (my_node demo_ml ''a'')) ''x'' = Some (demo_version ''a'')" "Store_GetRaw (bn_store (my_node demo_ml ''c'')) ''x'' = Some (demo_version ''c'')"
proof -
  have "Store_GetRaw (bn_store (my_node demo_ml ''a'')) ''x'' \<noteq> None" by code_simp
  moreover have "Store_GetRaw (bn_store (my_node demo_ml ''c'')) ''x'' \<noteq> None" by code_simp
  ultimately show "Store_GetRaw (bn_store (my_node demo_ml ''a'')) ''x'' = Some (demo_version ''a'')"
    "Store_GetRaw (bn_store (my_node demo_ml ''c'')) ''x'' = Some (demo_version ''c'')" by (auto simp: demo_version_def)
qed

theorem multi_leader_convergence_witness:
  "my_hist demo_ml (''x'', ''c'') = [(kv_Timestamp (demo_version ''a''), None, True)] \<and> same_version (demo_version ''a'') (demo_version ''c'') \<and>
   (fst (my_hist demo_ml (''x'', ''a'') ! 0), ''a'') \<le> (kv_Timestamp (demo_version ''a''), kv_NodeID (demo_version ''a''))"
proof -
  have c: "kv_VClock (demo_version ''a'') = kv_VClock (demo_version ''c'')" by code_simp
  have h: "my_hist demo_ml (''x'', ''c'') = [(kv_Timestamp (demo_version ''a''), None, True)]" by code_simp
  have z: "0 < unat (zget (vc_of (kv_VClock (demo_version ''a''))) ''a'')" by code_simp
  have r: "lww_like (VectorClockResolver LWWResolver)" "(5 :: nat) < 2 ^ 61" "''a'' \<in> set [''a'', ''b'', ''c'']" "''c'' \<in> set [''a'', ''b'', ''c'']" by simp_all
  show ?thesis using multi_leader_convergence [OF r(1) demo_ml_reach r(2-4) demo_versions] c h z by blast
qed

definition demo_round :: "node_id \<Rightarrow> (string \<times> int \<times> Message) list" where
  "demo_round i = map (\<lambda>m. (''u'', 9000000, m))
     (filter (\<lambda>m. m_TargetID m = i) (concat (map (\<lambda>j. sent_of (MultiLeaderNode_antiEntropyTick (my_node demo_ml j))) (my_ids demo_ml))))"

lemma demo_round_msgs: "msgs_of (demo_round i) = round_msgs demo_ml i"
  by (auto simp: demo_round_def msgs_of_def round_msgs_def image_image)



end
