(* ===== verification/Leaderless.thy ===== *)
theory Leaderless
  imports NodeBase HashRing Quorum
begin

text \<open>
  Dynamo-style replication, \<open>internal/node/leaderless.go\<close>. A coordinator sends a write to the preference list
  of the key and waits for a quorum; short of one it borrows stand-ins (sloppy quorum); a replica that did not
  answer gets a hint. A read asks replicas, takes the newest version by timestamp and node, and repairs
  the stale ones. The goroutine of a call is cut where it waits for a channel or a timer: the records
  \<open>WriteWait\<close>, \<open>HintWait\<close>, \<open>ReadWait\<close> and \<open>RepairWait\<close> hold the local variables of a call that waits, and each
  \<open>recv\<close> function is one receive. A timer may fire at any moment. \<open>rand.Shuffle\<close> is a parameter, the
  wall clock and the measured latencies are arguments.
\<close>

section \<open>Policies and state\<close>

datatype ReadRepairMode = RepairAsync | RepairSync | RepairDigest | RepairOther string

datatype ConsistencyLevel = CLQuorum | CLLocalQuorum | CLEachQuorum | CLOther string

fun repair_string :: "ReadRepairMode \<Rightarrow> string" where
  "repair_string RepairAsync = ''async''"
| "repair_string RepairSync = ''sync''"
| "repair_string RepairDigest = ''digest''"
| "repair_string (RepairOther s) = s"

fun level_string :: "ConsistencyLevel \<Rightarrow> string" where
  "level_string CLQuorum = ''quorum''"
| "level_string CLLocalQuorum = ''local_quorum''"
| "level_string CLEachQuorum = ''each_quorum''"
| "level_string (CLOther s) = s"

record readResp =
  rr_senderID :: node_id
  rr_entry :: "KVEntry option"
  rr_hash :: string

record LeaderlessNode = BaseNode +
  ll_qConfig :: QuorumConfig
  ll_allNodes :: "node_id list"
  ll_hints :: "(node_id, KVEntry list) fmap"
  ll_ring :: Ring
  ll_regions :: "(node_id, string) fmap"
  ll_selfRegion :: string
  ll_repairMode :: ReadRepairMode
  ll_consistencyLevel :: ConsistencyLevel
  ll_sloppy :: bool
  ll_seqNo :: nat
  ll_writeAcks :: "(nat, node_id GoChan) fmap"
  ll_readResps :: "(nat, readResp GoChan) fmap"

definition NewLeaderlessNode :: "node_id \<Rightarrow> string \<Rightarrow> QuorumConfig \<Rightarrow> LeaderlessNode" where
  "NewLeaderlessNode i clusterID q =
     BaseNode.extend (newBaseNode i clusterID StrategyLeaderless RoleReplica)
       (LeaderlessNode.fields q [i] fmempty (Ring_Add (NewRing 128) i) fmempty [] RepairAsync CLQuorum True 0 fmempty fmempty)"

definition LeaderlessNode_SetAllNodes :: "node_id list \<Rightarrow> LeaderlessNode \<Rightarrow> LeaderlessNode" where
  "LeaderlessNode_SetAllNodes nodes n = n\<lparr>ll_allNodes := nodes, ll_ring := fold (\<lambda>i r. Ring_Add r i) nodes (NewRing 128)\<rparr>"

definition LeaderlessNode_SetRegions :: "(node_id, string) fmap \<Rightarrow> LeaderlessNode \<Rightarrow> LeaderlessNode" where
  "LeaderlessNode_SetRegions regions n =
     (let cp = go_range (\<lambda>k v cp. fmupd k v cp) regions fmempty
      in n\<lparr>ll_regions := cp, ll_selfRegion := (case fmlookup cp (bn_id n) of None \<Rightarrow> [] | Some r \<Rightarrow> r)\<rparr>)"

definition LeaderlessNode_SetReadRepairMode :: "ReadRepairMode \<Rightarrow> LeaderlessNode \<Rightarrow> LeaderlessNode" where
  "LeaderlessNode_SetReadRepairMode m n = n\<lparr>ll_repairMode := (if repair_string m = [] then RepairAsync else m)\<rparr>"

definition LeaderlessNode_SetConsistencyLevel :: "ConsistencyLevel \<Rightarrow> LeaderlessNode \<Rightarrow> LeaderlessNode" where
  "LeaderlessNode_SetConsistencyLevel cl n = n\<lparr>ll_consistencyLevel := (if level_string cl = [] then CLQuorum else cl)\<rparr>"

definition LeaderlessNode_SetSloppyQuorum :: "bool \<Rightarrow> LeaderlessNode \<Rightarrow> LeaderlessNode" where
  "LeaderlessNode_SetSloppyQuorum on n = n\<lparr>ll_sloppy := on\<rparr>"

definition LeaderlessNode_UpdateQuorum :: "QuorumConfig \<Rightarrow> LeaderlessNode \<Rightarrow> LeaderlessNode" where
  "LeaderlessNode_UpdateQuorum q n = n\<lparr>ll_qConfig := q\<rparr>"

section \<open>Placement and quorums\<close>

definition LeaderlessNode_replicasFor :: "string \<Rightarrow> LeaderlessNode \<Rightarrow> node_id list" where
  "LeaderlessNode_replicasFor key n =
     (let pl = Ring_PreferenceList (ll_ring n) key (qc_N (ll_qConfig n))
      in if 0 < length pl then pl else ll_allNodes n)"

definition LeaderlessNode_fallbackNodes :: "string \<Rightarrow> node_id list \<Rightarrow> int \<Rightarrow> LeaderlessNode \<Rightarrow> node_id list" where
  "LeaderlessNode_fallbackNodes key replicas extra n =
     filter (\<lambda>i. i \<notin> set replicas \<and> i \<noteq> bn_id n) (Ring_PreferenceList (ll_ring n) key (qc_N (ll_qConfig n) + extra))"

definition LeaderlessNode_getOtherNodes :: "LeaderlessNode \<Rightarrow> node_id list" where
  "LeaderlessNode_getOtherNodes n = filter (\<lambda>i. i \<noteq> bn_id n) (ll_allNodes n)"

fun top_up :: "node_id list \<Rightarrow> node_id list \<Rightarrow> node_id list \<Rightarrow> node_id list" where
  "top_up [] inSet others = others"
| "top_up (i # ids) inSet others = (if i \<notin> set inSet then top_up ids (i # inSet) (others @ [i]) else top_up ids inSet others)"

definition LeaderlessNode_readTargets :: "(node_id list \<Rightarrow> node_id list) \<Rightarrow> string \<Rightarrow> int \<Rightarrow> LeaderlessNode \<Rightarrow> node_id list" where
  "LeaderlessNode_readTargets shuffle key cnt n =
     (let pref = filter (\<lambda>r. r \<noteq> bn_id n) (LeaderlessNode_replicasFor key n);
          others = (if int (length pref) < cnt then top_up (LeaderlessNode_getOtherNodes n) (bn_id n # pref) pref else pref)
      in if cnt \<ge> int (length others) then others else take (nat cnt) (shuffle others))"

definition LeaderlessNode_regionOf :: "LeaderlessNode \<Rightarrow> node_id \<Rightarrow> string" where
  "LeaderlessNode_regionOf n i = (case fmlookup (ll_regions n) i of None \<Rightarrow> [] | Some r \<Rightarrow> r)"

definition replicaRegions :: "node_id list \<Rightarrow> LeaderlessNode \<Rightarrow> string list" where
  "replicaRegions replicas n =
     fold (\<lambda>r out. let reg = LeaderlessNode_regionOf n r in if reg \<in> set out then out else out @ [reg]) replicas []"

definition regionQuorum :: "node_id list \<Rightarrow> string \<Rightarrow> LeaderlessNode \<Rightarrow> nat" where
  "regionQuorum replicas region n =
     (let cnt = length (filter (\<lambda>r. LeaderlessNode_regionOf n r = region) replicas) in if cnt = 0 then 1 else cnt div 2 + 1)"

definition countInRegion :: "(node_id, bool) fmap \<Rightarrow> string \<Rightarrow> LeaderlessNode \<Rightarrow> nat" where
  "countInRegion acked region n = go_range (\<lambda>i _ c. if LeaderlessNode_regionOf n i = region then c + 1 else c) acked 0"

definition LeaderlessNode_writeQuorumMet :: "(node_id, bool) fmap \<Rightarrow> node_id list \<Rightarrow> bool \<Rightarrow> LeaderlessNode \<Rightarrow> bool" where
  "LeaderlessNode_writeQuorumMet acked replicas selfIsReplica n =
     (let copy = go_range (\<lambda>k _ t. fmupd k True t) acked fmempty;
          total = (if selfIsReplica then fmupd (bn_id n) True copy else copy)
      in case ll_consistencyLevel n of
           CLLocalQuorum \<Rightarrow> countInRegion total (ll_selfRegion n) n \<ge> regionQuorum replicas (ll_selfRegion n) n
         | CLEachQuorum \<Rightarrow> list_all (\<lambda>region. \<not> countInRegion total region n < regionQuorum replicas region n) (replicaRegions replicas n)
         | _ \<Rightarrow> int (go_len total) \<ge> qc_W (ll_qConfig n))"

section \<open>Versions\<close>

definition entryWins :: "KVEntry \<Rightarrow> KVEntry \<Rightarrow> bool" where
  "entryWins a b = (if kv_Timestamp a \<noteq> kv_Timestamp b then kv_Timestamp a > kv_Timestamp b else kv_NodeID b < kv_NodeID a)"

text \<open>\<open>%d\<close>, \<open>%t\<close> and \<open>FormatUint(_, 16)\<close>.\<close>

definition format_d :: "int \<Rightarrow> string" where
  "format_d i = (if i < 0 then ''-'' @ decimal (nat (- i)) else decimal (nat i))"

definition format_t :: "bool \<Rightarrow> string" where
  "format_t b = (if b then ''true'' else ''false'')"

definition hex_digit :: "nat \<Rightarrow> char" where
  "hex_digit d = char_of (if d < 10 then 48 + d else 87 + d)"

fun hexadecimal :: "nat \<Rightarrow> string" where
  "hexadecimal n = (if n < 16 then [hex_digit n] else hexadecimal (n div 16) @ [hex_digit (n mod 16)])"

declare hexadecimal.simps [simp del]

definition entryHash :: "KVEntry \<Rightarrow> string" where
  "entryHash e =
     hexadecimal (unat (hashKey (format_d (kv_Timestamp e) @ [CHR 0x00] @ kv_NodeID e @ [CHR 0x00] @ format_t (kv_Tombstone e) @
       [CHR 0x00] @ (case kv_Value e of None \<Rightarrow> [] | Some v \<Rightarrow> v))))"

definition LeaderlessNode_applyWrite :: "int \<Rightarrow> KVEntry \<Rightarrow> LeaderlessNode \<Rightarrow> LeaderlessNode" where
  "LeaderlessNode_applyWrite now entry n0 =
     (let (n, _) = BaseNode_HLCUpdate now (kv_Timestamp entry) n0 in
      case Store_GetRaw (bn_store n) (kv_Key entry) of
        None \<Rightarrow> n\<lparr>bn_store := Store_Set (bn_store n) entry\<rparr>
      | Some existing \<Rightarrow> if entryWins entry existing then n\<lparr>bn_store := Store_Set (bn_store n) entry\<rparr> else n)"

section \<open>Hinted handoff and messages\<close>

text \<open>\<open>deliverHints\<close> deletes from the map it ranges over, at the key it is at.\<close>

definition deliver_to :: "int \<Rightarrow> node_id \<Rightarrow> KVEntry list \<Rightarrow> LeaderlessNode \<times> Action list \<Rightarrow> LeaderlessNode \<times> Action list" where
  "deliver_to now target entries x =
     (let (n, as) = x in
      if length entries = 0 then (n, as)
      else (n\<lparr>ll_hints := fmdrop target (ll_hints n)\<rparr>,
            as @ map (\<lambda>e. Send ((msg_of MsgHintedHandoff (bn_id n) target)\<lparr>m_Entry := Some e, m_OriginalTarget := target\<rparr>)) entries @
            [BaseNode_publishEvent now EvtHintedHandoff (fmap_of_list [(''target'', EStr target), (''entries'', ENum (int (length entries)))]) n]))"

definition LeaderlessNode_deliverHints :: "int \<Rightarrow> LeaderlessNode \<Rightarrow> LeaderlessNode \<times> Action list" where
  "LeaderlessNode_deliverHints now n = go_range (deliver_to now) (ll_hints n) (n, [])"

definition add_hint :: "node_id \<Rightarrow> KVEntry \<Rightarrow> LeaderlessNode \<Rightarrow> LeaderlessNode" where
  "add_hint target e n =
     n\<lparr>ll_hints := fmupd target ((case fmlookup (ll_hints n) target of None \<Rightarrow> [] | Some es \<Rightarrow> es) @ [e]) (ll_hints n)\<rparr>"

definition read_reply :: "Message \<Rightarrow> LeaderlessNode \<Rightarrow> Message" where
  "read_reply msg n =
     (let reply = (msg_of MsgSyncAck (bn_id n) (m_SenderID msg))\<lparr>m_SeqNo := m_SeqNo msg, m_Key := m_Key msg\<rparr> in
      case Store_GetRaw (bn_store n) (m_Key msg) of
        Some entry \<Rightarrow>
          if m_Digest msg
          then reply\<lparr>m_Entry := Some \<lparr>kv_Key = kv_Key entry, kv_Value = None, kv_VClock = None, kv_Timestamp = kv_Timestamp entry,
                                      kv_NodeID = kv_NodeID entry, kv_Tombstone = kv_Tombstone entry, kv_Version = kv_Version entry\<rparr>,
                     m_Digest := True, m_Hash := entryHash entry\<rparr>
          else reply\<lparr>m_Entry := Some entry\<rparr>
      | None \<Rightarrow> reply\<lparr>m_Error := ''not_found''\<rparr>)"

definition receive_write :: "int \<Rightarrow> Message \<Rightarrow> KVEntry \<Rightarrow> LeaderlessNode \<Rightarrow> LeaderlessNode \<times> Action list" where
  "receive_write now msg entry n0 =
     (let n = LeaderlessNode_applyWrite now entry n0;
          n1 = (if m_Type msg = MsgWrite \<and> m_OriginalTarget msg \<noteq> [] \<and> m_OriginalTarget msg \<noteq> bn_id n
                then add_hint (m_OriginalTarget msg) entry n else n)
      in (n1, [Send ((msg_of MsgWriteAck (bn_id n1) (m_SenderID msg))\<lparr>m_SeqNo := m_SeqNo msg, m_Entry := Some entry\<rparr>)]))"

definition LeaderlessNode_HandleMessage :: "int \<Rightarrow> Message \<Rightarrow> LeaderlessNode \<Rightarrow> LeaderlessNode \<times> Action list" where
  "LeaderlessNode_HandleMessage now msg n =
     (if BaseNode_isPaused n then (n, [])
      else case m_Type msg of
        MsgWrite \<Rightarrow> (case m_Entry msg of None \<Rightarrow> (n, []) | Some e \<Rightarrow> receive_write now msg e n)
      | MsgHintedHandoff \<Rightarrow> (case m_Entry msg of None \<Rightarrow> (n, []) | Some e \<Rightarrow> receive_write now msg e n)
      | MsgWriteAck \<Rightarrow>
          (case fmlookup (ll_writeAcks n) (m_SeqNo msg) of
             None \<Rightarrow> n
           | Some ch \<Rightarrow> n\<lparr>ll_writeAcks := fmupd (m_SeqNo msg) (chan_try (m_SenderID msg) ch) (ll_writeAcks n)\<rparr>, [])
      | MsgClientRead \<Rightarrow> (n, [Send (read_reply msg n)])
      | MsgSyncAck \<Rightarrow>
          (case fmlookup (ll_readResps n) (m_SeqNo msg) of
             None \<Rightarrow> n
           | Some ch \<Rightarrow> n\<lparr>ll_readResps := fmupd (m_SeqNo msg)
               (chan_try \<lparr>rr_senderID = m_SenderID msg, rr_entry = m_Entry msg, rr_hash = m_Hash msg\<rparr> ch) (ll_readResps n)\<rparr>, [])
      | MsgReadRepair \<Rightarrow>
          (case m_Entry msg of
             None \<Rightarrow> (n, [])
           | Some e \<Rightarrow>
               (let n1 = LeaderlessNode_applyWrite now e n
                in (n1, [BaseNode_publishEvent now EvtReadRepair (fmap_of_list [(''key'', EStr (kv_Key e)), (''source'', EStr (m_SenderID msg))]) n1])))
      | _ \<Rightarrow> (n, []))"

section \<open>Writes\<close>

datatype LLError = LLPaused node_id | WriteQuorumNotMet nat int string | ReadQuorumNotMet int int string | LLKeyNotFound string

datatype WritePhase = Collecting | AllAnswered | SloppyWait | Decided bool

record WriteWait =
  ww_seq :: nat
  ww_entry :: KVEntry
  ww_replicas :: "node_id list"
  ww_targets :: "node_id list"
  ww_self :: bool
  ww_acked :: "(node_id, bool) fmap"
  ww_phase :: WritePhase
  ww_standins :: bool

definition coordinate_start :: "int \<Rightarrow> KVEntry \<Rightarrow> LeaderlessNode \<Rightarrow> LeaderlessNode \<times> WriteWait \<times> Action list" where
  "coordinate_start now kvEntry n0 =
     (let n = LeaderlessNode_applyWrite now kvEntry n0;
          replicas = LeaderlessNode_replicasFor (kv_Key kvEntry) n;
          targets = filter (\<lambda>r. r \<noteq> bn_id n) replicas;
          seqNo = ll_seqNo n + 1;
          n1 = n\<lparr>ll_seqNo := seqNo, ll_writeAcks := fmupd seqNo (chan_make (length (ll_allNodes n) + 1)) (ll_writeAcks n)\<rparr>
      in (n1, \<lparr>ww_seq = seqNo, ww_entry = kvEntry, ww_replicas = replicas, ww_targets = targets, ww_self = (bn_id n \<in> set replicas),
               ww_acked = fmempty, ww_phase = Collecting, ww_standins = False\<rparr>,
          map (\<lambda>t. Send ((msg_of MsgWrite (bn_id n1) t)\<lparr>m_SeqNo := seqNo, m_Entry := Some kvEntry\<rparr>)) targets))"

definition LeaderlessNode_Write :: "int \<Rightarrow> string \<Rightarrow> bytes \<Rightarrow> LeaderlessNode \<Rightarrow> LLError + LeaderlessNode \<times> WriteWait \<times> Action list" where
  "LeaderlessNode_Write now key val n =
     (if BaseNode_isPaused n then Inl (LLPaused (bn_id n))
      else (let vc = VectorClock_Increment NewVectorClock (bn_id n); (n1, ts) = BaseNode_HLCNow now n
            in Inr (coordinate_start now \<lparr>kv_Key = key, kv_Value = val, kv_VClock = Some vc, kv_Timestamp = ts, kv_NodeID = bn_id n1,
                                           kv_Tombstone = False, kv_Version = 0\<rparr> n1)))"

definition LeaderlessNode_Delete :: "int \<Rightarrow> string \<Rightarrow> LeaderlessNode \<Rightarrow> LLError + LeaderlessNode \<times> WriteWait \<times> Action list" where
  "LeaderlessNode_Delete now key n =
     (if BaseNode_isPaused n then Inl (LLPaused (bn_id n))
      else (let vc = VectorClock_Increment NewVectorClock (bn_id n); (n1, ts) = BaseNode_HLCNow now n
            in Inr (coordinate_start now \<lparr>kv_Key = key, kv_Value = None, kv_VClock = Some vc, kv_Timestamp = ts, kv_NodeID = bn_id n1,
                                           kv_Tombstone = True, kv_Version = 0\<rparr> n1)))"

definition write_met :: "WriteWait \<Rightarrow> LeaderlessNode \<Rightarrow> bool" where
  "write_met w n = LeaderlessNode_writeQuorumMet (ww_acked w) (ww_replicas w) (ww_self w) n"

text \<open>A receive on the acknowledgement channel of a call.\<close>

definition recv_ack :: "nat \<Rightarrow> LeaderlessNode \<Rightarrow> (node_id \<times> LeaderlessNode) option" where
  "recv_ack seqNo n =
     (case fmlookup (ll_writeAcks n) seqNo of
        None \<Rightarrow> None
      | Some ch \<Rightarrow> (case chan_recv ch of None \<Rightarrow> None
                     | Some (sender, ch') \<Rightarrow> Some (sender, n\<lparr>ll_writeAcks := fmupd seqNo ch' (ll_writeAcks n)\<rparr>)))"

definition coordinate_recv :: "WriteWait \<Rightarrow> LeaderlessNode \<Rightarrow> (LeaderlessNode \<times> WriteWait) option" where
  "coordinate_recv w n =
     (if ww_phase w \<noteq> Collecting \<or> write_met w n then None
      else (case recv_ack (ww_seq w) n of
              None \<Rightarrow> None
            | Some (sender, n') \<Rightarrow>
                (let acked = fmupd sender True (ww_acked w)
                 in Some (n', w\<lparr>ww_acked := acked, ww_phase := (if go_len acked \<ge> length (ww_targets w) then AllAnswered else Collecting)\<rparr>))))"

definition send_standins :: "WriteWait \<Rightarrow> node_id list \<Rightarrow> node_id list \<Rightarrow> LeaderlessNode \<Rightarrow> Action list" where
  "send_standins w unacked fallbacks n =
     map (\<lambda>(fb, u). Send ((msg_of MsgWrite (bn_id n) fb)\<lparr>m_SeqNo := ww_seq w, m_Entry := Some (ww_entry w), m_OriginalTarget := u\<rparr>))
       (zip fallbacks unacked)"

definition sloppyRound_start :: "int \<Rightarrow> WriteWait \<Rightarrow> LeaderlessNode \<Rightarrow> WriteWait \<times> Action list" where
  "sloppyRound_start now w n =
     (let unacked = filter (\<lambda>r. r \<noteq> bn_id n \<and> \<not> bget (ww_acked w) r) (ww_replicas w) in
      if length unacked = 0 then (w\<lparr>ww_phase := Decided True\<rparr>, [])
      else (let fallbacks = LeaderlessNode_fallbackNodes (kv_Key (ww_entry w)) (ww_replicas w) (int (length unacked) + 2) n;
                sends = send_standins w unacked fallbacks n
            in if length sends = 0 then (w\<lparr>ww_phase := Decided False\<rparr>, [])
               else (w\<lparr>ww_phase := SloppyWait\<rparr>,
                     sends @ [BaseNode_publishEvent now EvtHintedHandoff
                       (fmap_of_list [(''key'', EStr (kv_Key (ww_entry w))), (''sloppy'', EBool True), (''standins'', ENum (int (length sends)))]) n])))"

text \<open>The end of the first loop, by a quorum, by the last answer or by the timer.\<close>

definition coordinate_round :: "int \<Rightarrow> WriteWait \<Rightarrow> LeaderlessNode \<Rightarrow> (WriteWait \<times> Action list) option" where
  "coordinate_round now w n =
     (if ww_phase w \<noteq> Collecting \<and> ww_phase w \<noteq> AllAnswered then None
      else if \<not> write_met w n \<and> ll_sloppy n then Some (sloppyRound_start now (w\<lparr>ww_standins := True\<rparr>) n)
      else Some (w\<lparr>ww_phase := Decided (write_met w n)\<rparr>, []))"

definition sloppyRound_recv :: "WriteWait \<Rightarrow> LeaderlessNode \<Rightarrow> (LeaderlessNode \<times> WriteWait) option" where
  "sloppyRound_recv w n =
     (if ww_phase w \<noteq> SloppyWait \<or> write_met w n then None
      else (case recv_ack (ww_seq w) n of
              None \<Rightarrow> None
            | Some (sender, n') \<Rightarrow> Some (n', w\<lparr>ww_acked := fmupd sender True (ww_acked w)\<rparr>)))"

definition sloppyRound_end :: "WriteWait \<Rightarrow> LeaderlessNode \<Rightarrow> WriteWait option" where
  "sloppyRound_end w n = (if ww_phase w \<noteq> SloppyWait then None else Some (w\<lparr>ww_phase := Decided (write_met w n)\<rparr>))"

record HintWait =
  hw_seq :: nat
  hw_targets :: "node_id list"
  hw_acked :: "(node_id, bool) fmap"
  hw_entry :: KVEntry

definition coordinate_finish :: "int \<Rightarrow> real \<Rightarrow> WriteWait \<Rightarrow> LeaderlessNode \<Rightarrow> (LeaderlessNode \<times> HintWait \<times> Action list \<times> LLError option) option" where
  "coordinate_finish now took w n =
     (case ww_phase w of
        Decided met \<Rightarrow>
          (let got = go_len (ww_acked w) + (if ww_self w then 1 else 0);
               qW = qc_W (ll_qConfig n);
               level = level_string (ll_consistencyLevel n);
               evt = (if met
                      then BaseNode_publishEvent now EvtQuorumAchieved (fmap_of_list [(''key'', EStr (kv_Key (ww_entry w))), (''w'', ENum qW),
                             (''acked'', ENum (int got)), (''consistency'', EStr level)]) n
                      else BaseNode_publishEvent now EvtQuorumFailed (fmap_of_list [(''key'', EStr (kv_Key (ww_entry w))), (''w'', ENum qW),
                             (''acked'', ENum (int got))]) n)
           in Some (n\<lparr>bn_metrics := NodeMetrics_RecordWrite now took (bn_metrics n)\<rparr>,
                    \<lparr>hw_seq = ww_seq w, hw_targets = ww_targets w, hw_acked = ww_acked w, hw_entry = ww_entry w\<rparr>, [evt],
                    if met then None else Some (WriteQuorumNotMet got qW level)))
      | _ \<Rightarrow> None)"

definition collectHints_recv :: "HintWait \<Rightarrow> LeaderlessNode \<Rightarrow> (LeaderlessNode \<times> HintWait) option" where
  "collectHints_recv h n =
     (case recv_ack (hw_seq h) n of None \<Rightarrow> None | Some (s, n') \<Rightarrow> Some (n', h\<lparr>hw_acked := fmupd s True (hw_acked h)\<rparr>))"

definition collectHints_end :: "HintWait \<Rightarrow> LeaderlessNode \<Rightarrow> LeaderlessNode" where
  "collectHints_end h n =
     fold (\<lambda>t n. if \<not> bget (hw_acked h) t then add_hint t (hw_entry h) n else n) (hw_targets h)
       (n\<lparr>ll_writeAcks := fmdrop (hw_seq h) (ll_writeAcks n)\<rparr>)"

section \<open>Reads\<close>

record ReadWait =
  rw_seq :: nat
  rw_key :: string
  rw_local :: "KVEntry option"
  rw_digest :: bool
  rw_targets :: "node_id list"
  rw_needed :: int
  rw_resps :: "readResp list"

definition LeaderlessNode_Read :: "(node_id list \<Rightarrow> node_id list) \<Rightarrow> string \<Rightarrow> LeaderlessNode \<Rightarrow> LLError + LeaderlessNode \<times> ReadWait \<times> Action list" where
  "LeaderlessNode_Read shuffle key n =
     (if BaseNode_isPaused n then Inl (LLPaused (bn_id n))
      else (let localEntry = Store_GetRaw (bn_store n) key;
                localHits = (if localEntry \<noteq> None then 1 else 0);
                remoteNeeded = (if qc_R (ll_qConfig n) - localHits < 0 then 0 else qc_R (ll_qConfig n) - localHits);
                targets = LeaderlessNode_readTargets shuffle key remoteNeeded n;
                digest = (ll_repairMode n = RepairDigest);
                seqNo = ll_seqNo n + 1;
                n1 = n\<lparr>ll_seqNo := seqNo, ll_readResps := fmupd seqNo (chan_make (length targets + 1)) (ll_readResps n)\<rparr>
            in Inr (n1, \<lparr>rw_seq = seqNo, rw_key = key, rw_local = localEntry, rw_digest = digest, rw_targets = targets,
                         rw_needed = (if remoteNeeded > int (length targets) then int (length targets) else remoteNeeded), rw_resps = []\<rparr>,
                    map (\<lambda>t. Send ((msg_of MsgClientRead (bn_id n1) t)\<lparr>m_SeqNo := seqNo, m_Key := key, m_Digest := digest\<rparr>)) targets)))"

text \<open>A receive on the response channel of a call.\<close>

definition recv_resp :: "nat \<Rightarrow> LeaderlessNode \<Rightarrow> (readResp \<times> LeaderlessNode) option" where
  "recv_resp seqNo n =
     (case fmlookup (ll_readResps n) seqNo of
        None \<Rightarrow> None
      | Some ch \<Rightarrow> (case chan_recv ch of None \<Rightarrow> None
                     | Some (r, ch') \<Rightarrow> Some (r, n\<lparr>ll_readResps := fmupd seqNo ch' (ll_readResps n)\<rparr>)))"

definition drop_resps :: "nat \<Rightarrow> LeaderlessNode \<Rightarrow> LeaderlessNode" where
  "drop_resps seqNo n = n\<lparr>ll_readResps := fmdrop seqNo (ll_readResps n)\<rparr>"

definition Read_recv :: "ReadWait \<Rightarrow> LeaderlessNode \<Rightarrow> (LeaderlessNode \<times> ReadWait) option" where
  "Read_recv w n =
     (if int (length (rw_resps w)) < rw_needed w
      then (case recv_resp (rw_seq w) n of None \<Rightarrow> None | Some (r, n') \<Rightarrow> Some (n', w\<lparr>rw_resps := rw_resps w @ [r]\<rparr>))
      else None)"

definition responses :: "ReadWait \<Rightarrow> KVEntry list" where
  "responses w = (case rw_local w of None \<Rightarrow> [] | Some e \<Rightarrow> [e]) @ List.map_filter rr_entry (rw_resps w)"

definition newest :: "KVEntry \<Rightarrow> KVEntry list \<Rightarrow> KVEntry" where
  "newest best rs = fold (\<lambda>r best. if entryWins r best then r else best) rs best"

text \<open>The end of the collection: too few answers, no version, or the newest version.\<close>

definition Read_best :: "ReadWait \<Rightarrow> LeaderlessNode \<Rightarrow> LLError + KVEntry" where
  "Read_best w n =
     (let collected = 1 + int (length (rw_resps w)) in
      if collected < qc_R (ll_qConfig n) then Inl (ReadQuorumNotMet collected (qc_R (ll_qConfig n)) (rw_key w))
      else case responses w of [] \<Rightarrow> Inl (LLKeyNotFound (rw_key w)) | r # rs \<Rightarrow> Inr (newest r rs))"

definition needs_fetch :: "ReadWait \<Rightarrow> KVEntry \<Rightarrow> bool" where
  "needs_fetch w best = (rw_digest w \<and> kv_Value best = None \<and> \<not> kv_Tombstone best)"

text \<open>\<open>fetchFull\<close>: an answer from the own store, or the number of a request that is sent. The message has no target.\<close>

definition fetchFull_start :: "node_id \<Rightarrow> string \<Rightarrow> LeaderlessNode \<Rightarrow> LeaderlessNode \<times> (KVEntry option + nat) \<times> Action list" where
  "fetchFull_start nodeID key n =
     (if nodeID = [] \<or> nodeID = bn_id n then (n, Inl (Store_GetRaw (bn_store n) key), [])
      else (let seqNo = ll_seqNo n + 1;
                n1 = n\<lparr>ll_seqNo := seqNo, ll_readResps := fmupd seqNo (chan_make 2) (ll_readResps n)\<rparr>
            in (n1, Inr seqNo, [Send ((msg_of MsgClientRead (bn_id n1) [])\<lparr>m_SeqNo := seqNo, m_Key := key\<rparr>)])))"

definition fetchFull_recv :: "nat \<Rightarrow> LeaderlessNode \<Rightarrow> (LeaderlessNode \<times> KVEntry option) option" where
  "fetchFull_recv seqNo n = (case recv_resp seqNo n of None \<Rightarrow> None | Some (r, n') \<Rightarrow> Some (drop_resps seqNo n', rr_entry r))"

definition fetchFull_timeout :: "nat \<Rightarrow> LeaderlessNode \<Rightarrow> LeaderlessNode \<times> KVEntry option" where
  "fetchFull_timeout seqNo n = (drop_resps seqNo n, None)"

definition has_value :: "KVEntry \<Rightarrow> bool" where
  "has_value best = (kv_Value best \<noteq> None \<or> kv_Tombstone best)"

definition stale_nodes :: "ReadWait \<Rightarrow> KVEntry \<Rightarrow> node_id list" where
  "stale_nodes w best =
     (let bestHash = entryHash best
      in List.map_filter (\<lambda>r.
           case rr_entry r of
             None \<Rightarrow> Some (rr_senderID r)
           | Some e \<Rightarrow> if rr_hash r \<noteq> [] then (if rr_hash r \<noteq> bestHash then Some (rr_senderID r) else None)
                       else if entryWins best e then Some (rr_senderID r) else None) (rw_resps w))"

record RepairWait =
  pw_seq :: nat
  pw_stale :: "node_id list"
  pw_acked :: "(node_id, bool) fmap"

definition repairSync_start :: "KVEntry \<Rightarrow> node_id list \<Rightarrow> LeaderlessNode \<Rightarrow> LeaderlessNode \<times> RepairWait \<times> Action list" where
  "repairSync_start best staleNodes n =
     (let seqNo = ll_seqNo n + 1;
          n1 = n\<lparr>ll_seqNo := seqNo, ll_writeAcks := fmupd seqNo (chan_make (length staleNodes + 1)) (ll_writeAcks n)\<rparr>
      in (n1, \<lparr>pw_seq = seqNo, pw_stale = staleNodes, pw_acked = fmempty\<rparr>,
          map (\<lambda>i. Send ((msg_of MsgWrite (bn_id n1) i)\<lparr>m_SeqNo := seqNo, m_Entry := Some best\<rparr>)) staleNodes))"

definition repairSync_recv :: "RepairWait \<Rightarrow> LeaderlessNode \<Rightarrow> (LeaderlessNode \<times> RepairWait) option" where
  "repairSync_recv p n =
     (if go_len (pw_acked p) < length (pw_stale p)
      then (case recv_ack (pw_seq p) n of None \<Rightarrow> None | Some (s, n') \<Rightarrow> Some (n', p\<lparr>pw_acked := fmupd s True (pw_acked p)\<rparr>))
      else None)"

definition repairSync_end :: "RepairWait \<Rightarrow> LeaderlessNode \<Rightarrow> LeaderlessNode" where
  "repairSync_end p n = n\<lparr>ll_writeAcks := fmdrop (pw_seq p) (ll_writeAcks n)\<rparr>"

text \<open>The repair of the own copy and of the stale replicas, up to the wait of a blocking repair.\<close>

definition Read_repair :: "int \<Rightarrow> ReadWait \<Rightarrow> KVEntry \<Rightarrow> LeaderlessNode \<Rightarrow> LeaderlessNode \<times> RepairWait option \<times> Action list" where
  "Read_repair now w best n0 =
     (let behind = (case rw_local w of None \<Rightarrow> True | Some e \<Rightarrow> entryWins best e);
          n = (if behind \<and> has_value best then LeaderlessNode_applyWrite now best n0 else n0);
          staleNodes = stale_nodes w best
      in if length staleNodes > 0 \<and> has_value best
         then if ll_repairMode n = RepairSync
              then (let (n1, p, as) = repairSync_start best staleNodes n in (n1, Some p, as))
              else (n, None, broadcast ((msg_of MsgReadRepair (bn_id n) [])\<lparr>m_Entry := Some best\<rparr>) staleNodes)
         else (n, None, []))"

definition Read_finish :: "int \<Rightarrow> real \<Rightarrow> ReadWait \<Rightarrow> KVEntry \<Rightarrow> LeaderlessNode \<Rightarrow> LeaderlessNode \<times> Action list \<times> (LLError + KVEntry)" where
  "Read_finish now took w best n =
     (let staleNodes = stale_nodes w best;
          evts = (if length staleNodes > 0 \<and> has_value best
                  then [BaseNode_publishEvent now EvtReadRepair (fmap_of_list [(''key'', EStr (rw_key w)), (''stale_nodes'', EStrs staleNodes),
                          (''repaired_ts'', ENum (kv_Timestamp best)), (''mode'', EStr (repair_string (ll_repairMode n)))]) n]
                  else []);
          n1 = drop_resps (rw_seq w) (n\<lparr>bn_metrics := NodeMetrics_RecordRead now took (bn_metrics n)\<rparr>)
      in (n1, evts, if kv_Tombstone best then Inl (LLKeyNotFound (rw_key w)) else Inr best))"

end
