(* ===== verification/LeaderlessCluster.thy ===== *)
theory LeaderlessCluster
  imports Leaderless "HOL-Library.Multiset"
begin

text \<open>
  A cluster of leaderless nodes with fixed membership. Any number of reads, writes and deletes run at once at any
  coordinator; the network delays, reorders and loses messages; timers fire at any moment. A call is named
  by its coordinator and its first sequence number. The theorems are about strict quorums: with
  \<open>W + R > N\<close> a read that starts after a write was acknowledged returns that version or a newer one.
\<close>

section \<open>Calls in progress\<close>

datatype LLProc = PWrite WriteWait | PHints HintWait | PRead ReadWait | PFetch ReadWait KVEntry nat | PRepair ReadWait KVEntry "RepairWait option"

text \<open>A move of a call: a receive, or the end of what it waits for.\<close>

datatype LLMove = Receive int | Elapse int real

definition repair_next :: "int \<Rightarrow> ReadWait \<Rightarrow> KVEntry \<Rightarrow> LeaderlessNode \<Rightarrow> LeaderlessNode \<times> LLProc option \<times> Action list" where
  "repair_next now w best n = (let (n', p, as) = Read_repair now w best n in (n', Some (PRepair w best p), as))"

definition fetch_next :: "int \<Rightarrow> ReadWait \<Rightarrow> KVEntry \<Rightarrow> LeaderlessNode \<times> KVEntry option \<Rightarrow> LeaderlessNode \<times> LLProc option \<times> Action list" where
  "fetch_next now w best x = repair_next now w (case snd x of None \<Rightarrow> best | Some full \<Rightarrow> full) (fst x)"

definition read_next :: "int \<Rightarrow> ReadWait \<Rightarrow> LeaderlessNode \<Rightarrow> LeaderlessNode \<times> LLProc option \<times> Action list" where
  "read_next now w n =
     (case Read_best w n of
        Inl err \<Rightarrow> (drop_resps (rw_seq w) n, None, [])
      | Inr best \<Rightarrow>
          if needs_fetch w best
          then (case fetchFull_start (kv_NodeID best) (rw_key w) n of
                  (n', Inl full, as) \<Rightarrow> fetch_next now w best (n', full)
                | (n', Inr seqNo, as) \<Rightarrow> (n', Some (PFetch w best seqNo), as))
          else repair_next now w best n)"

fun ll_proc :: "LLMove \<Rightarrow> LLProc \<Rightarrow> LeaderlessNode \<Rightarrow> (LeaderlessNode \<times> LLProc option \<times> Action list) option" where
  "ll_proc (Receive now) (PWrite w) n =
     map_option (\<lambda>(n', w'). (n', Some (PWrite w'), [])) (if ww_phase w = SloppyWait then sloppyRound_recv w n else coordinate_recv w n)"
| "ll_proc (Elapse now took) (PWrite w) n =
     (case ww_phase w of
        SloppyWait \<Rightarrow> map_option (\<lambda>w'. (n, Some (PWrite w'), [])) (sloppyRound_end w n)
      | Decided _ \<Rightarrow> map_option (\<lambda>(n', h, as, err). (n', Some (PHints h), as)) (coordinate_finish now took w n)
      | _ \<Rightarrow> map_option (\<lambda>(w', as). (n, Some (PWrite w'), as)) (coordinate_round now w n))"
| "ll_proc (Receive now) (PHints h) n = map_option (\<lambda>(n', h'). (n', Some (PHints h'), [])) (collectHints_recv h n)"
| "ll_proc (Elapse now took) (PHints h) n = Some (collectHints_end h n, None, [])"
| "ll_proc (Receive now) (PRead w) n = map_option (\<lambda>(n', w'). (n', Some (PRead w'), [])) (Read_recv w n)"
| "ll_proc (Elapse now took) (PRead w) n = Some (read_next now w n)"
| "ll_proc (Receive now) (PFetch w best q) n = map_option (fetch_next now w best) (fetchFull_recv q n)"
| "ll_proc (Elapse now took) (PFetch w best q) n = Some (fetch_next now w best (fetchFull_timeout q n))"
| "ll_proc (Receive now) (PRepair w best p) n =
     (case p of None \<Rightarrow> None | Some p \<Rightarrow> map_option (\<lambda>(n', p'). (n', Some (PRepair w best (Some p')), [])) (repairSync_recv p n))"
| "ll_proc (Elapse now took) (PRepair w best p) n =
     (case Read_finish now took w best (case p of None \<Rightarrow> n | Some p \<Rightarrow> repairSync_end p n) of (n', as, result) \<Rightarrow> Some (n', None, as))"

datatype LLCall = LWrite int string bytes | LDelete int string | LRead string | LHandoff int | LRegions "(node_id, string) fmap"
  | LRepair ReadRepairMode | LLevel ConsistencyLevel | LSloppy bool | LPause int | LResume int | LStop | LSkew int

fun ll_call :: "(node_id list \<Rightarrow> node_id list) \<Rightarrow> LLCall \<Rightarrow> LeaderlessNode \<Rightarrow> (LeaderlessNode \<times> (nat \<times> LLProc) option \<times> Action list) option" where
  "ll_call sh (LWrite now key val) n =
     (case LeaderlessNode_Write now key val n of Inl _ \<Rightarrow> None | Inr (n', w, as) \<Rightarrow> Some (n', Some (ww_seq w, PWrite w), as))"
| "ll_call sh (LDelete now key) n =
     (case LeaderlessNode_Delete now key n of Inl _ \<Rightarrow> None | Inr (n', w, as) \<Rightarrow> Some (n', Some (ww_seq w, PWrite w), as))"
| "ll_call sh (LRead key) n =
     (case LeaderlessNode_Read sh key n of Inl _ \<Rightarrow> None | Inr (n', w, as) \<Rightarrow> Some (n', Some (rw_seq w, PRead w), as))"
| "ll_call sh (LHandoff now) n = (case LeaderlessNode_deliverHints now n of (n', as) \<Rightarrow> Some (n', None, as))"
| "ll_call sh (LRegions rs) n = Some (LeaderlessNode_SetRegions rs n, None, [])"
| "ll_call sh (LRepair m) n = Some (LeaderlessNode_SetReadRepairMode m n, None, [])"
| "ll_call sh (LLevel cl) n = Some (LeaderlessNode_SetConsistencyLevel cl n, None, [])"
| "ll_call sh (LSloppy b) n = Some (LeaderlessNode_SetSloppyQuorum b n, None, [])"
| "ll_call sh (LPause now) n = (case BaseNode_Pause now n of (n', as) \<Rightarrow> Some (n', None, as))"
| "ll_call sh (LResume now) n = (case BaseNode_Resume now n of (n', as) \<Rightarrow> Some (n', None, as))"
| "ll_call sh LStop n = Some (BaseNode_Stop n, None, [])"
| "ll_call sh (LSkew ms) n = Some (BaseNode_SetClockSkewMillis ms n, None, [])"

record LLSys =
  ls_node :: "node_id \<Rightarrow> LeaderlessNode"
  ls_procs :: "node_id \<times> nat \<Rightarrow> LLProc option"
  ls_net :: "Message multiset"

definition init_ll :: "string \<Rightarrow> QuorumConfig \<Rightarrow> node_id list \<Rightarrow> LLSys" where
  "init_ll cid q ids =
     \<lparr>ls_node = (\<lambda>i. LeaderlessNode_SetAllNodes ids (NewLeaderlessNode i cid q)), ls_procs = (\<lambda>_. None), ls_net = {#}\<rparr>"

inductive ll_step :: "node_id list \<Rightarrow> LLSys \<Rightarrow> LLSys \<Rightarrow> bool" for ids where
  call: "i \<in> set ids \<Longrightarrow> (\<And>xs. mset (sh xs) = mset xs) \<Longrightarrow> ll_call sh c (ls_node s i) = Some (n', p, as) \<Longrightarrow>
         ll_step ids s (s\<lparr>ls_node := (ls_node s)(i := n'), ls_net := ls_net s + mset (sent_of as),
                          ls_procs := (case p of None \<Rightarrow> ls_procs s | Some (q, p) \<Rightarrow> (ls_procs s)((i, q) := Some p))\<rparr>)"
| proc: "i \<in> set ids \<Longrightarrow> ls_procs s (i, q) = Some p \<Longrightarrow> ll_proc mv p (ls_node s i) = Some (n', p', as) \<Longrightarrow>
         ll_step ids s (s\<lparr>ls_node := (ls_node s)(i := n'), ls_net := ls_net s + mset (sent_of as), ls_procs := (ls_procs s)((i, q) := p')\<rparr>)"
| deliver: "m \<in># ls_net s \<Longrightarrow> m_TargetID m \<in> set ids \<Longrightarrow> LeaderlessNode_HandleMessage now m (ls_node s (m_TargetID m)) = (n', as) \<Longrightarrow>
            ll_step ids s (s\<lparr>ls_node := (ls_node s)(m_TargetID m := n'), ls_net := ls_net s - {#m#} + mset (sent_of as)\<rparr>)"
| lose: "ll_step ids s (s\<lparr>ls_net := ls_net s - {#m#}\<rparr>)"

section \<open>What the nodes do on their own\<close>

definition holds :: "LeaderlessNode \<Rightarrow> string \<Rightarrow> KVEntry \<Rightarrow> bool" where
  "holds n k e \<longleftrightarrow> (\<exists>f. Store_GetRaw (bn_store n) k = Some f \<and> \<not> entryWins e f)"

definition ll_frame :: "LeaderlessNode \<Rightarrow> LeaderlessNode \<Rightarrow> bool" where
  "ll_frame n n' \<longleftrightarrow> bn_id n' = bn_id n \<and> ll_qConfig n' = ll_qConfig n \<and> ll_ring n' = ll_ring n \<and> ll_allNodes n' = ll_allNodes n \<and>
     ll_seqNo n \<le> ll_seqNo n' \<and> (\<forall>k e. holds n k e \<longrightarrow> holds n' k e)"

definition acks :: "LeaderlessNode \<Rightarrow> nat \<Rightarrow> node_id list" where
  "acks n q = (case fmlookup (ll_writeAcks n) q of None \<Rightarrow> [] | Some c \<Rightarrow> ch_buf c)"

definition resps :: "LeaderlessNode \<Rightarrow> nat \<Rightarrow> readResp list" where
  "resps n q = (case fmlookup (ll_readResps n) q of None \<Rightarrow> [] | Some c \<Rightarrow> ch_buf c)"

lemma entryWins_iff: "entryWins a b \<longleftrightarrow> kv_Timestamp b < kv_Timestamp a \<or> kv_Timestamp b = kv_Timestamp a \<and> kv_NodeID b < kv_NodeID a"
  by (auto simp: entryWins_def)

lemma entryWins_trans: "entryWins e g \<Longrightarrow> \<not> entryWins f g \<Longrightarrow> entryWins e f"
  by (auto simp: entryWins_iff)

lemma applyWrite_spec:
  "ll_frame n (LeaderlessNode_applyWrite now e n)" "holds (LeaderlessNode_applyWrite now e n) (kv_Key e) e"
  "acks (LeaderlessNode_applyWrite now e n) = acks n" "resps (LeaderlessNode_applyWrite now e n) = resps n"
  "ll_seqNo (LeaderlessNode_applyWrite now e n) = ll_seqNo n" "bn_id (LeaderlessNode_applyWrite now e n) = bn_id n"
  by (auto simp: LeaderlessNode_applyWrite_def BaseNode_HLCUpdate_def ll_frame_def holds_def acks_def resps_def GetRaw_Set entryWins_iff Let_def
      split: prod.splits option.splits)

text \<open>A step of a node on its own account: its messages carry new sequence numbers, its channels gain nothing.\<close>

definition msg_local :: "LeaderlessNode \<Rightarrow> LeaderlessNode \<Rightarrow> Message \<Rightarrow> bool" where
  "msg_local n n' m \<longleftrightarrow> m_SenderID m = bn_id n \<and>
     (m_Type m = MsgHintedHandoff \<and> m_SeqNo m = 0 \<or> m_Type m = MsgReadRepair \<or>
      (m_Type m = MsgWrite \<or> m_Type m = MsgClientRead) \<and> ll_seqNo n < m_SeqNo m \<and> m_SeqNo m \<le> ll_seqNo n')"

definition local_ok :: "LeaderlessNode \<Rightarrow> LeaderlessNode \<Rightarrow> Action list \<Rightarrow> bool" where
  "local_ok n n' as \<longleftrightarrow> ll_frame n n' \<and> (\<forall>q. set (acks n' q) \<subseteq> set (acks n q)) \<and> (\<forall>q. mset (resps n' q) \<subseteq># mset (resps n q)) \<and>
     (\<forall>m \<in> set (sent_of as). msg_local n n' m)"

lemma ll_frame_refl [simp]: "ll_frame n n"
  by (simp add: ll_frame_def)

lemma ll_frame_trans: "ll_frame n n1 \<Longrightarrow> ll_frame n1 n2 \<Longrightarrow> ll_frame n n2"
  by (simp add: ll_frame_def)

lemma local_trans:
  assumes "local_ok n n1 as" and "local_ok n1 n2 bs"
  shows "local_ok n n2 (as @ bs)"
proof -
  have "ll_frame n n1" "ll_frame n1 n2" using assms by (simp_all add: local_ok_def)
  moreover from this have "msg_local n n1 m \<or> msg_local n1 n2 m \<Longrightarrow> msg_local n n2 m" for m by (auto simp: msg_local_def ll_frame_def)
  ultimately show ?thesis using assms ll_frame_trans unfolding local_ok_def by (fastforce intro: subset_mset.order_trans)
qed

lemma local_same: "ll_frame n n' \<Longrightarrow> acks n' = acks n \<Longrightarrow> resps n' = resps n \<Longrightarrow> sent_of as = [] \<Longrightarrow> local_ok n n' as"
  by (simp add: local_ok_def)

lemma local_apply: "local_ok n (LeaderlessNode_applyWrite now e n) []"
  by (rule local_same) (simp_all add: applyWrite_spec)

lemma holds_cong: "bn_store n' = bn_store n \<Longrightarrow> holds n' = holds n"
  by (intro ext) (simp add: holds_def)

lemma replicas_frame: "ll_frame n n' \<Longrightarrow> LeaderlessNode_replicasFor k n' = LeaderlessNode_replicasFor k n"
  by (simp add: LeaderlessNode_replicasFor_def ll_frame_def Let_def)

lemma coordinate_start_spec:
  assumes "coordinate_start now e n = (n', w, as)"
  shows "local_ok n n' as" and "ll_seqNo n' = ll_seqNo n + 1" and "holds n' (kv_Key e) e" and "acks n' (ww_seq w) = []"
    and "w = \<lparr>ww_seq = ll_seqNo n + 1, ww_entry = e, ww_replicas = LeaderlessNode_replicasFor (kv_Key e) n,
       ww_targets = filter (\<lambda>r. r \<noteq> bn_id n) (LeaderlessNode_replicasFor (kv_Key e) n), ww_self = (bn_id n \<in> set (LeaderlessNode_replicasFor (kv_Key e) n)),
       ww_acked = fmempty, ww_phase = Collecting, ww_standins = False\<rparr>"
    and "m \<in> set (sent_of as) \<Longrightarrow> m_Type m = MsgWrite \<and> m_Entry m = Some e \<and> m_TargetID m \<in> set (ww_targets w)"
proof -
  let ?n = "LeaderlessNode_applyWrite now e n"
  have rep: "LeaderlessNode_replicasFor k ?n = LeaderlessNode_replicasFor k n" for k by (rule replicas_frame) (rule applyWrite_spec)
  have n': "n' = ?n\<lparr>ll_seqNo := ll_seqNo ?n + 1, ll_writeAcks := fmupd (ll_seqNo ?n + 1) (chan_make (length (ll_allNodes ?n) + 1)) (ll_writeAcks ?n)\<rparr>"
    using assms by (simp add: coordinate_start_def Let_def)
  have "bn_store n' = bn_store ?n" using n' by simp
  note h = holds_cong [OF this]
  show w: "w = \<lparr>ww_seq = ll_seqNo n + 1, ww_entry = e, ww_replicas = LeaderlessNode_replicasFor (kv_Key e) n,
       ww_targets = filter (\<lambda>r. r \<noteq> bn_id n) (LeaderlessNode_replicasFor (kv_Key e) n), ww_self = (bn_id n \<in> set (LeaderlessNode_replicasFor (kv_Key e) n)),
       ww_acked = fmempty, ww_phase = Collecting, ww_standins = False\<rparr>"
    using assms by (auto simp: coordinate_start_def Let_def rep applyWrite_spec)
  show "ll_seqNo n' = ll_seqNo n + 1" using n' by (simp add: applyWrite_spec)
  show "holds n' (kv_Key e) e" using h by (simp add: applyWrite_spec)
  show "acks n' (ww_seq w) = []" using n' w by (simp add: acks_def applyWrite_spec)
  show "m \<in> set (sent_of as) \<Longrightarrow> m_Type m = MsgWrite \<and> m_Entry m = Some e \<and> m_TargetID m \<in> set (ww_targets w)" for m
    using assms by (auto simp: coordinate_start_def Let_def msg_of_def)
  have "local_ok ?n n' as"
    using assms n' h by (auto simp: local_ok_def ll_frame_def coordinate_start_def Let_def msg_local_def msg_of_def acks_def resps_def)
  then show "local_ok n n' as" using local_trans [OF local_apply] by fastforce
qed

lemma recv_ack_spec:
  assumes "recv_ack q n = Some (x, n')"
  shows "local_ok n n' []" and "x \<in> set (acks n q)" and "set (acks n' q) \<subseteq> set (acks n q)" and "ll_seqNo n' = ll_seqNo n"
proof -
  obtain c c' where c: "fmlookup (ll_writeAcks n) q = Some c" "ch_buf c = x # ch_buf c'" "n' = n\<lparr>ll_writeAcks := fmupd q c' (ll_writeAcks n)\<rparr>"
    using assms by (auto simp: recv_ack_def chan_recv_Some split: option.splits)
  have "holds n' = holds n" using c(3) by (intro holds_cong) simp
  then show "local_ok n n' []" "x \<in> set (acks n q)" "set (acks n' q) \<subseteq> set (acks n q)" "ll_seqNo n' = ll_seqNo n"
    using c by (auto simp: local_ok_def ll_frame_def acks_def resps_def)
qed

lemma recv_resp_spec:
  assumes "recv_resp q n = Some (x, n')"
  shows "local_ok n n' []" and "mset (resps n q) = add_mset x (mset (resps n' q))" and "ll_seqNo n' = ll_seqNo n"
proof -
  obtain c c' where c: "fmlookup (ll_readResps n) q = Some c" "ch_buf c = x # ch_buf c'" "n' = n\<lparr>ll_readResps := fmupd q c' (ll_readResps n)\<rparr>"
    using assms by (auto simp: recv_resp_def chan_recv_Some split: option.splits)
  have "holds n' = holds n" using c(3) by (intro holds_cong) simp
  then show "local_ok n n' []" "mset (resps n q) = add_mset x (mset (resps n' q))" "ll_seqNo n' = ll_seqNo n"
    using c by (auto simp: local_ok_def ll_frame_def acks_def resps_def)
qed

lemma drop_resps_local: "local_ok n (drop_resps q n) []"
  by (auto simp: local_ok_def ll_frame_def drop_resps_def acks_def resps_def holds_def)

lemma repairSync_end_local: "local_ok n (repairSync_end p n) []"
  by (auto simp: local_ok_def ll_frame_def repairSync_end_def acks_def resps_def holds_def)

lemma add_hint_local: "local_ok n (add_hint t e n) []"
  by (auto simp: local_ok_def ll_frame_def add_hint_def acks_def resps_def holds_def)

lemma collectHints_end_local: "local_ok n (collectHints_end h n) []"
proof -
  have "local_ok n (fold (\<lambda>t n. if \<not> bget (hw_acked h) t then add_hint t (hw_entry h) n else n) ts n) []" for ts n
  proof (induction ts arbitrary: n)
    case Nil
    then show ?case by (simp add: local_same)
  next
    case (Cons t ts)
    have "local_ok n (if \<not> bget (hw_acked h) t then add_hint t (hw_entry h) n else n) []" by (simp add: add_hint_local local_same)
    from local_trans [OF this Cons.IH] show ?case by simp
  qed
  moreover have "local_ok n (n\<lparr>ll_writeAcks := fmdrop (hw_seq h) (ll_writeAcks n)\<rparr>) []"
    by (auto simp: local_ok_def ll_frame_def acks_def resps_def holds_def)
  ultimately show ?thesis using local_trans unfolding collectHints_end_def by fastforce
qed

lemma deliverHints_local:
  assumes "LeaderlessNode_deliverHints now n = (n', as)"
  shows "local_ok n n' as"
proof -
  have "local_ok n (fst x) (snd x)" if "x = LeaderlessNode_deliverHints now n" for x
    unfolding that LeaderlessNode_deliverHints_def
  proof (rule go_range_inv)
    show "local_ok n (fst (n, [])) (snd (n, []))" by (simp add: local_same)
  next
    fix t es and y :: "LeaderlessNode \<times> Action list"
    assume y: "local_ok n (fst y) (snd y)"
    have "local_ok (fst y) ((fst y)\<lparr>ll_hints := fmdrop t (ll_hints (fst y))\<rparr>)
       (map (\<lambda>e. Send ((msg_of MsgHintedHandoff (bn_id (fst y)) t)\<lparr>m_Entry := Some e, m_OriginalTarget := t\<rparr>)) es @
        [BaseNode_publishEvent now EvtHintedHandoff (fmap_of_list [(''target'', EStr t), (''entries'', ENum (int (length es)))]) (fst y)])"
      by (auto simp: local_ok_def ll_frame_def acks_def resps_def holds_def msg_local_def msg_of_def BaseNode_publishEvent_def)
    from local_trans [OF y this] show "local_ok n (fst (deliver_to now t es y)) (snd (deliver_to now t es y))"
      using y by (cases y) (auto simp: deliver_to_def)
  qed
  then show ?thesis using assms by fastforce
qed

lemma config_local:
  assumes "ll_call sh c n = Some (n', None, as)"
  shows "local_ok n n' as"
proof (cases c)
  case (LHandoff now)
  then show ?thesis using assms deliverHints_local by (simp split: prod.splits)
qed (use assms in \<open>auto simp: local_ok_def ll_frame_def acks_def resps_def holds_def LeaderlessNode_SetRegions_def LeaderlessNode_SetReadRepairMode_def
      LeaderlessNode_SetConsistencyLevel_def LeaderlessNode_SetSloppyQuorum_def BaseNode_Pause_def BaseNode_Resume_def BaseNode_Stop_def
      BaseNode_SetClockSkewMillis_def BaseNode_publishStateChange_def BaseNode_publishEvent_def Let_def split: sum.splits prod.splits\<close>)

lemma Write_spec:
  assumes "ll_call sh c n = Some (n', Some (q, PWrite w), as)"
  shows "local_ok n n' as" and "q = ll_seqNo n + 1" and "ll_seqNo n' = q" and "holds n' (kv_Key (ww_entry w)) (ww_entry w)" and "acks n' q = []"
    and "ww_seq w = q" and "ww_replicas w = LeaderlessNode_replicasFor (kv_Key (ww_entry w)) n"
    and "ww_self w = (bn_id n \<in> set (ww_replicas w))" and "ww_acked w = fmempty" and "\<not> ww_standins w"
    and "m \<in> set (sent_of as) \<Longrightarrow> m_Type m = MsgWrite \<and> m_Entry m = Some (ww_entry w) \<and> m_TargetID m \<in> set (ww_replicas w) \<and> m_TargetID m \<noteq> bn_id n"
proof -
  obtain now n1 ts e where n1: "BaseNode_HLCNow now n = (n1, ts)" and st: "coordinate_start now e n1 = (n', w, as)" and q: "q = ww_seq w"
    using assms by (cases c) (auto simp: LeaderlessNode_Write_def LeaderlessNode_Delete_def Let_def split: sum.splits prod.splits if_splits)
  have f: "ll_frame n n1" "acks n1 = acks n" "resps n1 = resps n" "bn_id n1 = bn_id n" "ll_seqNo n1 = ll_seqNo n"
    using n1 by (auto simp: BaseNode_HLCNow_def ll_frame_def acks_def resps_def holds_def split: prod.splits)
  have "local_ok n n1 []" using f by (simp add: local_same)
  from local_trans [OF this coordinate_start_spec(1) [OF st]] show "local_ok n n' as" by simp
  note rep = replicas_frame [OF f(1)]
  note cs = coordinate_start_spec(2-5) [OF st]
  show "q = ll_seqNo n + 1" "ll_seqNo n' = q" "holds n' (kv_Key (ww_entry w)) (ww_entry w)" "acks n' q = []" "ww_seq w = q"
    "ww_replicas w = LeaderlessNode_replicasFor (kv_Key (ww_entry w)) n" "ww_self w = (bn_id n \<in> set (ww_replicas w))" "ww_acked w = fmempty" "\<not> ww_standins w"
    using cs(1-4) q f rep by simp_all
  show "m \<in> set (sent_of as) \<Longrightarrow> m_Type m = MsgWrite \<and> m_Entry m = Some (ww_entry w) \<and> m_TargetID m \<in> set (ww_replicas w) \<and> m_TargetID m \<noteq> bn_id n" for m
    using cs(4) coordinate_start_spec(6) [OF st, of m] f rep by auto
qed

lemma Read_spec:
  assumes "ll_call sh c n = Some (n', Some (q, PRead w), as)"
  shows "local_ok n n' as" and "q = ll_seqNo n + 1" and "ll_seqNo n' = q" and "rw_seq w = q" and "rw_resps w = []" and "resps n' q = []"
    and "rw_local w = Store_GetRaw (bn_store n) (rw_key w)" and "mset (map m_TargetID (sent_of as)) = mset (rw_targets w)"
    and "\<exists>cnt \<le> max 0 (qc_R (ll_qConfig n)). rw_targets w = LeaderlessNode_readTargets sh (rw_key w) cnt n"
    and "m \<in> set (sent_of as) \<Longrightarrow> m_Type m = MsgClientRead \<and> m_Key m = rw_key w \<and> m_SenderID m = bn_id n \<and> m_SeqNo m = q"
proof -
  obtain key where r: "LeaderlessNode_Read sh key n = Inr (n', w, as)" and q: "q = rw_seq w"
    using assms by (cases c) (auto split: sum.splits prod.splits)
  define rn where "rn = (if qc_R (ll_qConfig n) - (if Store_GetRaw (bn_store n) key \<noteq> None then 1 else 0) < 0 then 0
      else qc_R (ll_qConfig n) - (if Store_GetRaw (bn_store n) key \<noteq> None then 1 else 0))"
  define ts where "ts = LeaderlessNode_readTargets sh key rn n"
  have parts: "n' = n\<lparr>ll_seqNo := ll_seqNo n + 1, ll_readResps := fmupd (ll_seqNo n + 1) (chan_make (length ts + 1)) (ll_readResps n)\<rparr>"
    "rw_seq w = ll_seqNo n + 1" "rw_key w = key" "rw_local w = Store_GetRaw (bn_store n) key" "rw_targets w = ts" "rw_resps w = []"
    "sent_of as = map (\<lambda>t. (msg_of MsgClientRead (bn_id n) t)\<lparr>m_SeqNo := ll_seqNo n + 1, m_Key := key, m_Digest := (ll_repairMode n = RepairDigest)\<rparr>) ts"
    using r unfolding LeaderlessNode_Read_def Let_def rn_def [symmetric] ts_def [symmetric] by (auto split: if_splits)
  have "rn \<le> max 0 (qc_R (ll_qConfig n))" by (simp add: rn_def)
  then show "\<exists>cnt \<le> max 0 (qc_R (ll_qConfig n)). rw_targets w = LeaderlessNode_readTargets sh (rw_key w) cnt n" using parts ts_def by blast
  show "q = ll_seqNo n + 1" "ll_seqNo n' = q" "rw_seq w = q" "rw_resps w = []" "resps n' q = []" "rw_local w = Store_GetRaw (bn_store n) (rw_key w)"
    using parts q by (simp_all add: resps_def)
  show "mset (map m_TargetID (sent_of as)) = mset (rw_targets w)" using parts by (simp add: comp_def msg_of_def)
  show "m \<in> set (sent_of as) \<Longrightarrow> m_Type m = MsgClientRead \<and> m_Key m = rw_key w \<and> m_SenderID m = bn_id n \<and> m_SeqNo m = q" for m
    using parts q by (auto simp: msg_of_def)
  have "holds n' = holds n" using parts(1) by (intro holds_cong) simp
  then show "local_ok n n' as" using parts(1,7) by (auto simp: local_ok_def ll_frame_def acks_def resps_def msg_local_def msg_of_def)
qed

text \<open>A move of a write.\<close>

definition write_moves :: "LeaderlessNode \<Rightarrow> WriteWait \<Rightarrow> WriteWait \<Rightarrow> Action list \<Rightarrow> bool" where
  "write_moves n w w' as \<longleftrightarrow> ww_seq w' = ww_seq w \<and> ww_entry w' = ww_entry w \<and> ww_replicas w' = ww_replicas w \<and> ww_self w' = ww_self w \<and>
     fmdom' (ww_acked w') \<subseteq> fmdom' (ww_acked w) \<union> set (acks n (ww_seq w)) \<and> (ww_standins w \<longrightarrow> ww_standins w') \<and>
     (\<forall>m \<in> set (sent_of as). m_Type m = MsgWrite \<and> m_SenderID m = bn_id n \<and> m_SeqNo m = ww_seq w \<and> m_Entry m = Some (ww_entry w) \<and> ww_standins w')"

lemma recv_moves:
  assumes "(if ww_phase w = SloppyWait then sloppyRound_recv w n else coordinate_recv w n) = Some (n', w')"
  shows "local_ok n n' [] \<and> write_moves n w w' []"
proof -
  obtain x where x: "recv_ack (ww_seq w) n = Some (x, n')" and w': "ww_acked w' = fmupd x True (ww_acked w)" "ww_seq w' = ww_seq w" "ww_entry w' = ww_entry w"
    "ww_replicas w' = ww_replicas w" "ww_self w' = ww_self w" "ww_standins w' = ww_standins w"
    using assms by (auto simp: sloppyRound_recv_def coordinate_recv_def Let_def split: if_splits option.splits prod.splits)
  show ?thesis using recv_ack_spec [OF x] w' by (auto simp: write_moves_def)
qed

lemma standins_sent:
  assumes "m \<in> set (sent_of (send_standins w us fbs n))"
  shows "m_Type m = MsgWrite \<and> m_SenderID m = bn_id n \<and> m_SeqNo m = ww_seq w \<and> m_Entry m = Some (ww_entry w)"
proof -
  have "sent_of (map (\<lambda>(x, y). Send (f x y)) xs) = map (\<lambda>(x, y). f x y) xs" for f :: "node_id \<Rightarrow> node_id \<Rightarrow> Message" and xs
    by (induction xs) auto
  then show ?thesis using assms unfolding send_standins_def by (auto simp: msg_of_def)
qed

lemma sloppy_start_moves:
  assumes "sloppyRound_start now w n = (w', as)" and "ww_standins w"
  shows "write_moves n w w' as"
proof -
  define us where "us = filter (\<lambda>r. r \<noteq> bn_id n \<and> \<not> bget (ww_acked w) r) (ww_replicas w)"
  define fbs where "fbs = LeaderlessNode_fallbackNodes (kv_Key (ww_entry w)) (ww_replicas w) (int (length us) + 2) n"
  have "\<exists>ph. w' = w\<lparr>ww_phase := ph\<rparr>" and "set (sent_of as) \<subseteq> set (sent_of (send_standins w us fbs n))"
    using assms(1) unfolding sloppyRound_start_def Let_def us_def [symmetric] fbs_def [symmetric] by (auto simp: BaseNode_publishEvent_def split: if_splits)
  then show ?thesis using assms(2) standins_sent by (fastforce simp: write_moves_def)
qed

lemma round_moves:
  assumes "coordinate_round now w n = Some (w', as)"
  shows "write_moves n w w' as"
proof (cases "\<not> write_met w n \<and> ll_sloppy n")
  case True
  then have "sloppyRound_start now (w\<lparr>ww_standins := True\<rparr>) n = (w', as)" using assms by (auto simp: coordinate_round_def split: if_splits)
  from sloppy_start_moves [OF this] show ?thesis by (simp add: write_moves_def)
next
  case False
  then show ?thesis using assms by (auto simp: coordinate_round_def write_moves_def split: if_splits)
qed

lemma write_proc:
  assumes "ll_proc mv (PWrite w) n = Some (n', p', as)"
  shows "(\<exists>w'. p' = Some (PWrite w') \<and> local_ok n n' [] \<and> write_moves n w w' as) \<or> (\<exists>h. p' = Some (PHints h) \<and> local_ok n n' as)"
proof (cases mv)
  case (Receive now)
  then show ?thesis using assms recv_moves by (fastforce split: if_splits)
next
  case (Elapse now took)
  show ?thesis
  proof (cases "ww_phase w")
    case SloppyWait
    then show ?thesis using assms Elapse by (auto simp: sloppyRound_end_def local_same write_moves_def)
  next
    case (Decided met)
    have "local_ok n (n\<lparr>bn_metrics := mt\<rparr>) [BaseNode_publishEvent now ev d n]" for mt ev d
      by (rule local_same) (simp_all add: ll_frame_def holds_def acks_def resps_def BaseNode_publishEvent_def fun_eq_iff)
    then show ?thesis using assms Elapse Decided by (auto simp: coordinate_finish_def Let_def)
  qed (use assms Elapse round_moves local_same [of n n "[]"] in \<open>fastforce+\<close>)
qed

lemma Read_repair_local:
  assumes "Read_repair now w best n = (n', p, as)"
  shows "local_ok n n' as"
proof -
  define n1 where "n1 = (if (case rw_local w of None \<Rightarrow> True | Some e \<Rightarrow> entryWins best e) \<and> has_value best then LeaderlessNode_applyWrite now best n else n)"
  have n1: "local_ok n n1 []" by (simp add: n1_def local_apply local_same)
  have "local_ok n1 n' as"
    using assms unfolding Read_repair_def Let_def n1_def [symmetric]
    by (auto simp: repairSync_start_def Let_def local_same local_ok_def ll_frame_def acks_def resps_def holds_def msg_local_def msg_of_def split: if_splits)
  from local_trans [OF n1 this] show ?thesis by simp
qed

lemma repair_next_local: "repair_next now w best n = (n', p', as) \<Longrightarrow> local_ok n n' as \<and> (\<exists>b x. p' = Some (PRepair w b x))"
  using Read_repair_local by (auto simp: repair_next_def split: prod.splits)

lemma fetch_next_local:
  assumes "fetch_next now w best x = (n', p', as)" and "local_ok n (fst x) []"
  shows "local_ok n n' as \<and> (\<exists>b y. p' = Some (PRepair w b y))"
  using assms repair_next_local local_trans [of n "fst x" "[]" n' as] by (fastforce simp: fetch_next_def)

lemma fetch_start_local:
  assumes "fetchFull_start j key n = (n', r, as)"
  shows "local_ok n n' as" and "r = Inl full \<Longrightarrow> as = []"
  using assms by (auto simp: fetchFull_start_def Let_def local_same local_ok_def ll_frame_def acks_def resps_def holds_def msg_local_def msg_of_def split: if_splits)

lemma read_next_local:
  assumes "read_next now w n = (n', p', as)"
  shows "local_ok n n' as \<and> (\<forall>w'. p' \<noteq> Some (PRead w') \<and> p' \<noteq> Some (PWrite v))"
proof (cases "Read_best w n")
  case (Inl err)
  then show ?thesis using assms drop_resps_local by (auto simp: read_next_def)
next
  case (Inr best)
  show ?thesis
  proof (cases "needs_fetch w best")
    case True
    obtain n1 r bs where f: "fetchFull_start (kv_NodeID best) (rw_key w) n = (n1, r, bs)" by (metis prod_cases3)
    show ?thesis
    proof (cases r)
      case (Inl full)
      then have "local_ok n (fst (n1, full)) []" using fetch_start_local [OF f] by auto
      moreover have "fetch_next now w best (n1, full) = (n', p', as)" using assms True f Inl \<open>Read_best w n = Inr best\<close> by (simp add: read_next_def)
      ultimately show ?thesis using fetch_next_local by blast
    next
      case (Inr q)
      then show ?thesis using assms True f fetch_start_local [OF f] \<open>Read_best w n = Inr best\<close> by (auto simp: read_next_def)
    qed
  next
    case False
    then show ?thesis using assms Inr repair_next_local by (fastforce simp: read_next_def)
  qed
qed

lemma Read_recv_spec:
  assumes "Read_recv w n = Some (n', w')"
  shows "local_ok n n' [] \<and> (\<exists>r. w' = w\<lparr>rw_resps := rw_resps w @ [r]\<rparr> \<and> mset (resps n (rw_seq w)) = add_mset r (mset (resps n' (rw_seq w))))"
  using assms recv_resp_spec by (fastforce simp: Read_recv_def split: if_splits option.splits prod.splits)

lemma other_proc:
  assumes "ll_proc mv p n = Some (n', p', as)" and "\<And>w. p \<noteq> PWrite w"
  shows "local_ok n n' as \<and> (\<forall>v. p' \<noteq> Some (PWrite v)) \<and> (\<forall>w'. (p' = Some (PRead w') \<longrightarrow> as = [] \<and> (\<exists>w r. p = PRead w \<and> w' = w\<lparr>rw_resps := rw_resps w @ [r]\<rparr> \<and>
           mset (resps n (rw_seq w)) = add_mset r (mset (resps n' (rw_seq w))))))"
proof (cases p)
  case (PWrite w)
  then show ?thesis using assms(2) by simp
next
  case (PHints h)
  then show ?thesis using assms(1) recv_ack_spec(1) collectHints_end_local by (cases mv) (fastforce simp: collectHints_recv_def split: option.splits prod.splits)+
next
  case (PRead w)
  then show ?thesis using assms(1) Read_recv_spec [of w n] read_next_local [of _ w n n' p' as] by (cases mv) (auto split: prod.splits)
next
  case (PFetch w best q)
  have "local_ok n (fst x) []" if "fetchFull_recv q n = Some x \<or> x = fetchFull_timeout q n" for x
    using that drop_resps_local local_trans [OF recv_resp_spec(1) drop_resps_local]
    by (fastforce simp: fetchFull_recv_def fetchFull_timeout_def split: option.splits prod.splits)
  then show ?thesis using assms(1) PFetch fetch_next_local [of _ w best _ n' p' as n] by (cases mv) fastforce+
next
  case (PRepair w best r)
  have fin: "local_ok m n' as" if "Read_finish now took w best m = (n', as, res)" for m now took res
  proof -
    have "local_ok m (m\<lparr>bn_metrics := mt\<rparr>) as" for mt
      using that by (intro local_same) (auto simp: Read_finish_def Let_def ll_frame_def holds_def acks_def resps_def fun_eq_iff BaseNode_publishEvent_def)
    then show ?thesis using that local_trans [OF _ drop_resps_local] by (fastforce simp: Read_finish_def Let_def)
  qed
  have "local_ok n (case r of None \<Rightarrow> n | Some p \<Rightarrow> repairSync_end p n) []" by (simp add: local_same repairSync_end_local split: option.splits)
  then have "local_ok n n' as" if "Read_finish now took w best (case r of None \<Rightarrow> n | Some p \<Rightarrow> repairSync_end p n) = (n', as, res)" for now took res
    using local_trans fin [OF that] by fastforce
  then show ?thesis using assms(1) PRepair recv_ack_spec(1)
    by (cases mv) (fastforce simp: repairSync_recv_def split: option.splits prod.splits if_splits)+
qed

end
