(* ===== verification/LeaderlessQuorum.thy ===== *)
theory LeaderlessQuorum
  imports LeaderlessCluster
begin

text \<open>
  Strict quorums in the cluster of leaderless nodes. What is under way for a sequence number of a coordinator (the
  requests, the acknowledgements and the answers, in the network and in the channel) is
  described once for all steps; the invariants of a write and of a read follow from it.
\<close>

section \<open>What is under way\<close>

definition ack_of :: "node_id \<Rightarrow> nat \<Rightarrow> Message \<Rightarrow> bool" where
  "ack_of i q m \<longleftrightarrow> m_Type m = MsgWriteAck \<and> m_TargetID m = i \<and> m_SeqNo m = q"

definition req_of :: "node_id \<Rightarrow> nat \<Rightarrow> Message \<Rightarrow> bool" where
  "req_of i q m \<longleftrightarrow> m_Type m = MsgWrite \<and> m_SenderID m = i \<and> m_SeqNo m = q"

definition ans_of :: "node_id \<Rightarrow> nat \<Rightarrow> Message \<Rightarrow> bool" where
  "ans_of i q m \<longleftrightarrow> m_Type m = MsgSyncAck \<and> m_TargetID m = i \<and> m_SeqNo m = q"

definition ask_of :: "node_id \<Rightarrow> nat \<Rightarrow> Message \<Rightarrow> bool" where
  "ask_of i q m \<longleftrightarrow> m_Type m = MsgClientRead \<and> m_SenderID m = i \<and> m_SeqNo m = q"

definition ackers :: "LLSys \<Rightarrow> node_id \<Rightarrow> nat \<Rightarrow> node_id set" where
  "ackers s i q = set (acks (ls_node s i) q) \<union> m_SenderID ` {m. m \<in># ls_net s \<and> ack_of i q m}"

definition reqs :: "LLSys \<Rightarrow> node_id \<Rightarrow> nat \<Rightarrow> Message set" where
  "reqs s i q = {m. m \<in># ls_net s \<and> req_of i q m}"

definition asks :: "LLSys \<Rightarrow> node_id \<Rightarrow> nat \<Rightarrow> Message multiset" where
  "asks s i q = filter_mset (ask_of i q) (ls_net s)"

definition answers :: "LLSys \<Rightarrow> node_id \<Rightarrow> nat \<Rightarrow> (node_id \<times> KVEntry option) multiset" where
  "answers s i q = image_mset (\<lambda>r. (rr_senderID r, rr_entry r)) (mset (resps (ls_node s i) q)) +
     image_mset (\<lambda>m. (m_SenderID m, m_Entry m)) (filter_mset (ans_of i q) (ls_net s))"

definition awaited :: "LLSys \<Rightarrow> node_id \<Rightarrow> nat \<Rightarrow> node_id multiset" where
  "awaited s i q = image_mset fst (answers s i q) + image_mset m_TargetID (asks s i q)"

lemmas under_way = ackers_def reqs_def asks_def answers_def ack_of_def req_of_def ask_of_def ans_of_def

text \<open>Nothing is under way for a sequence number not yet given out.\<close>

definition quiet_from :: "LLSys \<Rightarrow> bool" where
  "quiet_from s \<longleftrightarrow> (\<forall>i q. ll_seqNo (ls_node s i) < q \<longrightarrow> ackers s i q = {} \<and> reqs s i q = {} \<and> asks s i q = {#} \<and> answers s i q = {#}) \<and>
     (\<forall>m \<in># ls_net s. m_Type m = MsgHintedHandoff \<longrightarrow> m_SeqNo m = 0)"

definition answered :: "LLSys \<Rightarrow> Message \<Rightarrow> node_id \<times> KVEntry option \<Rightarrow> bool" where
  "answered s m x \<longleftrightarrow> fst x = m_TargetID m \<and> (\<forall>e. holds (ls_node s (m_TargetID m)) (m_Key m) e \<longrightarrow> (\<exists>f. snd x = Some f \<and> \<not> entryWins e f))"

definition ll_trans :: "Message set \<Rightarrow> LLSys \<Rightarrow> LLSys \<Rightarrow> bool" where
  "ll_trans ex s s' \<longleftrightarrow> (\<forall>i. ll_frame (ls_node s i) (ls_node s' i)) \<and>
     (\<forall>i q r. r \<in> ackers s' i q \<longrightarrow> 0 < q \<longrightarrow>
        r \<in> ackers s i q \<or> (\<exists>m \<in> reqs s i q. m_TargetID m = r \<and> (\<forall>e. m_Entry m = Some e \<longrightarrow> holds (ls_node s' r) (kv_Key e) e))) \<and>
     (\<forall>i q m. m \<in> reqs s' i q \<longrightarrow> q \<le> ll_seqNo (ls_node s i) \<longrightarrow> m \<in> reqs s i q \<or> m \<in> ex) \<and>
     (\<forall>i q. q \<le> ll_seqNo (ls_node s i) \<longrightarrow> asks s' i q \<subseteq># asks s i q \<and> awaited s' i q \<subseteq># awaited s i q) \<and>
     (\<forall>i q x. x \<in># answers s' i q \<longrightarrow> x \<in># answers s i q \<or> (\<exists>m \<in># asks s i q. answered s m x)) \<and>
     quiet_from s'"

lemma ll_transD:
  assumes "ll_trans ex s s'"
  shows "ll_frame (ls_node s i) (ls_node s' i)"
    and "r \<in> ackers s' i q \<Longrightarrow> 0 < q \<Longrightarrow>
        r \<in> ackers s i q \<or> (\<exists>m \<in> reqs s i q. m_TargetID m = r \<and> (\<forall>e. m_Entry m = Some e \<longrightarrow> holds (ls_node s' r) (kv_Key e) e))"
    and "m \<in> reqs s' i q \<Longrightarrow> q \<le> ll_seqNo (ls_node s i) \<Longrightarrow> m \<in> reqs s i q \<or> m \<in> ex"
    and "q \<le> ll_seqNo (ls_node s i) \<Longrightarrow> asks s' i q \<subseteq># asks s i q"
    and "q \<le> ll_seqNo (ls_node s i) \<Longrightarrow> awaited s' i q \<subseteq># awaited s i q"
    and "x \<in># answers s' i q \<Longrightarrow> x \<in># answers s i q \<or> (\<exists>m \<in># asks s i q. answered s m x)"
    and "quiet_from s'"
  using assms unfolding ll_trans_def by blast+

text \<open>A step of a node on its own, and a loss.\<close>

lemma local_step:
  assumes q: "quiet_from s" and l: "local_ok (ls_node s i) n' bs" and i: "bn_id (ls_node s i) = i"
    and ms: "\<And>m. m \<in># M \<Longrightarrow> msg_local (ls_node s i) n' m \<or>
      m \<in> ex \<and> m_Type m = MsgWrite \<and> m_SenderID m = i \<and> m_SeqNo m \<le> ll_seqNo (ls_node s i)"
    and s': "ls_node s' = (ls_node s)(i := n')" "ls_net s' = ls_net s + M"
  shows "ll_trans ex s s'"
proof -
  let ?n = "ls_node s i"
  have fr: "ll_frame ?n n'" and ak: "\<And>q. set (acks n' q) \<subseteq> set (acks ?n q)" and rs: "\<And>q. mset (resps n' q) \<subseteq># mset (resps ?n q)" using l by (auto simp: local_ok_def)
  have sq: "ll_seqNo ?n \<le> ll_seqNo n'" using fr by (simp add: ll_frame_def)
  have M: "\<not> ack_of j q m" "\<not> ans_of j q m" "ask_of j q m \<Longrightarrow> j = i \<and> ll_seqNo ?n < q \<and> q \<le> ll_seqNo n'"
    "req_of j q m \<Longrightarrow> j = i \<and> (ll_seqNo ?n < q \<or> m \<in> ex) \<and> q \<le> ll_seqNo n'" "m_Type m = MsgHintedHandoff \<Longrightarrow> m_SeqNo m = 0" if "m \<in># M" for m j q
    using ms [OF that] i sq by (auto simp: msg_local_def ack_of_def ans_of_def ask_of_def req_of_def)
  have "filter_mset (ans_of j q) M = {#}" for j q using M(2) by (auto simp: filter_mset_eq_conv)
  then have none: "filter_mset (ans_of j q) (ls_net s') = filter_mset (ans_of j q) (ls_net s)" for j q unfolding s'(2) filter_union_mset by (metis add.right_neutral)
  have a3: "asks s' j q = asks s j q" if "q \<le> ll_seqNo (ls_node s j) \<or> ll_seqNo (ls_node s' j) < q" for j q
  proof -
    have "\<not> ask_of j q m" if "m \<in># M" for m using M(3) [OF that, of j q] \<open>q \<le> ll_seqNo (ls_node s j) \<or> ll_seqNo (ls_node s' j) < q\<close> s'(1) by auto
    then have "filter_mset (ask_of j q) M = {#}" by (auto simp: filter_mset_eq_conv)
    then show ?thesis unfolding asks_def s'(2) filter_union_mset by (metis add.right_neutral)
  qed
  have a1: "ackers s' j q \<subseteq> ackers s j q" for j q using ak [of q] M(1) s' by (auto simp: ackers_def)
  have a2: "answers s' j q \<subseteq># answers s j q" for j q
    using image_mset_subseteq_mono [OF rs [of q], of "\<lambda>r. (rr_senderID r, rr_entry r)"] s'(1) none by (auto simp: answers_def)
  have a4: "reqs s' j q = reqs s j q \<union> {m. m \<in># M \<and> req_of j q m}" for j q using s' by (auto simp: reqs_def)
  have qu: "quiet_from s'"
  proof -
    have "ackers s' j q = {} \<and> reqs s' j q = {} \<and> asks s' j q = {#} \<and> answers s' j q = {#}" if lt: "ll_seqNo (ls_node s' j) < q" for j q
    proof -
      have "ll_seqNo (ls_node s j) < q" using lt s'(1) sq by (cases "j = i") auto
      then have "ackers s j q = {} \<and> reqs s j q = {} \<and> asks s j q = {#} \<and> answers s j q = {#}" using q unfolding quiet_from_def by blast
      moreover have "{m. m \<in># M \<and> req_of j q m} = {}" using M(4) lt s'(1) by fastforce
      ultimately show ?thesis using a1 [of j q] a2 [of j q] a3 [of q j] a4 [of j q] lt by auto
    qed
    then show ?thesis using q M(5) s'(2) unfolding quiet_from_def by auto
  qed
  have "awaited s' j q \<subseteq># awaited s j q" if "q \<le> ll_seqNo (ls_node s j)" for j q
    using image_mset_subseteq_mono [OF a2 [of j q], of fst] a3 [of q j] that by (simp add: awaited_def)
  moreover have "m \<in> reqs s j q \<or> m \<in> ex" if "m \<in> reqs s' j q" "q \<le> ll_seqNo (ls_node s j)" for m j q using that a4 M(4) by fastforce
  moreover have "ll_frame (ls_node s j) (ls_node s' j)" for j using fr s'(1) by simp
  moreover have "asks s' j q \<subseteq># asks s j q" if "q \<le> ll_seqNo (ls_node s j)" for j q using a3 [of q j] that by simp
  ultimately show ?thesis unfolding ll_trans_def using qu a1 a2 by (meson mset_subset_eqD subsetD)
qed

lemma quiet_keep:
  assumes "quiet_from s" and "\<And>j. ll_frame (ls_node s j) (ls_node s' j)"
    and "\<And>j p. ll_seqNo (ls_node s j) < p \<Longrightarrow> ackers s' j p \<subseteq> ackers s j p \<and> reqs s' j p \<subseteq> reqs s j p \<and> asks s' j p \<subseteq># asks s j p \<and> answers s' j p \<subseteq># answers s j p"
    and "\<And>m. m \<in># ls_net s' \<Longrightarrow> m \<in># ls_net s \<or> m_Type m \<noteq> MsgHintedHandoff"
  shows "quiet_from s'"
proof -
  have "ackers s' i q = {} \<and> reqs s' i q = {} \<and> asks s' i q = {#} \<and> answers s' i q = {#}" if lt: "ll_seqNo (ls_node s' i) < q" for i q
  proof -
    have lt': "ll_seqNo (ls_node s i) < q" using lt assms(2) [of i] by (simp add: ll_frame_def)
    then have "ackers s i q = {} \<and> reqs s i q = {} \<and> asks s i q = {#} \<and> answers s i q = {#}" using assms(1) unfolding quiet_from_def by blast
    then show ?thesis using assms(3) [OF lt'] by auto
  qed
  then show ?thesis using assms(1,4) unfolding quiet_from_def by blast
qed

text \<open>A step after which less is under way: a loss, and most deliveries.\<close>

lemma shrink_step:
  assumes "quiet_from s" and "\<And>i. ll_frame (ls_node s i) (ls_node s' i)" and "\<And>i q. ackers s' i q \<subseteq> ackers s i q"
    and "\<And>i q. answers s' i q \<subseteq># answers s i q" and "set_mset (ls_net s') \<subseteq> set_mset (ls_net s)" and "\<And>i q. asks s' i q \<subseteq># asks s i q"
  shows "ll_trans {} s s'"
proof -
  have rq: "reqs s' i q \<subseteq> reqs s i q" for i q using assms(5) by (auto simp: reqs_def)
  have aw: "awaited s' i q \<subseteq># awaited s i q" for i q
    unfolding awaited_def by (intro subset_mset.add_mono image_mset_subseteq_mono assms)
  have "quiet_from s'" by (rule quiet_keep [OF assms(1,2)]) (use assms(3-6) rq in auto)
  then show ?thesis unfolding ll_trans_def using assms(2-4,6) rq aw by (meson mset_subset_eqD subsetD)
qed

lemma filter_remove: "filter_mset P (A - {#m#}) = (if P m then filter_mset P A - {#m#} else filter_mset P A)"
  by (simp add: filter_diff_mset)

lemma lose_step:
  assumes "quiet_from s" and "ls_node s' = ls_node s" and "ls_net s' \<subseteq># ls_net s"
  shows "ll_trans {} s s'"
proof (rule shrink_step [OF assms(1)])
  show "set_mset (ls_net s') \<subseteq> set_mset (ls_net s)" using assms(3) by (rule set_mset_mono)
  then show "ackers s' i q \<subseteq> ackers s i q" for i q using assms(2) by (auto simp: ackers_def)
  show "asks s' i q \<subseteq># asks s i q" for i q using assms(3) by (simp add: asks_def multiset_filter_mono)
  show "answers s' i q \<subseteq># answers s i q" for i q using assms(2,3) by (simp add: answers_def multiset_filter_mono image_mset_subseteq_mono)
qed (simp add: assms(2))

section \<open>Deliveries\<close>

lemma receive_write_spec:
  assumes "receive_write now m e n = (n', as)"
  shows "ll_frame n n'" and "acks n' = acks n" and "resps n' = resps n" and "holds n' (kv_Key e) e"
    and "sent_of as = [(msg_of MsgWriteAck (bn_id n) (m_SenderID m))\<lparr>m_SeqNo := m_SeqNo m, m_Entry := Some e\<rparr>]"
proof -
  let ?a = "LeaderlessNode_applyWrite now e n"
  have n': "n' = ?a \<or> n' = add_hint (m_OriginalTarget m) e ?a" and as: "sent_of as = [(msg_of MsgWriteAck (bn_id n') (m_SenderID m))\<lparr>m_SeqNo := m_SeqNo m, m_Entry := Some e\<rparr>]"
    using assms by (auto simp: receive_write_def Let_def split: if_splits)
  have h: "ll_frame ?a n' \<and> acks n' = acks ?a \<and> resps n' = resps ?a \<and> bn_id n' = bn_id ?a \<and> holds n' = holds ?a"
    using n' by (auto simp: add_hint_def ll_frame_def acks_def resps_def holds_def fun_eq_iff)
  then show "ll_frame n n'" using ll_frame_trans [OF applyWrite_spec(1)] by blast
  show "acks n' = acks n" "resps n' = resps n" "holds n' (kv_Key e) e"
    "sent_of as = [(msg_of MsgWriteAck (bn_id n) (m_SenderID m))\<lparr>m_SeqNo := m_SeqNo m, m_Entry := Some e\<rparr>]"
    using h as by (simp_all add: applyWrite_spec)
qed

lemma ll_handle_ack:
  assumes "fmlookup (ll_writeAcks n) q0 = Some ch" and n': "n' = n\<lparr>ll_writeAcks := fmupd q0 (chan_try x ch) (ll_writeAcks n)\<rparr>"
  shows "ll_frame n n'" and "resps n' = resps n" and "set (acks n' q) \<subseteq> set (acks n q) \<union> (if q = q0 then {x} else {})"
proof -
  show "ll_frame n n'" using n' by (simp add: ll_frame_def holds_def)
  show "resps n' = resps n" using n' by (simp add: resps_def fun_eq_iff)
  have "acks n' q = (if q = q0 then ch_buf (chan_try x ch) else acks n q)" using n' by (simp add: acks_def)
  then show "set (acks n' q) \<subseteq> set (acks n q) \<union> (if q = q0 then {x} else {})" using assms(1) chan_simps(2) [of x ch] by (simp add: acks_def)
qed

lemma handle_answer:
  assumes "fmlookup (ll_readResps n) q0 = Some ch" and n': "n' = n\<lparr>ll_readResps := fmupd q0 (chan_try x ch) (ll_readResps n)\<rparr>"
  shows "ll_frame n n'" and "acks n' = acks n" and "mset (resps n' q) \<subseteq># mset (resps n q) + (if q = q0 then {#x#} else {#})"
proof -
  show "ll_frame n n'" using n' by (simp add: ll_frame_def holds_def)
  show "acks n' = acks n" using n' by (simp add: acks_def fun_eq_iff)
  have "resps n' q = (if q = q0 then ch_buf (chan_try x ch) else resps n q)" using n' by (simp add: resps_def)
  then show "mset (resps n' q) \<subseteq># mset (resps n q) + (if q = q0 then {#x#} else {#})" using assms(1) by (simp add: resps_def chan_try_def)
qed

lemma handle_cases:
  assumes "LeaderlessNode_HandleMessage now m n = (n', as)"
  obtains (silent) "ll_frame n n'" "acks n' = acks n" "resps n' = resps n" "sent_of as = []"
  | (wrote) e where "m_Type m = MsgWrite \<or> m_Type m = MsgHintedHandoff" "m_Entry m = Some e" "receive_write now m e n = (n', as)"
  | (acked) "m_Type m = MsgWriteAck" "ll_frame n n'" "resps n' = resps n" "sent_of as = []"
      "\<forall>q. set (acks n' q) \<subseteq> set (acks n q) \<union> (if q = m_SeqNo m then {m_SenderID m} else {})"
  | (asked) "m_Type m = MsgClientRead" "n' = n" "sent_of as = [read_reply m n]"
  | (answer) r where "m_Type m = MsgSyncAck" "ll_frame n n'" "acks n' = acks n" "sent_of as = []" "rr_senderID r = m_SenderID m" "rr_entry r = m_Entry m"
      "\<forall>q. mset (resps n' q) \<subseteq># mset (resps n q) + (if q = m_SeqNo m then {#r#} else {#})"
proof (cases "BaseNode_isPaused n")
  case True
  then show ?thesis using assms by (intro silent) (auto simp: LeaderlessNode_HandleMessage_def)
next
  case False
  note h = assms [unfolded LeaderlessNode_HandleMessage_def, simplified False, simplified]
  show ?thesis
  proof (cases "m_Type m")
    case MsgWriteAck
    show ?thesis
    proof (cases "fmlookup (ll_writeAcks n) (m_SeqNo m)")
      case None
      then show ?thesis using h MsgWriteAck by (intro silent) auto
    next
      case (Some ch)
      then have "n' = n\<lparr>ll_writeAcks := fmupd (m_SeqNo m) (chan_try (m_SenderID m) ch) (ll_writeAcks n)\<rparr>" "as = []" using h MsgWriteAck by auto
      then show ?thesis using ll_handle_ack [OF Some, of n'] MsgWriteAck by (intro acked) auto
    qed
  next
    case MsgSyncAck
    let ?r = "\<lparr>rr_senderID = m_SenderID m, rr_entry = m_Entry m, rr_hash = m_Hash m\<rparr>"
    show ?thesis
    proof (cases "fmlookup (ll_readResps n) (m_SeqNo m)")
      case None
      then show ?thesis using h MsgSyncAck by (intro silent) auto
    next
      case (Some ch)
      then have "n' = n\<lparr>ll_readResps := fmupd (m_SeqNo m) (chan_try ?r ch) (ll_readResps n)\<rparr>" "as = []" using h MsgSyncAck by auto
      then show ?thesis using handle_answer [OF Some, of n' ?r] MsgSyncAck by (intro answer [of ?r]) auto
    qed
  next
    case MsgReadRepair
    then show ?thesis using h applyWrite_spec by (intro silent) (auto simp: BaseNode_publishEvent_def Let_def split: option.splits)
  next
    case MsgWrite
    then show ?thesis using h by (cases "m_Entry m") (auto intro: silent wrote)
  next
    case MsgHintedHandoff
    then show ?thesis using h by (cases "m_Entry m") (auto intro: silent wrote)
  next
    case MsgClientRead
    then show ?thesis using h by (intro asked) auto
  qed (insert h, (rule silent; simp)+)
qed

lemma reply_answers:
  assumes "m \<in># ls_net s" and "bn_id (ls_node s (m_TargetID m)) = m_TargetID m"
  shows "answered s m (m_SenderID (read_reply m (ls_node s (m_TargetID m))), m_Entry (read_reply m (ls_node s (m_TargetID m))))"
  using assms(2) by (auto simp: answered_def read_reply_def msg_of_def holds_def entryWins_iff Let_def split: option.splits)

lemma reply_fields: "m_Type (read_reply m n) = MsgSyncAck" "m_TargetID (read_reply m n) = m_SenderID m" "m_SeqNo (read_reply m n) = m_SeqNo m"
    "m_SenderID (read_reply m n) = bn_id n"
  by (simp_all add: read_reply_def msg_of_def Let_def split: option.splits)

lemma asked_step:
  assumes q: "quiet_from s" and m: "m \<in># ls_net s" "m_Type m = MsgClientRead" and i: "bn_id (ls_node s (m_TargetID m)) = m_TargetID m"
    and s': "ls_node s' = ls_node s" "ls_net s' = ls_net s - {#m#} + {#read_reply m (ls_node s (m_TargetID m))#}"
  shows "ll_trans {} s s'"
proof -
  let ?r = "read_reply m (ls_node s (m_TargetID m))"
  have own: "m \<in># asks s (m_SenderID m) (m_SeqNo m)" using m by (simp add: asks_def ask_of_def)
  have ak: "ackers s' j p \<subseteq> ackers s j p" for j p using s' by (auto simp: ackers_def ack_of_def reply_fields dest: in_diffD)
  have rq: "reqs s' j p \<subseteq> reqs s j p" for j p using s' by (auto simp: reqs_def req_of_def reply_fields dest: in_diffD)
  have nm: "\<not> ans_of j p m" for j p using m(2) by (simp add: ans_of_def)
  have as: "asks s' j p = (if j = m_SenderID m \<and> p = m_SeqNo m then asks s j p - {#m#} else asks s j p)" for j p
    using s' m(2) by (auto simp: asks_def filter_remove ask_of_def reply_fields)
  have an: "answers s' j p = (if j = m_SenderID m \<and> p = m_SeqNo m then add_mset (m_TargetID m, m_Entry ?r) (answers s j p) else answers s j p)" for j p
    using s' nm i by (auto simp: answers_def filter_remove ans_of_def reply_fields)
  have aw: "awaited s' j p = awaited s j p" for j p
    using own by (auto simp: awaited_def as an image_mset_Diff insert_DiffM)
  have lt: "m_SeqNo m \<le> ll_seqNo (ls_node s (m_SenderID m))" using q own unfolding quiet_from_def by (metis empty_iff linorder_not_less set_mset_empty)
  have "quiet_from s'" by (rule quiet_keep [OF q]) (use ak rq as an lt s' in \<open>auto simp: reply_fields dest: in_diffD\<close>)
  moreover have "x \<in># answers s j p \<or> (\<exists>m \<in># asks s j p. answered s m x)" if "x \<in># answers s' j p" for x j p
    using that own reply_answers [OF m(1) i] i by (auto simp: an reply_fields split: if_splits)
  moreover have "asks s' j p \<subseteq># asks s j p" for j p by (simp add: as)
  ultimately show ?thesis unfolding ll_trans_def using s'(1) ak rq aw by (simp add: subset_iff)
qed

lemma wrote_step:
  assumes q: "quiet_from s" and m: "m \<in># ls_net s" "m_Type m = MsgWrite \<or> m_Type m = MsgHintedHandoff" "m_Entry m = Some e"
    and i: "bn_id (ls_node s (m_TargetID m)) = m_TargetID m" and r: "receive_write now m e (ls_node s (m_TargetID m)) = (n', as)"
    and s': "ls_node s' = (ls_node s)(m_TargetID m := n')" "ls_net s' = ls_net s - {#m#} + mset (sent_of as)"
  shows "ll_trans {} s s'"
proof -
  note w = receive_write_spec [OF r]
  let ?a = "(msg_of MsgWriteAck (m_TargetID m) (m_SenderID m))\<lparr>m_SeqNo := m_SeqNo m, m_Entry := Some e\<rparr>"
  have net: "ls_net s' = ls_net s - {#m#} + {#?a#}" using s'(2) w(5) i by simp
  have fr: "ll_frame (ls_node s j) (ls_node s' j)" for j using s'(1) w(1) by simp
  have same: "acks (ls_node s' j) = acks (ls_node s j)" "resps (ls_node s' j) = resps (ls_node s j)" for j using s'(1) w(2,3) by simp_all
  have a: "\<not> req_of j p ?a" "\<not> ask_of j p ?a" "\<not> ans_of j p ?a" "ack_of j p ?a \<longleftrightarrow> j = m_SenderID m \<and> p = m_SeqNo m" "m_SenderID ?a = m_TargetID m" for j p
    by (auto simp: req_of_def ask_of_def ans_of_def ack_of_def msg_of_def)
  have nm: "\<not> ask_of j p m" "\<not> ans_of j p m" for j p using m(2) by (auto simp: ask_of_def ans_of_def)
  have ak: "ackers s' j p \<subseteq> ackers s j p \<union> (if j = m_SenderID m \<and> p = m_SeqNo m then {m_TargetID m} else {})" for j p
    using net same a by (auto simp: ackers_def dest: in_diffD)
  have rq: "reqs s' j p \<subseteq> reqs s j p" for j p using net a by (auto simp: reqs_def dest: in_diffD)
  have as: "asks s' j p = asks s j p" and an: "answers s' j p = answers s j p" for j p using net same a nm by (auto simp: asks_def answers_def filter_remove)
  have hh: "m_SeqNo m = 0" if "m_Type m = MsgHintedHandoff" using q m(1) that by (simp add: quiet_from_def)
  have own: "m \<in> reqs s (m_SenderID m) (m_SeqNo m)" if "0 < m_SeqNo m" using that hh m by (auto simp: reqs_def req_of_def)
  have lt: "m_SeqNo m \<le> ll_seqNo (ls_node s (m_SenderID m))"
  proof (cases "0 < m_SeqNo m")
    case True
    then show ?thesis using own q unfolding quiet_from_def by (metis empty_iff linorder_not_less)
  qed simp
  have "ackers s' j p \<subseteq> ackers s j p" if "ll_seqNo (ls_node s j) < p" for j p
  proof -
    have "\<not> (j = m_SenderID m \<and> p = m_SeqNo m)" using that lt by auto
    then show ?thesis using ak [of j p] by auto
  qed
  then have qu: "quiet_from s'" by (intro quiet_keep [OF q fr]) (use rq as an net in \<open>auto simp: msg_of_def dest: in_diffD\<close>)
  have "r \<in> ackers s j p \<or> (\<exists>m \<in> reqs s j p. m_TargetID m = r \<and> (\<forall>e. m_Entry m = Some e \<longrightarrow> holds (ls_node s' r) (kv_Key e) e))"
    if "r \<in> ackers s' j p" "0 < p" for r j p
  proof (cases "r \<in> ackers s j p")
    case False
    then have "r = m_TargetID m" "j = m_SenderID m" "p = m_SeqNo m" using that(1) ak [of j p] by (auto split: if_splits)
    then show ?thesis using own that(2) w(4) m(3) s'(1) by auto
  qed simp
  then show ?thesis unfolding ll_trans_def using fr qu rq as an by (simp add: awaited_def subset_iff)
qed

lemma ll_deliver_step:
  assumes q: "quiet_from s" and m: "m \<in># ls_net s" and i: "bn_id (ls_node s (m_TargetID m)) = m_TargetID m"
    and r: "LeaderlessNode_HandleMessage now m (ls_node s (m_TargetID m)) = (n', as)"
    and s': "ls_node s' = (ls_node s)(m_TargetID m := n')" "ls_net s' = ls_net s - {#m#} + mset (sent_of as)"
  shows "ll_trans {} s s'"
  using r
proof (cases rule: handle_cases)
  case silent
  then have "ls_net s' \<subseteq># ls_net s" using s'(2) by simp
  moreover have "ackers s' j p \<subseteq> ackers s j p" "answers s' j p \<subseteq># answers s j p" for j p
    using silent s' by (auto simp: ackers_def answers_def filter_remove image_mset_subseteq_mono dest: in_diffD)
  ultimately show ?thesis
    by (intro shrink_step [OF q]) (use silent(1) s'(1) in \<open>auto simp: asks_def multiset_filter_mono dest: mset_subset_eqD\<close>)
next
  case (wrote e)
  then show ?thesis using wrote_step [OF q m wrote(1,2) i wrote(3) s'] by simp
next
  case acked
  have net: "ls_net s' = ls_net s - {#m#}" using s'(2) acked(4) by simp
  have "m_SenderID m \<in> ackers s (m_TargetID m) (m_SeqNo m)" using m acked(1) by (auto simp: ackers_def ack_of_def)
  then have "ackers s' j p \<subseteq> ackers s j p" for j p
    using acked(5) s'(1) net by (auto simp: ackers_def split: if_splits dest: in_diffD)
  moreover have "answers s' j p = answers s j p" for j p using acked(1,3) s'(1) net by (auto simp: answers_def filter_remove ans_of_def)
  ultimately show ?thesis
    by (intro shrink_step [OF q]) (use acked(2) s'(1) net in \<open>auto simp: asks_def multiset_filter_mono dest: in_diffD\<close>)
next
  case asked
  then show ?thesis using asked_step [OF q m asked(1) i, of s'] s' by simp
next
  case (answer x)
  have net: "ls_net s' = ls_net s - {#m#}" using s'(2) answer(4) by simp
  have "answers s' j p \<subseteq># answers s j p" for j p
  proof (cases "ans_of j p m")
    case True
    then have j: "j = m_TargetID m" "p = m_SeqNo m" by (auto simp: ans_of_def)
    let ?F = "filter_mset (ans_of j p) (ls_net s)"
    let ?g = "\<lambda>r. (rr_senderID r, rr_entry r)" and ?h = "\<lambda>m. (m_SenderID m, m_Entry m)"
    have "m \<in># ?F" using True m by simp
    then obtain F' where F': "?F = add_mset m F'" by (metis multi_member_split)
    have "image_mset ?g (mset (resps n' p)) \<subseteq># image_mset ?g (mset (resps (ls_node s j) p) + {#x#})"
      using answer(7) [rule_format, of p] j by (intro image_mset_subseteq_mono) simp
    moreover have "?g x = ?h m" using answer(5,6) by simp
    moreover have "filter_mset (ans_of j p) (ls_net s') = F'" using net True F' by (simp add: filter_remove)
    ultimately show ?thesis using s'(1) j F' by (simp add: answers_def)
  next
    case False
    then have "p \<noteq> m_SeqNo m \<or> j \<noteq> m_TargetID m" using answer(1) by (auto simp: ans_of_def)
    then have "mset (resps (ls_node s' j) p) \<subseteq># mset (resps (ls_node s j) p)" using answer(7) [rule_format, of p] s'(1) by auto
    then show ?thesis using net False by (simp add: answers_def filter_remove image_mset_subseteq_mono subset_mset.add_mono)
  qed
  moreover have "ackers s' j p \<subseteq> ackers s j p" for j p using answer(3) s'(1) net by (auto simp: ackers_def dest: in_diffD)
  ultimately show ?thesis
    by (intro shrink_step [OF q]) (use answer(2) s'(1) net in \<open>auto simp: asks_def multiset_filter_mono dest: in_diffD\<close>)
qed

section \<open>Placement\<close>

definition ring_of :: "node_id list \<Rightarrow> Ring" where
  "ring_of ids = fold (\<lambda>i r. Ring_Add r i) ids (NewRing 128)"

definition same_conf :: "QuorumConfig \<Rightarrow> node_id list \<Rightarrow> LeaderlessNode \<Rightarrow> bool" where
  "same_conf qc ids n \<longleftrightarrow> ll_qConfig n = qc \<and> ll_ring n = ring_of ids \<and> ll_allNodes n = ids"

definition place :: "QuorumConfig \<Rightarrow> node_id list \<Rightarrow> string \<Rightarrow> node_id list" where
  "place qc ids k = (let pl = Ring_PreferenceList (ring_of ids) k (qc_N qc) in if 0 < length pl then pl else ids)"

lemma replicas_place: "same_conf qc ids n \<Longrightarrow> LeaderlessNode_replicasFor k n = place qc ids k"
  by (simp add: same_conf_def LeaderlessNode_replicasFor_def place_def Let_def)

lemma ring_of_nodes: "ring_inv (ring_of ids)" "fmdom' (rg_nodes (ring_of ids)) = set ids"
proof -
  have "ring_inv r \<Longrightarrow> ring_inv (fold (\<lambda>i r. Ring_Add r i) ids r) \<and> fmdom' (rg_nodes (fold (\<lambda>i r. Ring_Add r i) ids r)) = set ids \<union> fmdom' (rg_nodes r)" for r
  proof (induction ids arbitrary: r)
    case (Cons i ids)
    have "fmdom' (rg_nodes (Ring_Add r i)) = insert i (fmdom' (rg_nodes r))"
      using ring_inv_bget [OF Cons.prems, of i] by (auto simp: Ring_Add_def Let_def)
    then show ?case using Cons.IH [OF ring_inv_Add [OF Cons.prems, of i]] by simp
  qed simp
  from this [OF ring_inv_New, of 128] show "ring_inv (ring_of ids)" "fmdom' (rg_nodes (ring_of ids)) = set ids"
    by (simp_all add: ring_of_def NewRing_def)
qed

lemma place_spec:
  assumes "distinct ids" and "0 < qc_N qc"
  shows "distinct (place qc ids k)" and "set (place qc ids k) \<subseteq> set ids" and "length (place qc ids k) = min (nat (qc_N qc)) (length ids)"
    and "int (length (place qc ids k)) \<le> qc_N qc"
proof -
  let ?c = "clockwise (rg_tokens (ring_of ids)) (hashKey k)"
  note pl = PreferenceList_clockwise [OF ring_of_nodes(1) assms(2), of ids k]
  have dom: "set ?c = set ids" using ring_of_nodes [of ids] by (simp add: set_clockwise ring_inv_def)
  then have len: "length ?c = length ids" using distinct_card [OF distinct_clockwise, of "rg_tokens (ring_of ids)" "hashKey k"] distinct_card [OF assms(1)] by simp
  have pos: "0 < nat (qc_N qc)" using assms(2) by simp
  have p: "place qc ids k = take (nat (qc_N qc)) ?c"
  proof (cases "ids = []")
    case True
    then show ?thesis unfolding place_def Let_def pl using dom by simp
  next
    case False
    then have "?c \<noteq> []" using len by auto
    then show ?thesis using pos by (simp add: place_def pl Let_def)
  qed
  show "distinct (place qc ids k)" using p by (simp add: distinct_clockwise)
  show "set (place qc ids k) \<subseteq> set ids" using p dom by (metis set_take_subset)
  show "length (place qc ids k) = min (nat (qc_N qc)) (length ids)" using p len by (simp add: min.commute)
  show "int (length (place qc ids k)) \<le> qc_N qc" using p len assms(2) by simp
qed

text \<open>A read asks only replicas of the key, when those can form a read quorum.\<close>

definition narrow :: "QuorumConfig \<Rightarrow> node_id list \<Rightarrow> bool" where
  "narrow qc ids \<longleftrightarrow> qc_R qc < qc_N qc \<or> int (length ids) \<le> qc_N qc"

lemma top_up_spec:
  "distinct others \<Longrightarrow> set others \<subseteq> set inSet \<Longrightarrow>
   distinct (top_up xs inSet others) \<and> set (top_up xs inSet others) \<subseteq> set others \<union> (set xs - set inSet) \<and> set others \<subseteq> set (top_up xs inSet others)"
proof (induction xs inSet others rule: top_up.induct)
  case (2 i ids inSet others)
  show ?case
  proof (cases "i \<in> set inSet")
    case True
    then show ?thesis using "2.IH"(2) "2.prems" by auto
  next
    case False
    then have "distinct (others @ [i])" "set (others @ [i]) \<subseteq> set (i # inSet)" using "2.prems" by auto
    then show ?thesis using "2.IH"(1) [OF False] False by auto
  qed
qed simp

lemma readTargets_spec:
  assumes "distinct ids" and N: "0 < qc_N qc" and c: "same_conf qc ids n" and sh: "\<And>xs. mset (sh xs) = mset xs" and cnt: "cnt \<le> max 0 (qc_R qc)"
    and t: "ts = LeaderlessNode_readTargets sh k cnt n"
  shows "distinct ts" and "bn_id n \<notin> set ts" and "narrow qc ids \<Longrightarrow> set ts \<subseteq> set (place qc ids k)"
proof -
  let ?p = "filter (\<lambda>r. r \<noteq> bn_id n) (place qc ids k)"
  define os where "os = (if int (length ?p) < cnt then top_up (LeaderlessNode_getOtherNodes n) (bn_id n # ?p) ?p else ?p)"
  have ts: "ts = (if cnt \<ge> int (length os) then os else take (nat cnt) (sh os))"
    using t by (simp add: LeaderlessNode_readTargets_def replicas_place [OF c] os_def Let_def)
  have dp: "distinct ?p" using place_spec(1) [OF assms(1) N] by simp
  have "set ?p \<subseteq> set (bn_id n # ?p)" by auto
  note tu = top_up_spec [OF dp this, of "LeaderlessNode_getOtherNodes n"]
  have os: "distinct os" "bn_id n \<notin> set os" using tu dp by (auto simp: os_def LeaderlessNode_getOtherNodes_def)
  have sub: "set ts \<subseteq> set os"
    using ts set_take_subset [of "nat cnt" "sh os"] mset_eq_setD [OF sh [of os]] by (auto split: if_splits)
  have "distinct (sh os)" using os(1) sh by (metis mset_eq_imp_distinct_iff)
  then show "distinct ts" using ts os(1) by simp
  show "bn_id n \<notin> set ts" using sub os(2) by blast
  assume nr: "narrow qc ids"
  have "set os \<subseteq> set (place qc ids k)"
  proof (cases "int (length ?p) < cnt")
    case False
    then show ?thesis by (auto simp: os_def)
  next
    case True
    have "set (filter (\<lambda>r. r = bn_id n) (place qc ids k)) \<subseteq> {bn_id n}" by auto
    then have "length (filter (\<lambda>r. r = bn_id n) (place qc ids k)) \<le> 1"
      using card_mono [of "{bn_id n}" "set (filter (\<lambda>r. r = bn_id n) (place qc ids k))"] place_spec(1) [OF assms(1) N, of k]
      by (auto simp: distinct_card simp del: set_filter)
    then have fl: "length (place qc ids k) \<le> length ?p + 1"
      using sum_length_filter_compl [of "\<lambda>r. r = bn_id n" "place qc ids k"] by simp
    have "length ids \<le> length (place qc ids k)"
      using place_spec(3) [OF assms(1) N, of k] fl True nr cnt by (auto simp: narrow_def)
    then have "card (set ids) \<le> card (set (place qc ids k))" using assms(1) place_spec(1) [OF assms(1) N, of k] by (simp add: distinct_card)
    then have "set ids \<subseteq> set (place qc ids k)" using place_spec(2) [OF assms(1) N, of k] by (metis List.finite_set card_seteq order_refl)
    then show ?thesis using True tu c by (auto simp: os_def LeaderlessNode_getOtherNodes_def same_conf_def)
  qed
  then show "set ts \<subseteq> set (place qc ids k)" using sub by blast
qed

section \<open>The invariants of a write and of a read\<close>

definition wr_ok :: "QuorumConfig \<Rightarrow> node_id list \<Rightarrow> LLSys \<Rightarrow> node_id \<Rightarrow> nat \<Rightarrow> WriteWait \<Rightarrow> bool" where
  "wr_ok qc ids s i q w \<longleftrightarrow> ww_seq w = q \<and> ww_replicas w = place qc ids (kv_Key (ww_entry w)) \<and> ww_self w = (i \<in> set (ww_replicas w)) \<and>
     holds (ls_node s i) (kv_Key (ww_entry w)) (ww_entry w) \<and>
     (\<forall>r \<in> fmdom' (ww_acked w) \<union> ackers s i q. holds (ls_node s r) (kv_Key (ww_entry w)) (ww_entry w) \<and>
        (\<not> ww_standins w \<longrightarrow> r \<in> set (ww_replicas w) \<and> r \<noteq> i)) \<and>
     (\<forall>m \<in> reqs s i q. m_Entry m = Some (ww_entry w) \<and> (\<not> ww_standins w \<longrightarrow> m_TargetID m \<in> set (ww_replicas w) \<and> m_TargetID m \<noteq> i))"

lemma wr_ok_trans:
  assumes t: "ll_trans ex s s'" and w: "wr_ok qc ids s i q w" and q: "0 < q" "q \<le> ll_seqNo (ls_node s i)"
    and w': "ww_seq w' = ww_seq w" "ww_entry w' = ww_entry w" "ww_replicas w' = ww_replicas w" "ww_self w' = ww_self w" "ww_standins w \<longrightarrow> ww_standins w'"
      "fmdom' (ww_acked w') \<subseteq> fmdom' (ww_acked w) \<union> ackers s i q"
    and ex: "\<And>m. m \<in> ex \<Longrightarrow> req_of i q m \<Longrightarrow> m_Entry m = Some (ww_entry w) \<and> ww_standins w'"
  shows "wr_ok qc ids s' i q w'"
proof -
  let ?k = "kv_Key (ww_entry w)"
  have grow: "holds (ls_node s j) k e \<Longrightarrow> holds (ls_node s' j) k e" for j k e using ll_transD(1) [OF t] by (simp add: ll_frame_def)
  have old: "holds (ls_node s r) ?k (ww_entry w) \<and> (\<not> ww_standins w \<longrightarrow> r \<in> set (ww_replicas w) \<and> r \<noteq> i)" if "r \<in> fmdom' (ww_acked w) \<union> ackers s i q" for r
    using w that unfolding wr_ok_def by blast
  have req: "m_Entry m = Some (ww_entry w) \<and> (\<not> ww_standins w \<longrightarrow> m_TargetID m \<in> set (ww_replicas w) \<and> m_TargetID m \<noteq> i)" if "m \<in> reqs s i q" for m
    using w that unfolding wr_ok_def by blast
  have "holds (ls_node s' r) ?k (ww_entry w) \<and> (\<not> ww_standins w \<longrightarrow> r \<in> set (ww_replicas w) \<and> r \<noteq> i)" if "r \<in> ackers s' i q" for r
    using ll_transD(2) [OF t that q(1)] old req grow by auto
  then have "holds (ls_node s' r) ?k (ww_entry w) \<and> (\<not> ww_standins w' \<longrightarrow> r \<in> set (ww_replicas w) \<and> r \<noteq> i)" if "r \<in> fmdom' (ww_acked w') \<union> ackers s' i q" for r
    using that w'(5,6) old grow by blast
  moreover have "m_Entry m = Some (ww_entry w) \<and> (\<not> ww_standins w' \<longrightarrow> m_TargetID m \<in> set (ww_replicas w) \<and> m_TargetID m \<noteq> i)" if "m \<in> reqs s' i q" for m
    using ll_transD(3) [OF t that q(2)] req ex that w'(5) by (auto simp: reqs_def)
  ultimately show ?thesis using w w'(1-4) grow unfolding wr_ok_def by metis
qed

definition rd_ok :: "QuorumConfig \<Rightarrow> node_id list \<Rightarrow> LLSys \<Rightarrow> node_id \<Rightarrow> nat \<Rightarrow> ReadWait \<Rightarrow> bool" where
  "rd_ok qc ids s i q w \<longleftrightarrow> rw_seq w = q \<and> mset (map rr_senderID (rw_resps w)) + awaited s i q \<subseteq># mset (rw_targets w) \<and>
     distinct (rw_targets w) \<and> i \<notin> set (rw_targets w) \<and> (narrow qc ids \<longrightarrow> set (rw_targets w) \<subseteq> set (place qc ids (rw_key w))) \<and>
     (\<forall>m \<in># asks s i q. m_Key m = rw_key w)"

lemma rd_ok_trans:
  assumes t: "ll_trans ex s s'" and w: "rd_ok qc ids s i q w" and q: "q \<le> ll_seqNo (ls_node s i)"
  shows "rd_ok qc ids s' i q w"
proof -
  have "mset (map rr_senderID (rw_resps w)) + awaited s' i q \<subseteq># mset (map rr_senderID (rw_resps w)) + awaited s i q"
    using ll_transD(5) [OF t q] by simp
  then show ?thesis using w ll_transD(4) [OF t q] unfolding rd_ok_def by (meson mset_subset_eqD subset_mset.order_trans)
qed

text \<open>The answer of a node that holds version \<open>e\<close> is at least as new.\<close>

definition newer_from :: "node_id set \<Rightarrow> KVEntry \<Rightarrow> node_id \<times> KVEntry option \<Rightarrow> bool" where
  "newer_from A e x \<longleftrightarrow> (fst x \<in> A \<longrightarrow> (\<exists>f. snd x = Some f \<and> \<not> entryWins e f))"

definition fresh :: "string \<Rightarrow> KVEntry \<Rightarrow> node_id set \<Rightarrow> LLSys \<Rightarrow> node_id \<Rightarrow> nat \<Rightarrow> ReadWait \<Rightarrow> bool" where
  "fresh k e A s i q w \<longleftrightarrow> (rw_key w = k \<longrightarrow> newer_from A e (i, rw_local w) \<and>
     (\<forall>r \<in> set (rw_resps w). newer_from A e (rr_senderID r, rr_entry r)) \<and> (\<forall>x \<in># answers s i q. newer_from A e x))"

lemma fresh_trans:
  assumes t: "ll_trans ex s s'" and A: "\<forall>r \<in> A. holds (ls_node s r) k e" and w: "rd_ok qc ids s i q w" and f: "fresh k e A s i q w"
  shows "fresh k e A s' i q w"
proof -
  have "newer_from A e x" if "rw_key w = k" "x \<in># answers s' i q" for x
    using ll_transD(6) [OF t that(2)] f w A that(1) by (auto simp: fresh_def rd_ok_def newer_from_def answered_def)
  then show ?thesis using f by (simp add: fresh_def)
qed

text \<open>A response moves from the channel to the call.\<close>

lemma read_moves:
  assumes "ls_node s' = (ls_node s)(i := n')" and "ls_net s' = ls_net s" and "mset (resps (ls_node s i) q) = add_mset r (mset (resps n' q))"
    and w': "w' = w\<lparr>rw_resps := rw_resps w @ [r]\<rparr>"
  shows "rd_ok qc ids s i q w \<Longrightarrow> rd_ok qc ids s' i q w'" and "fresh k e A s i q w \<Longrightarrow> fresh k e A s' i q w'"
proof -
  have an: "answers s i q = add_mset (rr_senderID r, rr_entry r) (answers s' i q)" using assms(1-3) by (simp add: answers_def)
  have as: "asks s' i q = asks s i q" using assms(2) by (simp add: asks_def)
  show "rd_ok qc ids s i q w \<Longrightarrow> rd_ok qc ids s' i q w'" using w' an as by (simp add: rd_ok_def awaited_def)
  show "fresh k e A s i q w \<Longrightarrow> fresh k e A s' i q w'" using w' an by (auto simp: fresh_def)
qed

section \<open>The steps keep the invariants\<close>

definition ll_inv :: "QuorumConfig \<Rightarrow> node_id list \<Rightarrow> LLSys \<Rightarrow> bool" where
  "ll_inv qc ids s \<longleftrightarrow> quiet_from s \<and> (\<forall>i. bn_id (ls_node s i) = i \<and> same_conf qc ids (ls_node s i)) \<and>
     (\<forall>i q p. ls_procs s (i, q) = Some p \<longrightarrow> 0 < q \<and> q \<le> ll_seqNo (ls_node s i)) \<and>
     (\<forall>i q w. ls_procs s (i, q) = Some (PWrite w) \<longrightarrow> wr_ok qc ids s i q w) \<and> (\<forall>i q w. ls_procs s (i, q) = Some (PRead w) \<longrightarrow> rd_ok qc ids s i q w)"

text \<open>The nodes of \<open>A\<close> hold version \<open>e\<close>, and the reads of node \<open>j\<close> numbered above \<open>q0\<close> see it.\<close>

definition tracked :: "string \<Rightarrow> KVEntry \<Rightarrow> node_id set \<Rightarrow> node_id \<Rightarrow> nat \<Rightarrow> LLSys \<Rightarrow> bool" where
  "tracked k e A j q0 s \<longleftrightarrow> (\<forall>r \<in> A. holds (ls_node s r) k e) \<and> (\<forall>q w. q0 < q \<longrightarrow> ls_procs s (j, q) = Some (PRead w) \<longrightarrow> fresh k e A s j q w)"

definition proc_ok :: "QuorumConfig \<Rightarrow> node_id list \<Rightarrow> LLSys \<Rightarrow> LLSys \<Rightarrow> node_id \<Rightarrow> nat \<Rightarrow> LLProc \<Rightarrow> bool" where
  "proc_ok qc ids s s' i q p \<longleftrightarrow> 0 < q \<and> q \<le> ll_seqNo (ls_node s' i) \<and> (\<forall>w. p = PWrite w \<longrightarrow> wr_ok qc ids s' i q w) \<and>
     (\<forall>w. p = PRead w \<longrightarrow> rd_ok qc ids s' i q w \<and> (\<forall>k e A q0. tracked k e A i q0 s \<longrightarrow> q0 < q \<longrightarrow> fresh k e A s' i q w))"

lemma ll_inv_step:
  assumes inv: "ll_inv qc ids s" and t: "ll_trans ex s s'"
    and pr: "\<And>i q p. ls_procs s' (i, q) = Some p \<Longrightarrow> ls_procs s (i, q) = Some p \<and> (\<forall>m \<in> ex. \<not> req_of i q m) \<or> proc_ok qc ids s s' i q p"
  shows "ll_inv qc ids s'" and "tracked k e A j q0 s \<Longrightarrow> tracked k e A j q0 s'"
proof -
  have fr: "ll_frame (ls_node s i) (ls_node s' i)" for i by (rule ll_transD(1) [OF t])
  have old: "0 < q \<and> q \<le> ll_seqNo (ls_node s i)" if "ls_procs s (i, q) = Some p" for i q p using inv that by (auto simp: ll_inv_def)
  have all: "proc_ok qc ids s s' i q p" if p: "ls_procs s' (i, q) = Some p" for i q p
  proof (cases "proc_ok qc ids s s' i q p")
    case False
    then have p: "ls_procs s (i, q) = Some p" "\<forall>m \<in> ex. \<not> req_of i q m" using pr [OF p] by auto
    note q = old [OF p(1)]
    have "wr_ok qc ids s' i q w" if "p = PWrite w" for w
    proof -
      have "wr_ok qc ids s i q w" using inv p(1) that by (simp add: ll_inv_def)
      then show ?thesis by (rule wr_ok_trans [OF t]) (use q p(2) in auto)
    qed
    moreover have "rd_ok qc ids s' i q w \<and> (\<forall>k e A q0. tracked k e A i q0 s \<longrightarrow> q0 < q \<longrightarrow> fresh k e A s' i q w)" if "p = PRead w" for w
    proof -
      have rd: "rd_ok qc ids s i q w" using inv p(1) that by (simp add: ll_inv_def)
      have "fresh k e A s' i q w" if "tracked k e A i q0 s" "q0 < q" for k e A q0
        using fresh_trans [OF t _ rd] that p(1) \<open>p = PRead w\<close> by (auto simp: tracked_def)
      then show ?thesis using rd_ok_trans [OF t rd] q by blast
    qed
    ultimately show ?thesis using q fr [of i] by (auto simp: proc_ok_def ll_frame_def)
  qed
  have "bn_id (ls_node s' i) = i \<and> same_conf qc ids (ls_node s' i)" for i using inv fr [of i] by (simp add: ll_inv_def same_conf_def ll_frame_def)
  then show "ll_inv qc ids s'" using ll_transD(7) [OF t] all by (simp add: ll_inv_def proc_ok_def)
  show "tracked k e A j q0 s'" if "tracked k e A j q0 s"
    using that all fr unfolding tracked_def proc_ok_def ll_frame_def by blast
qed

lemma call_new:
  assumes inv: "ll_inv qc ids s" and c: "ll_call sh c (ls_node s i) = Some (n', Some (q, p), as)" and "distinct ids" and "0 < qc_N qc"
    and sh: "\<And>xs. mset (sh xs) = mset xs" and t: "ll_trans {} s s'"
    and s': "ls_node s' = (ls_node s)(i := n')" "ls_net s' = ls_net s + mset (sent_of as)"
  shows "proc_ok qc ids s s' i q p"
proof -
  have quiet: "quiet_from s" and i: "bn_id (ls_node s i) = i" and conf: "same_conf qc ids (ls_node s i)" using inv by (auto simp: ll_inv_def)
  consider (W) w where "p = PWrite w" | (R) w where "p = PRead w" using c by (cases c) (auto split: sum.splits prod.splits)
  then show ?thesis
  proof cases
    case (W w)
    note sp = Write_spec [OF c [unfolded W]]
    have none: "ackers s i q = {}" "reqs s i q = {}" using quiet sp(2) unfolding quiet_from_def by simp_all
    have "\<not> ack_of i q m" if "m \<in> set (sent_of as)" for m using sp(11) [OF that] by (simp add: ack_of_def)
    then have "ackers s' i q = {}" using none s' sp(5) by (auto simp: ackers_def)
    moreover have "m_Entry m = Some (ww_entry w) \<and> m_TargetID m \<in> set (ww_replicas w) \<and> m_TargetID m \<noteq> i" if "m \<in> reqs s' i q" for m
      using that none s' sp(11) [of m] i by (auto simp: reqs_def)
    ultimately have "wr_ok qc ids s' i q w" using sp i s'(1) replicas_place [OF conf] by (simp add: wr_ok_def)
    then show ?thesis using W sp(2,3) s'(1) by (simp add: proc_ok_def)
  next
    case (R w)
    note sp = Read_spec [OF c [unfolded R]]
    have none: "answers s i q = {#}" "asks s i q = {#}" using quiet sp(2) unfolding quiet_from_def by simp_all
    have m: "m_Type m = MsgClientRead \<and> m_Key m = rw_key w \<and> ask_of i q m \<and> \<not> ans_of i q m" if "m \<in># mset (sent_of as)" for m
      using sp(10) [of m] that i by (auto simp: ask_of_def ans_of_def)
    have f: "filter_mset (ask_of i q) (mset (sent_of as)) = mset (sent_of as)" "filter_mset (ans_of i q) (mset (sent_of as)) = {#}"
      using m by (auto simp: filter_mset_eq_conv)
    have as: "asks s' i q = mset (sent_of as)" using none(2) f(1) s'(2) by (simp add: asks_def)
    have an: "answers s' i q = {#}" using none(1) f(2) s' sp(6) by (simp add: answers_def)
    obtain cnt where cnt: "cnt \<le> max 0 (qc_R qc)" "rw_targets w = LeaderlessNode_readTargets sh (rw_key w) cnt (ls_node s i)"
      using sp(9) conf by (auto simp: same_conf_def)
    note ts = readTargets_spec [OF assms(3,4) conf sh cnt]
    have "rd_ok qc ids s' i q w" using sp(4,5,8) as an ts i m by (simp add: rd_ok_def awaited_def flip: mset_map)
    moreover have "fresh k e A s' i q w" if "tracked k e A i q0 s" for k e A q0
      using that sp(5,7) an by (auto simp: tracked_def fresh_def newer_from_def holds_def)
    ultimately show ?thesis using R sp(2,3) s'(1) by (simp add: proc_ok_def)
  qed
qed

lemma call_local: "ll_call sh c n = Some (n', p, as) \<Longrightarrow> local_ok n n' as"
proof -
  assume c: "ll_call sh c n = Some (n', p, as)"
  then consider "p = None" | q w where "p = Some (q, PWrite w)" | q w where "p = Some (q, PRead w)" by (cases c) (auto split: sum.splits prod.splits)
  then show "local_ok n n' as" using c config_local Write_spec(1) Read_spec(1) by cases blast+
qed

lemma local_msgs: "local_ok n n' as \<Longrightarrow> m \<in># mset (sent_of as) \<Longrightarrow> msg_local n n' m"
  by (simp add: local_ok_def)

lemma proc_write_step:
  assumes inv: "ll_inv qc ids s" and p: "ls_procs s (i, q) = Some (PWrite w)" and r: "ll_proc mv (PWrite w) (ls_node s i) = Some (n', p', as)"
    and s': "ls_node s' = (ls_node s)(i := n')" "ls_net s' = ls_net s + mset (sent_of as)" "ls_procs s' = (ls_procs s)((i, q) := p')"
  shows "ll_inv qc ids s'" and "tracked k e A j q0 s \<Longrightarrow> tracked k e A j q0 s'"
proof -
  have quiet: "quiet_from s" and i: "bn_id (ls_node s i) = i" and q: "0 < q" "q \<le> ll_seqNo (ls_node s i)" and w: "wr_ok qc ids s i q w" using inv p by (auto simp: ll_inv_def)
  have seq: "ww_seq w = q" using w by (simp add: wr_ok_def)
  have "ll_inv qc ids s' \<and> (tracked k e A j q0 s \<longrightarrow> tracked k e A j q0 s')" for k e A j q0
  proof (cases "\<exists>h. p' = Some (PHints h) \<and> local_ok (ls_node s i) n' as")
    case True
    then have l: "local_ok (ls_node s i) n' as" by blast
    have t: "ll_trans {} s s'" by (rule local_step [OF quiet l i _ s'(1,2)]) (use local_msgs [OF l] in blast)
    have "proc_ok qc ids s s' i q p" if "p' = Some p" for p using that True q ll_transD(1) [OF t, of i] by (auto simp: proc_ok_def ll_frame_def)
    then show ?thesis using ll_inv_step [OF inv t] s'(3) by (auto split: if_splits)
  next
    case False
    then obtain w' where w': "p' = Some (PWrite w')" and l: "local_ok (ls_node s i) n' []" and mv: "write_moves (ls_node s i) w w' as"
      using write_proc [OF r] by blast
    have ms: "m_Type m = MsgWrite \<and> m_SenderID m = i \<and> m_SeqNo m = q \<and> m_Entry m = Some (ww_entry w) \<and> ww_standins w'" if "m \<in># mset (sent_of as)" for m
      using mv that seq i by (auto simp: write_moves_def)
    let ?ex = "set (sent_of as)"
    have t: "ll_trans ?ex s s'" by (rule local_step [OF quiet l i _ s'(1,2)]) (use ms q(2) in auto)
    have "wr_ok qc ids s' i q w'"
      by (rule wr_ok_trans [OF t w q]) (use mv seq ms in \<open>auto simp: write_moves_def ackers_def\<close>)
    then have ok: "proc_ok qc ids s s' i q (PWrite w')" using q ll_transD(1) [OF t, of i] by (auto simp: proc_ok_def ll_frame_def)
    have "ls_procs s (j, p) = Some x \<and> (\<forall>m \<in> ?ex. \<not> req_of j p m) \<or> proc_ok qc ids s s' j p x" if "ls_procs s' (j, p) = Some x" for j p x
      using that s'(3) w' ok ms by (auto simp: req_of_def split: if_splits)
    then show ?thesis using ll_inv_step [OF inv t] by blast
  qed
  then show "ll_inv qc ids s'" "tracked k e A j q0 s \<Longrightarrow> tracked k e A j q0 s'" by blast+
qed

lemma proc_other_step:
  assumes inv: "ll_inv qc ids s" and p: "ls_procs s (i, q) = Some p" and r: "ll_proc mv p (ls_node s i) = Some (n', p', as)" and "\<And>w. p \<noteq> PWrite w"
    and s': "ls_node s' = (ls_node s)(i := n')" "ls_net s' = ls_net s + mset (sent_of as)" "ls_procs s' = (ls_procs s)((i, q) := p')"
  shows "ll_inv qc ids s'" and "tracked k e A j q0 s \<Longrightarrow> tracked k e A j q0 s'"
proof -
  have quiet: "quiet_from s" and i: "bn_id (ls_node s i) = i" and q: "0 < q" "q \<le> ll_seqNo (ls_node s i)" using inv p by (auto simp: ll_inv_def)
  note op = other_proc [OF r assms(4)]
  then have l: "local_ok (ls_node s i) n' as" by blast
  have t: "ll_trans {} s s'" by (rule local_step [OF quiet l i _ s'(1,2)]) (use local_msgs [OF l] in blast)
  have "rd_ok qc ids s' i q w' \<and> (\<forall>k e A q0. tracked k e A i q0 s \<longrightarrow> q0 < q \<longrightarrow> fresh k e A s' i q w')" if "p' = Some (PRead w')" for w'
  proof -
    from op that obtain w x where w: "p = PRead w" "w' = w\<lparr>rw_resps := rw_resps w @ [x]\<rparr>" "mset (resps (ls_node s i) (rw_seq w)) = add_mset x (mset (resps n' (rw_seq w)))" and "as = []"
      by blast
    have rd: "rd_ok qc ids s i q w" using inv p w(1) by (simp add: ll_inv_def)
    have x: "mset (resps (ls_node s i) q) = add_mset x (mset (resps n' q))" using w(3) rd by (simp add: rd_ok_def)
    have "ls_net s' = ls_net s" using s'(2) \<open>as = []\<close> by simp
    note mv = read_moves [OF s'(1) this x w(2)]
    show ?thesis using mv(1) [OF rd] mv(2) p w(1) by (auto simp: tracked_def)
  qed
  then have "proc_ok qc ids s s' i q x" if "p' = Some x" for x using that op q ll_transD(1) [OF t, of i] by (auto simp: proc_ok_def ll_frame_def)
  then show "ll_inv qc ids s'" "tracked k e A j q0 s \<Longrightarrow> tracked k e A j q0 s'" using ll_inv_step [OF inv t] s'(3) by (auto split: if_splits)
qed

lemma ll_step_inv:
  assumes "ll_step ids s s'" and inv: "ll_inv qc ids s" and "distinct ids" and "0 < qc_N qc"
  shows "ll_inv qc ids s' \<and> (tracked k e A j q0 s \<longrightarrow> tracked k e A j q0 s')"
proof -
  have quiet: "quiet_from s" and bi: "\<And>i. bn_id (ls_node s i) = i" using inv by (auto simp: ll_inv_def)
  show ?thesis using assms(1)
  proof cases
    case (call i sh c n' p as)
    note l = call_local [OF call(4)]
    have s': "ls_node s' = (ls_node s)(i := n')" "ls_net s' = ls_net s + mset (sent_of as)" using call(1) by simp_all
    have t: "ll_trans {} s s'" by (rule local_step [OF quiet l bi _ s']) (use local_msgs [OF l] in blast)
    have "ls_procs s (a, b) = Some x \<or> proc_ok qc ids s s' a b x" if "ls_procs s' (a, b) = Some x" for a b x
    proof (cases p)
      case None
      then show ?thesis using that call(1) by simp
    next
      case (Some y)
      obtain q y' where y: "y = (q, y')" by (cases y)
      have "proc_ok qc ids s s' i q y'" by (rule call_new [OF inv _ assms(3,4) call(3) t s']) (use call(4) Some y in simp)
      then show ?thesis using that call(1) Some y by (auto split: if_splits)
    qed
    then show ?thesis using ll_inv_step [OF inv t] by blast
  next
    case (proc i q p mv n' p' as)
    then show ?thesis using proc_write_step [OF inv] proc_other_step [OF inv proc(3,4)] by (cases "\<exists>w. p = PWrite w") auto
  next
    case (deliver m now n' as)
    have "ll_trans {} s s'" by (rule ll_deliver_step [OF quiet deliver(2) bi deliver(4)]) (simp_all add: deliver(1))
    from ll_inv_step [OF inv this] show ?thesis using deliver(1) by simp
  next
    case (lose m)
    have "ll_trans {} s s'" by (rule lose_step [OF quiet]) (simp_all add: lose)
    from ll_inv_step [OF inv this] show ?thesis using lose by simp
  qed
qed

section \<open>Quorums meet\<close>

lemma ll_inv_init: "ll_inv qc ids (init_ll cid qc ids)"
proof -
  let ?n = "\<lambda>i. LeaderlessNode_SetAllNodes ids (NewLeaderlessNode i cid qc)"
  have n: "bn_id (?n i) = i" "same_conf qc ids (?n i)" "acks (?n i) q = []" "resps (?n i) q = []" for i q
    by (simp_all add: LeaderlessNode_SetAllNodes_def NewLeaderlessNode_def newBaseNode_def BaseNode.defs LeaderlessNode.defs same_conf_def ring_of_def acks_def resps_def)
  then show ?thesis by (simp add: ll_inv_def init_ll_def quiet_from_def ackers_def reqs_def asks_def answers_def)
qed

lemma ll_reach:
  assumes "(ll_step ids)\<^sup>*\<^sup>* s s'" and "ll_inv qc ids s" and "distinct ids" and "0 < qc_N qc"
  shows "ll_inv qc ids s' \<and> (tracked k e A j q0 s \<longrightarrow> tracked k e A j q0 s')"
  using assms by (induction rule: rtranclp_induct) (use ll_step_inv in blast)+

lemma newest_wins:
  assumes "f \<in> set (r # rs)"
  shows "\<not> entryWins f (newest r rs)"
proof -
  have "\<not> entryWins f (newest b rs)" if "f \<in> set rs \<or> \<not> entryWins f b" for b f
    using that
  proof (induction rs arbitrary: b)
    case (Cons x rs)
    have "f \<in> set rs \<or> \<not> entryWins f (if entryWins x b then x else b)" using Cons.prems by (auto simp: entryWins_iff)
    from Cons.IH [OF this] show ?case by (simp add: newest_def)
  qed (simp add: newest_def)
  then show ?thesis using assms by (auto simp: entryWins_iff)
qed

text \<open>The nodes behind a met plain quorum.\<close>

lemma quorum_nodes:
  assumes "write_met w n" and "ll_consistencyLevel n = CLQuorum"
  shows "qc_W (ll_qConfig n) \<le> int (card (fmdom' (ww_acked w) \<union> (if ww_self w then {bn_id n} else {})))"
proof -
  let ?c = "go_range (\<lambda>k _ t. fmupd k True t) (ww_acked w) fmempty"
  have "fmdom' (fold (\<lambda>(k, _) t. fmupd k True t) xs t) = fmdom' t \<union> fst ` set xs" for xs :: "(node_id \<times> bool) list" and t
    by (induction xs arbitrary: t) auto
  then have "fmdom' ?c = fst ` set (sorted_list_of_fmap (ww_acked w))" by (simp add: go_range_def)
  then have "fmdom' ?c = fmdom' (ww_acked w)" by (force simp: fmdom'_def dom_def image_iff)
  then show ?thesis using assms by (auto simp: write_met_def LeaderlessNode_writeQuorumMet_def Let_def go_len_card Un_commute split: if_splits)
qed

lemma distinct_submset:
  assumes "distinct ys" and "mset xs \<subseteq># mset ys"
  shows "distinct xs"
proof -
  have "count (mset xs) a = (if a \<in> set xs then 1 else 0)" for a
  proof (cases "a \<in> set xs")
    case True
    then have "0 < count (mset xs) a" by (simp add: count_greater_zero_iff)
    moreover have "count (mset xs) a \<le> 1" using mset_subset_eq_count [OF assms(2), of a] assms(1) by (metis distinct_count_atmost_1 le_zero_eq linear order_trans zero_le)
    ultimately have "count (mset xs) a = 1" by linarith
    then show ?thesis using True by simp
  qed (simp add: count_mset_0_iff)
  then show ?thesis by (simp add: distinct_count_atmost_1)
qed

lemma best_sees:
  assumes rd: "rd_ok qc ids s j q w" and f: "fresh (rw_key w) e A s j q w" and n: "same_conf qc ids (ls_node s j)" and nr: "narrow qc ids"
    and "distinct ids" and "0 < qc_N qc" and A: "A \<subseteq> set (place qc ids (rw_key w))" "qc_N qc < int (card A) + qc_R qc" and j: "j \<in> set (place qc ids (rw_key w))"
  shows "case Read_best w (ls_node s j) of Inl err \<Rightarrow> (\<exists>c. err = ReadQuorumNotMet c (qc_R qc) (rw_key w)) | Inr best \<Rightarrow> \<not> entryWins e best"
proof (cases "1 + int (length (rw_resps w)) < qc_R qc")
  case True
  then show ?thesis using n by (simp add: Read_best_def same_conf_def)
next
  case False
  let ?P = "set (place qc ids (rw_key w))" and ?S = "insert j (set (map rr_senderID (rw_resps w)))"
  have sub: "mset (map rr_senderID (rw_resps w)) \<subseteq># mset (rw_targets w)"
    using rd unfolding rd_ok_def by (metis mset_subset_eq_add_left subset_mset.order_trans)
  have tg: "distinct (rw_targets w)" "j \<notin> set (rw_targets w)" "set (rw_targets w) \<subseteq> ?P" using rd nr by (auto simp: rd_ok_def)
  have S: "distinct (map rr_senderID (rw_resps w))" by (rule distinct_submset [OF tg(1) sub])
  have in_t: "set (map rr_senderID (rw_resps w)) \<subseteq> set (rw_targets w)" using set_mset_mono [OF sub] by simp
  then have S': "j \<notin> set (map rr_senderID (rw_resps w))" "?S \<subseteq> ?P" using tg j by auto
  have "card ?S = 1 + length (rw_resps w)" using S'(1) distinct_card [OF S] by simp
  then have "int (card ?S) \<ge> qc_R qc" using False by simp
  moreover have "int (card ?P) \<le> qc_N qc" using place_spec(4) [OF assms(5,6)] card_length by (metis of_nat_le_iff order_trans)
  ultimately have "card ?P < card A + card ?S" using A(2) by linarith
  moreover have "card (A \<union> ?S) \<le> card ?P" using A(1) S'(2) by (intro card_mono) auto
  moreover have "finite A" using A(1) finite_subset by blast
  ultimately have "A \<inter> ?S \<noteq> {}" using card_Un_disjoint [of A ?S] by fastforce
  then obtain x where x: "x \<in> A" "x \<in> ?S" by blast
  have "\<exists>g \<in> set (responses w). \<not> entryWins e g"
  proof (cases "x = j")
    case True
    then show ?thesis using f x(1) by (auto simp: fresh_def newer_from_def responses_def)
  next
    case False
    then obtain y where y: "y \<in> set (rw_resps w)" "rr_senderID y = x" using x(2) by auto
    have "newer_from A e (rr_senderID y, rr_entry y)" using f y(1) by (simp add: fresh_def)
    then obtain g where g: "rr_entry y = Some g" "\<not> entryWins e g" using y(2) x(1) by (auto simp: newer_from_def)
    have "g \<in> set (responses w)" using y(1) g(1) by (auto simp: responses_def List.map_filter_def intro!: image_eqI [of _ _ y])
    then show ?thesis using g(2) by blast
  qed
  then obtain g b bs where g: "g \<in> set (b # bs)" "\<not> entryWins e g" "responses w = b # bs" by (metis list.exhaust list.set_cases)
  have "\<not> entryWins e (newest b bs)" using newest_wins [OF g(1)] g(2) entryWins_trans by blast
  then show ?thesis using g(3) False n by (simp add: Read_best_def same_conf_def)
qed

text \<open>C10. Strict quorums meet. A write has reached its quorum of \<open>W\<close> replicas without stand-ins. A read of the key
  that starts afterwards at one of its replicas (its sequence number is above those the coordinator had given out)
  finds that version or a newer one, or reports that it did not hear from \<open>R\<close> nodes; it never
  answers that the key is unknown. This holds when \<open>W + R > N\<close> and either \<open>R < N\<close> or the cluster has no more
  than \<open>N\<close> nodes, whatever else runs at the same time and whatever messages are lost.\<close>

theorem quorum_read_sees_write:
  assumes "distinct ids" and "0 < qc_N qc" and "qc_N qc < qc_W qc + qc_R qc" and "qc_R qc < qc_N qc \<or> int (length ids) \<le> qc_N qc"
    and reach: "(ll_step ids)\<^sup>*\<^sup>* (init_ll cid qc ids) s0" and w: "ls_procs s0 (i, p) = Some (PWrite w)"
    and rd: "coordinate_round now w (ls_node s0 i) = Some (w', as)" "ww_phase w' = Decided True" "\<not> ww_standins w'"
    and lev: "ll_consistencyLevel (ls_node s0 i) = CLQuorum"
    and later: "(ll_step ids)\<^sup>*\<^sup>* s0 s1" and r: "ls_procs s1 (j, q) = Some (PRead r)" "rw_key r = kv_Key (ww_entry w)" "ll_seqNo (ls_node s0 j) < q"
    and j: "j \<in> set (LeaderlessNode_replicasFor (rw_key r) (ls_node s1 j))"
  shows "case Read_best r (ls_node s1 j) of Inl err \<Rightarrow> (\<exists>c. err = ReadQuorumNotMet c (qc_R qc) (rw_key r)) | Inr best \<Rightarrow> \<not> entryWins (ww_entry w) best"
proof -
  have inv0: "ll_inv qc ids s0" using ll_reach [OF reach ll_inv_init assms(1,2)] by blast
  have met: "write_met w (ls_node s0 i)" "\<not> ww_standins w"
    using rd by (auto simp: coordinate_round_def sloppyRound_start_def Let_def split: if_splits)
  let ?A = "fmdom' (ww_acked w) \<union> (if ww_self w then {i} else {})" and ?k = "kv_Key (ww_entry w)"
  have wr: "wr_ok qc ids s0 i p w" and bi: "bn_id (ls_node s0 i) = i" "ll_qConfig (ls_node s0 i) = qc" using inv0 w by (auto simp: ll_inv_def same_conf_def)
  then have A: "?A \<subseteq> set (place qc ids ?k)" "\<forall>x \<in> ?A. holds (ls_node s0 x) ?k (ww_entry w)" using met(2) by (auto simp: wr_ok_def split: if_splits)
  have "qc_W qc \<le> int (card ?A)" using quorum_nodes [OF met(1) lev] unfolding bi .
  then have card: "qc_N qc < int (card ?A) + qc_R qc" using assms(3) by linarith
  have "\<not> ll_seqNo (ls_node s0 j) < p" if "ls_procs s0 (j, p) = Some x" for p x using inv0 that unfolding ll_inv_def by (meson not_less)
  then have "tracked ?k (ww_entry w) ?A j (ll_seqNo (ls_node s0 j)) s0" using A(2) unfolding tracked_def by blast
  then have inv1: "ll_inv qc ids s1" and tr: "tracked ?k (ww_entry w) ?A j (ll_seqNo (ls_node s0 j)) s1" using ll_reach [OF later inv0 assms(1,2)] by blast+
  have sees: "rd_ok qc ids s1 j q r" "fresh (rw_key r) (ww_entry w) ?A s1 j q r" "same_conf qc ids (ls_node s1 j)"
    using inv1 tr r by (auto simp: ll_inv_def tracked_def)
  have "narrow qc ids" using assms(4) by (simp add: narrow_def)
  then show ?thesis using best_sees [OF sees _ assms(1,2)] A(1) card j replicas_place [OF sees(3)] r(2) by simp
qed

section \<open>A run of two nodes\<close>

abbreviation qc2 :: QuorumConfig where
  "qc2 \<equiv> \<lparr>qc_N = 2, qc_W = 1, qc_R = 2\<rparr>"

lemma place_pair: "set (place qc2 [''a'', ''b''] k) = {''a'', ''b''}" "filter (\<lambda>r. r \<noteq> ''a'') (place qc2 [''a'', ''b''] k) = [''b'']"
    "filter (\<lambda>r. r \<noteq> ''b'') (place qc2 [''a'', ''b''] k) = [''a'']"
proof -
  note p = place_spec [of "[''a'', ''b'']" qc2 k, simplified]
  then obtain x y where xy: "place qc2 [''a'', ''b''] k = [x, y]" by (auto simp: length_Suc_conv numeral_2_eq_2)
  then have "(x, y) = (''a'', ''b'') \<or> (x, y) = (''b'', ''a'')" using p(1,2) by auto
  then show "set (place qc2 [''a'', ''b''] k) = {''a'', ''b''}" "filter (\<lambda>r. r \<noteq> ''a'') (place qc2 [''a'', ''b''] k) = [''b'']"
    "filter (\<lambda>r. r \<noteq> ''b'') (place qc2 [''a'', ''b''] k) = [''a'']" using xy by auto
qed

definition pair_node :: "node_id \<Rightarrow> LeaderlessNode" where
  "pair_node i = LeaderlessNode_SetAllNodes [''a'', ''b''] (NewLeaderlessNode i ''k'' qc2)"

lemma pair_node_fields: "same_conf qc2 [''a'', ''b''] (pair_node i)" "bn_id (pair_node i) = i" "bn_state (pair_node i) = StateOnline" "ll_seqNo (pair_node i) = 0"
  "bn_store (pair_node i) = NewStore" "ll_consistencyLevel (pair_node i) = CLQuorum" "ll_repairMode (pair_node i) = RepairAsync"
  "ll_qConfig (pair_node i) = qc2" "ll_allNodes (pair_node i) = [''a'', ''b'']" "ll_readResps (pair_node i) = fmempty" "ll_writeAcks (pair_node i) = fmempty"
  "bn_hlc (pair_node i) = NewHLC"
  by (simp_all add: pair_node_def LeaderlessNode_SetAllNodes_def NewLeaderlessNode_def newBaseNode_def BaseNode.defs LeaderlessNode.defs same_conf_def ring_of_def)

text \<open>Node \<open>a\<close> writes; one of its two replicas is enough.\<close>

definition pair_write :: "LeaderlessNode \<times> WriteWait \<times> Action list" where
  "pair_write = (case LeaderlessNode_Write 5000000 ''x'' (Some ''v'') (pair_node ''a'') of Inr r \<Rightarrow> r)"

lemma pair_write: "ll_call id (LWrite 5000000 ''x'' (Some ''v'')) (pair_node ''a'') =
   Some (fst pair_write, Some (ww_seq (fst (snd pair_write)), PWrite (fst (snd pair_write))), snd (snd pair_write))"
  by (simp add: pair_write_def LeaderlessNode_Write_def pair_node_fields BaseNode_isPaused_def Let_def split: prod.splits)


abbreviation pair_n :: LeaderlessNode where
  "pair_n \<equiv> fst pair_write"

abbreviation pair_w :: WriteWait where
  "pair_w \<equiv> fst (snd pair_write)"

lemma GetRaw_New: "Store_GetRaw NewStore k = None"
  by (simp add: Store_GetRaw_def NewStore_def)

lemma pair_write_fields: "ll_consistencyLevel pair_n = CLQuorum" "ll_qConfig pair_n = qc2" "bn_state pair_n = StateOnline" "bn_id pair_n = ''a''"
  "kv_Key (ww_entry pair_w) = ''x''" "kv_Value (ww_entry pair_w) = Some ''v''" "ww_phase pair_w = Collecting"
  "\<exists>v. Store_GetRaw (bn_store pair_n) ''x'' = Some ((ww_entry pair_w)\<lparr>kv_Version := v\<rparr>)"
  by (simp_all add: pair_write_def LeaderlessNode_Write_def coordinate_start_def LeaderlessNode_applyWrite_def BaseNode_HLCNow_def BaseNode_HLCUpdate_def
      pair_node_fields Let_def BaseNode_isPaused_def GetRaw_Set GetRaw_New split: prod.splits)

lemma pair_write_wait: "ww_seq pair_w = 1" "\<not> ww_standins pair_w" "ww_acked pair_w = fmempty" "ww_self pair_w"
  using Write_spec(2,6,8-10) [OF pair_write] Write_spec(7) [OF pair_write] pair_node_fields(2,4) replicas_place [OF pair_node_fields(1)] by (simp_all add: place_pair)

lemma pair_round: "coordinate_round 6000000 pair_w pair_n = Some (pair_w\<lparr>ww_phase := Decided True\<rparr>, [])"
  by (simp add: coordinate_round_def write_met_def LeaderlessNode_writeQuorumMet_def pair_write_fields pair_write_wait go_len_card)

definition pair_read :: ReadWait where
  "pair_read = \<lparr>rw_seq = 1, rw_key = ''x'', rw_local = None, rw_digest = False, rw_targets = [''a''], rw_needed = 1, rw_resps = []\<rparr>"

definition pair_ask :: Message where
  "pair_ask = (msg_of MsgClientRead ''b'' ''a'')\<lparr>m_SeqNo := 1, m_Key := ''x'', m_Digest := False\<rparr>"

abbreviation pair_b :: LeaderlessNode where
  "pair_b \<equiv> (pair_node ''b'')\<lparr>ll_seqNo := 1, ll_readResps := fmupd 1 (chan_make 2) fmempty\<rparr>"

lemma pair_ask_fields: "m_Type pair_ask = MsgClientRead" "m_SenderID pair_ask = ''b''" "m_TargetID pair_ask = ''a''" "m_SeqNo pair_ask = 1" "m_Key pair_ask = ''x''"
    "\<not> m_Digest pair_ask"
  by (simp_all add: pair_ask_def msg_of_def)

lemma pair_read: "ll_call id (LRead ''x'') (pair_node ''b'') = Some (pair_b, Some (1, PRead pair_read), [Send pair_ask])"
proof -
  have "LeaderlessNode_readTargets id ''x'' 2 (pair_node ''b'') = [''a'']"
    using replicas_place [OF pair_node_fields(1) [of "''b''"]]
    by (simp add: LeaderlessNode_readTargets_def pair_node_fields place_pair LeaderlessNode_getOtherNodes_def)
  then show ?thesis
    by (simp add: LeaderlessNode_Read_def pair_node_fields GetRaw_New BaseNode_isPaused_def pair_read_def pair_ask_def numeral_2_eq_2)
qed

definition pair_s0 :: LLSys where
  "pair_s0 = \<lparr>ls_node = pair_node(''a'' := pair_n), ls_procs = (\<lambda>_. None)((''a'', 1) := Some (PWrite pair_w)), ls_net = mset (sent_of (snd (snd pair_write)))\<rparr>"

lemma pair_s0: "(ll_step [''a'', ''b''])\<^sup>*\<^sup>* (init_ll ''k'' qc2 [''a'', ''b'']) pair_s0"
proof -
  have i: "init_ll ''k'' qc2 [''a'', ''b''] = \<lparr>ls_node = pair_node, ls_procs = (\<lambda>_. None), ls_net = {#}\<rparr>" by (simp add: init_ll_def pair_node_def fun_eq_iff)
  have "ll_step [''a'', ''b''] (init_ll ''k'' qc2 [''a'', ''b'']) pair_s0"
    using ll_step.call [of "''a''" "[''a'', ''b'']" id "LWrite 5000000 ''x'' (Some ''v'')" "init_ll ''k'' qc2 [''a'', ''b'']"] pair_write pair_write_wait(1)
    by (simp add: i pair_s0_def)
  then show ?thesis by simp
qed

definition pair_reply :: Message where
  "pair_reply = read_reply pair_ask pair_n"

abbreviation pair_resp :: readResp where
  "pair_resp \<equiv> \<lparr>rr_senderID = ''a'', rr_entry = Store_GetRaw (bn_store pair_n) ''x'', rr_hash = []\<rparr>"

definition pair_s1 :: LLSys where
  "pair_s1 = pair_s0\<lparr>ls_node := pair_node(''a'' := pair_n, ''b'' := (pair_node ''b'')\<lparr>ll_seqNo := 1, ll_readResps := fmupd 1 (chan_make 2) fmempty\<rparr>),
     ls_procs := (\<lambda>_. None)((''a'', 1) := Some (PWrite pair_w), (''b'', 1) := Some (PRead (pair_read\<lparr>rw_resps := [pair_resp]\<rparr>)))\<rparr>"

lemma pair_fields: "ls_node pair_s0 = pair_node(''a'' := pair_n)" "ls_procs pair_s0 (''a'', 1) = Some (PWrite pair_w)" "ls_node pair_s1 ''b'' = pair_b"
    "ls_procs pair_s1 (''b'', 1) = Some (PRead (pair_read\<lparr>rw_resps := [pair_resp]\<rparr>))"
  by (simp_all add: pair_s0_def pair_s1_def)

lemma pair_reply_fields: "m_Type pair_reply = MsgSyncAck" "m_SenderID pair_reply = ''a''" "m_TargetID pair_reply = ''b''" "m_SeqNo pair_reply = 1"
    "m_Entry pair_reply = Store_GetRaw (bn_store pair_n) ''x''" "m_Hash pair_reply = []"
proof -
  obtain v where v: "Store_GetRaw (bn_store pair_n) ''x'' = Some ((ww_entry pair_w)\<lparr>kv_Version := v\<rparr>)" using pair_write_fields(8) by blast
  show "m_Type pair_reply = MsgSyncAck" "m_SenderID pair_reply = ''a''" "m_TargetID pair_reply = ''b''" "m_SeqNo pair_reply = 1"
    by (simp_all add: pair_reply_def reply_fields pair_ask_fields pair_write_fields)
  show "m_Entry pair_reply = Store_GetRaw (bn_store pair_n) ''x''" "m_Hash pair_reply = []"
    unfolding pair_reply_def read_reply_def Let_def pair_ask_fields v by (simp_all add: pair_ask_fields msg_of_def)
qed

lemma pair_s1: "(ll_step [''a'', ''b''])\<^sup>*\<^sup>* pair_s0 pair_s1"
proof -
  let ?ids = "[''a'', ''b'']" and ?net = "mset (sent_of (snd (snd pair_write)))"
  let ?b = "(pair_node ''b'')\<lparr>ll_seqNo := 1, ll_readResps := fmupd 1 ((chan_make 2)\<lparr>ch_buf := [pair_resp]\<rparr>) fmempty\<rparr>"
  let ?procs = "(\<lambda>_. None)((''a'', 1) := Some (PWrite pair_w), (''b'', 1) := Some (PRead pair_read))"
  let ?s1 = "\<lparr>ls_node = pair_node(''a'' := pair_n, ''b'' := pair_b), ls_procs = ?procs, ls_net = ?net + {#pair_ask#}\<rparr>"
  let ?s2 = "\<lparr>ls_node = pair_node(''a'' := pair_n, ''b'' := pair_b), ls_procs = ?procs, ls_net = ?net + {#pair_reply#}\<rparr>"
  let ?s3 = "\<lparr>ls_node = pair_node(''a'' := pair_n, ''b'' := ?b), ls_procs = ?procs, ls_net = ?net\<rparr>"
  have 1: "ll_step ?ids pair_s0 ?s1" using ll_step.call [of "''b''" ?ids id "LRead ''x''" pair_s0] pair_read by (simp add: pair_s0_def)
  have h: "LeaderlessNode_HandleMessage 7000000 pair_ask pair_n = (pair_n, [Send pair_reply])"
    by (simp add: LeaderlessNode_HandleMessage_def BaseNode_isPaused_def pair_write_fields pair_ask_fields pair_reply_def)
  have "(ls_node ?s1)(''a'' := pair_n) = ls_node ?s1" by (simp add: fun_eq_iff)
  then have 2: "ll_step ?ids ?s1 ?s2"
    using ll_step.deliver [of pair_ask ?s1 ?ids 7000000 pair_n "[Send pair_reply]"] h by (simp add: pair_ask_fields)
  have "LeaderlessNode_HandleMessage 8000000 pair_reply pair_b = (?b, [])"
    by (simp add: LeaderlessNode_HandleMessage_def BaseNode_isPaused_def pair_node_fields pair_reply_fields chan_try_def chan_make_def)
  then have 3: "ll_step ?ids ?s2 ?s3" using ll_step.deliver [of pair_reply ?s2 ?ids 8000000 ?b "[]"] by (simp add: pair_reply_fields)
  have "ll_proc (Receive 9000000) (PRead pair_read) ?b = Some (pair_b, Some (PRead (pair_read\<lparr>rw_resps := [pair_resp]\<rparr>)), [])"
    by (simp add: Read_recv_def recv_resp_def chan_recv_def chan_make_def pair_read_def)
  then have 4: "ll_step ?ids ?s3 pair_s1" using ll_step.proc [of "''b''" ?ids ?s3 1 "PRead pair_read" "Receive 9000000"] by (simp add: pair_s1_def pair_s0_def)
  show ?thesis using 1 2 3 4 by (meson converse_rtranclp_into_rtranclp rtranclp.rtrancl_refl)
qed

theorem quorum_read_sees_write_witness:
  "(ll_step [''a'', ''b''])\<^sup>*\<^sup>* (init_ll ''k'' qc2 [''a'', ''b'']) pair_s0 \<and> (ll_step [''a'', ''b''])\<^sup>*\<^sup>* pair_s0 pair_s1 \<and>
   (\<exists>best. Read_best (pair_read\<lparr>rw_resps := [pair_resp]\<rparr>) (ls_node pair_s1 ''b'') = Inr best \<and> \<not> entryWins (ww_entry pair_w) best \<and> kv_Value best = Some ''v'')"
proof -
  let ?r = "pair_read\<lparr>rw_resps := [pair_resp]\<rparr>"
  obtain v where v: "Store_GetRaw (bn_store pair_n) ''x'' = Some ((ww_entry pair_w)\<lparr>kv_Version := v\<rparr>)" using pair_write_fields(8) by blast
  have b: "Read_best ?r (ls_node pair_s1 ''b'') = Inr ((ww_entry pair_w)\<lparr>kv_Version := v\<rparr>)"
    using v by (simp add: Read_best_def pair_fields pair_node_fields pair_read_def responses_def List.map_filter_def newest_def)
  have "same_conf qc2 [''a'', ''b''] pair_b" using pair_node_fields(1) [of "''b''"] by (simp add: same_conf_def)
  then have "''b'' \<in> set (LeaderlessNode_replicasFor (rw_key ?r) (ls_node pair_s1 ''b''))" by (simp add: pair_fields pair_read_def replicas_place place_pair)
  then have "case Read_best ?r (ls_node pair_s1 ''b'') of Inl err \<Rightarrow> (\<exists>c. err = ReadQuorumNotMet c (qc_R qc2) (rw_key ?r)) | Inr best \<Rightarrow> \<not> entryWins (ww_entry pair_w) best"
    by (intro quorum_read_sees_write [OF _ _ _ _ pair_s0 pair_fields(2) _ _ _ _ pair_s1 pair_fields(4),
          where now = 6000000 and w' = "pair_w\<lparr>ww_phase := Decided True\<rparr>" and as = "[]"])
       (simp_all add: pair_fields pair_round pair_write_fields pair_write_wait pair_node_fields, simp_all add: pair_read_def)
  then show ?thesis using b pair_s0 pair_s1 pair_write_fields(6) by simp
qed

end
