(* ===== verification/LeaderlessLimits.thy ===== *)
theory LeaderlessLimits
  imports LeaderlessQuorum
begin

text \<open>
  Replicas of a leaderless cluster converge by last write wins; and three places where \<open>leaderless.go\<close> does
  less than it says: the sloppy quorum, the digest read and the handoff of hints.
\<close>

section \<open>Convergence\<close>

definition apply_all :: "(int \<times> KVEntry) list \<Rightarrow> LeaderlessNode \<Rightarrow> LeaderlessNode" where
  "apply_all xs n = fold (\<lambda>(now, e) n. LeaderlessNode_applyWrite now e n) xs n"

lemma applyWrite_raw:
  "Store_GetRaw (bn_store (LeaderlessNode_applyWrite now e n)) k =
     (if k = kv_Key e \<and> (\<forall>f. Store_GetRaw (bn_store n) k = Some f \<longrightarrow> entryWins e f) then Some (e\<lparr>kv_Version := st_version (bn_store n) + 1\<rparr>)
      else Store_GetRaw (bn_store n) k)"
  by (auto simp: LeaderlessNode_applyWrite_def BaseNode_HLCUpdate_def GetRaw_Set Let_def split: prod.splits option.splits)

definition last_of :: "KVEntry set \<Rightarrow> string \<Rightarrow> KVEntry \<Rightarrow> bool" where
  "last_of E k f \<longleftrightarrow> (\<exists>e \<in> E. kv_Key e = k \<and> unversioned (Some f) = unversioned (Some e)) \<and> (\<forall>g \<in> E. kv_Key g = k \<longrightarrow> \<not> entryWins g f)"

lemma unversioned_stamp: "unversioned (Some f) = unversioned (Some e) \<Longrightarrow> kv_Timestamp f = kv_Timestamp e \<and> kv_NodeID f = kv_NodeID e"
  by (cases e; cases f) (simp add: unversioned_def)

lemma apply_all_last:
  assumes "Store_GetRaw (bn_store n) k = None"
  shows "case Store_GetRaw (bn_store (apply_all xs n)) k of None \<Rightarrow> (\<forall>e \<in> snd ` set xs. kv_Key e \<noteq> k) | Some f \<Rightarrow> last_of (snd ` set xs) k f"
proof (induction xs rule: rev_induct)
  case Nil
  then show ?case using assms by (simp add: apply_all_def)
next
  case (snoc x xs)
  obtain now e where x: "x = (now, e)" by (cases x)
  let ?n = "apply_all xs n"
  have r: "Store_GetRaw (bn_store (apply_all (xs @ [x]) n)) k =
     (if k = kv_Key e \<and> (\<forall>f. Store_GetRaw (bn_store ?n) k = Some f \<longrightarrow> entryWins e f) then Some (e\<lparr>kv_Version := st_version (bn_store ?n) + 1\<rparr>)
      else Store_GetRaw (bn_store ?n) k)" using x by (auto simp: apply_all_def applyWrite_raw)
  show ?case
  proof (cases "k = kv_Key e \<and> (\<forall>f. Store_GetRaw (bn_store ?n) k = Some f \<longrightarrow> entryWins e f)")
    case True
    have "\<not> entryWins g e" if "g \<in> snd ` set xs" "kv_Key g = k" for g
      using snoc that True by (auto simp: last_of_def entryWins_iff split: option.splits)
    then show ?thesis using r True x by (auto simp: last_of_def entryWins_iff)
  next
    case False
    then show ?thesis using r snoc x by (auto simp: last_of_def split: option.splits)
  qed
qed

text \<open>C11. Replicas converge. Two replicas that start empty and apply the same versions, each in an order of its own and
  with repetitions, end with the same version of every key, given that no two different versions of a
  key carry the same timestamp and writer (the hybrid clock of a writer never gives the same timestamp twice).\<close>

theorem leaderless_convergence:
  assumes "snd ` set xs = snd ` set ys" and "Store_GetRaw (bn_store n) k = None" and "Store_GetRaw (bn_store m) k = None"
    and "\<forall>e \<in> snd ` set xs. \<forall>f \<in> snd ` set xs. kv_Key e = k \<and> kv_Key f = k \<and> kv_Timestamp e = kv_Timestamp f \<and> kv_NodeID e = kv_NodeID f \<longrightarrow>
      unversioned (Some e) = unversioned (Some f)"
  shows "unversioned (Store_GetRaw (bn_store (apply_all xs n)) k) = unversioned (Store_GetRaw (bn_store (apply_all ys m)) k)"
proof -
  have "unversioned (Some f) = unversioned (Some g)" if f: "last_of (snd ` set xs) k f" and g: "last_of (snd ` set xs) k g" for f g
  proof -
    obtain e where e: "e \<in> snd ` set xs" "kv_Key e = k" "unversioned (Some f) = unversioned (Some e)" using f by (auto simp: last_of_def)
    obtain h where h: "h \<in> snd ` set xs" "kv_Key h = k" "unversioned (Some g) = unversioned (Some h)" using g by (auto simp: last_of_def)
    have "\<not> entryWins e g" "\<not> entryWins h f" using f g e(1,2) h(1,2) by (auto simp: last_of_def)
    then have "kv_Timestamp e = kv_Timestamp h \<and> kv_NodeID e = kv_NodeID h"
      using unversioned_stamp [OF e(3)] unversioned_stamp [OF h(3)] by (auto simp: entryWins_iff not_less)
    then show ?thesis using assms(4) e h by metis
  qed
  then show ?thesis
    using apply_all_last [OF assms(2), of xs] apply_all_last [OF assms(3), of ys] assms(1) by (auto simp: last_of_def split: option.splits)
qed

definition demo_kv :: "string \<Rightarrow> int \<Rightarrow> node_id \<Rightarrow> KVEntry" where
  "demo_kv v ts i = \<lparr>kv_Key = ''x'', kv_Value = Some v, kv_VClock = None, kv_Timestamp = ts, kv_NodeID = i, kv_Tombstone = False, kv_Version = 0\<rparr>"

theorem leaderless_convergence_witness:
  "unversioned (Store_GetRaw (bn_store (apply_all [(1, demo_kv ''old'' 5 ''a''), (2, demo_kv ''new'' 5 ''b'')] (pair_node ''a''))) ''x'') =
   unversioned (Store_GetRaw (bn_store (apply_all [(1, demo_kv ''new'' 5 ''b''), (3, demo_kv ''old'' 5 ''a''), (4, demo_kv ''new'' 5 ''b'')] (pair_node ''b''))) ''x'') \<and>
   unversioned (Store_GetRaw (bn_store (apply_all [(1, demo_kv ''old'' 5 ''a''), (2, demo_kv ''new'' 5 ''b'')] (pair_node ''a''))) ''x'') = Some (demo_kv ''new'' 5 ''b'')"
proof -
  let ?xs = "[(1, demo_kv ''old'' 5 ''a''), (2, demo_kv ''new'' 5 ''b'')]" and ?ys = "[(1, demo_kv ''new'' 5 ''b''), (3, demo_kv ''old'' 5 ''a''), (4, demo_kv ''new'' 5 ''b'')]"
  have same: "snd ` set ?xs = snd ` set ?ys" by auto
  have raw: "Store_GetRaw (bn_store (pair_node i)) k = None" for i k by (simp add: pair_node_fields GetRaw_New)
  have "''b'' > ''a''" by code_simp
  then have "unversioned (Store_GetRaw (bn_store (apply_all ?xs (pair_node ''a''))) ''x'') = Some (demo_kv ''new'' 5 ''b'')"
    by (simp add: apply_all_def applyWrite_raw raw entryWins_iff demo_kv_def unversioned_def)
  moreover have "unversioned (Store_GetRaw (bn_store (apply_all ?xs (pair_node ''a''))) ''x'') = unversioned (Store_GetRaw (bn_store (apply_all ?ys (pair_node ''b''))) ''x'')"
    by (rule leaderless_convergence [OF same raw raw]) (simp add: demo_kv_def)
  ultimately show ?thesis by simp
qed

section \<open>Limits\<close>

abbreviation qc3 :: QuorumConfig where
  "qc3 \<equiv> \<lparr>qc_N = 3, qc_W = 2, qc_R = 2\<rparr>"

definition lone_node :: LeaderlessNode where
  "lone_node = LeaderlessNode_SetAllNodes [''a''] (NewLeaderlessNode ''a'' ''k'' qc3)"

lemma place_lone: "place qc3 [''a''] k = [''a'']"
proof -
  note p = place_spec [of "[''a'']" qc3 k, simplified]
  from p obtain x where x: "place qc3 [''a''] k = [x]" by (auto simp: length_Suc_conv)
  then show ?thesis using p by simp
qed

lemma lone_node_fields: "same_conf qc3 [''a''] lone_node" "bn_id lone_node = ''a''" "bn_state lone_node = StateOnline" "ll_consistencyLevel lone_node = CLQuorum"
  "ll_qConfig lone_node = qc3" "ll_sloppy lone_node" "bn_store lone_node = NewStore" "ll_writeAcks lone_node = fmempty"
  by (simp_all add: lone_node_def LeaderlessNode_SetAllNodes_def NewLeaderlessNode_def newBaseNode_def BaseNode.defs LeaderlessNode.defs same_conf_def ring_of_def)

definition lone_write :: "LeaderlessNode \<times> WriteWait \<times> Action list" where
  "lone_write = (case LeaderlessNode_Write 5000000 ''x'' (Some ''v'') lone_node of Inr r \<Rightarrow> r)"

lemma lone_write: "LeaderlessNode_Write 5000000 ''x'' (Some ''v'') lone_node = Inr (fst lone_write, fst (snd lone_write), snd (snd lone_write))"
  by (simp add: lone_write_def LeaderlessNode_Write_def lone_node_fields BaseNode_isPaused_def Let_def split: prod.splits)

lemma lone_write_fields: "ll_consistencyLevel (fst lone_write) = CLQuorum" "ll_qConfig (fst lone_write) = qc3" "bn_id (fst lone_write) = ''a''" "ll_sloppy (fst lone_write)"
  "ww_phase (fst (snd lone_write)) = Collecting"
  by (simp_all add: lone_write_def LeaderlessNode_Write_def coordinate_start_def LeaderlessNode_applyWrite_def BaseNode_HLCNow_def BaseNode_HLCUpdate_def
      lone_node_fields Let_def BaseNode_isPaused_def GetRaw_New split: prod.splits)

lemma lone_write_wait: "ww_acked (fst (snd lone_write)) = fmempty" "ww_self (fst (snd lone_write))" "ww_replicas (fst (snd lone_write)) = [''a'']"
proof -
  have c: "ll_call id (LWrite 5000000 ''x'' (Some ''v'')) lone_node = Some (fst lone_write, Some (ww_seq (fst (snd lone_write)), PWrite (fst (snd lone_write))), snd (snd lone_write))"
    by (simp add: lone_write case_prod_beta)
  show "ww_acked (fst (snd lone_write)) = fmempty" "ww_self (fst (snd lone_write))" "ww_replicas (fst (snd lone_write)) = [''a'']"
    using Write_spec(7-9) [OF c] lone_node_fields(2) replicas_place [OF lone_node_fields(1)] by (simp_all add: place_lone)
qed


text \<open>C28. A digest read loses the value. When the newest answer is a digest written by another node, \<open>fetchFull\<close>
  sends one request, and it has no target; when its timer fires the read repairs nobody
  and returns the digest, without the value, as its result.\<close>

theorem digest_read_returns_no_value:
  assumes "Read_best w n = Inr best" and "needs_fetch w best" and "kv_NodeID best \<noteq> []" and "kv_NodeID best \<noteq> bn_id n"
  shows "case read_next now w n of
           (n1, Some (PFetch w' b q), as) \<Rightarrow> map m_TargetID (sent_of as) = [[]] \<and>
             (case fetch_next later w' b (fetchFull_timeout q n1) of
                (n2, Some (PRepair w2 b2 p), bs) \<Rightarrow> bs = [] \<and> bn_store n2 = bn_store n \<and>
                   (case Read_finish late took w2 b2 n2 of (n3, cs, res) \<Rightarrow> res = Inr best \<and> kv_Value best = None)
              | _ \<Rightarrow> False)
         | _ \<Rightarrow> False"
proof -
  have "\<not> has_value best" and v: "kv_Value best = None" "\<not> kv_Tombstone best" using assms(2) by (simp_all add: needs_fetch_def has_value_def)
  then have "Read_repair now w best m = (m, None, [])" for now m by (simp add: Read_repair_def Let_def)
  then show ?thesis using assms v
    by (simp add: read_next_def fetchFull_start_def Let_def fetch_next_def fetchFull_timeout_def repair_next_def Read_finish_def drop_resps_def msg_of_def)
qed

definition demo_digest :: KVEntry where
  "demo_digest = \<lparr>kv_Key = ''x'', kv_Value = None, kv_VClock = None, kv_Timestamp = 5, kv_NodeID = ''a'', kv_Tombstone = False, kv_Version = 1\<rparr>"

definition demo_read :: ReadWait where
  "demo_read = pair_read\<lparr>rw_digest := True, rw_resps := [\<lparr>rr_senderID = ''a'', rr_entry = Some demo_digest, rr_hash = ''f''\<rparr>]\<rparr>"

theorem digest_read_returns_no_value_witness:
  "case read_next 1 demo_read pair_b of
     (n1, Some (PFetch w' b q), as) \<Rightarrow> map m_TargetID (sent_of as) = [[]] \<and>
       (case fetch_next 2 w' b (fetchFull_timeout q n1) of
          (n2, Some (PRepair w2 b2 p), bs) \<Rightarrow> bs = [] \<and> bn_store n2 = bn_store pair_b \<and>
             (case Read_finish 3 0 w2 b2 n2 of (n3, cs, res) \<Rightarrow> res = Inr demo_digest \<and> kv_Value demo_digest = None)
        | _ \<Rightarrow> False)
   | _ \<Rightarrow> False"
  by (rule digest_read_returns_no_value)
    (simp_all add: demo_read_def demo_digest_def pair_read_def Read_best_def responses_def newest_def needs_fetch_def pair_node_fields List.map_filter_simps)

text \<open>The hints a node holds for a target.\<close>

definition hints_for :: "node_id \<Rightarrow> LeaderlessNode \<Rightarrow> KVEntry list" where
  "hints_for t n = (case fmlookup (ll_hints n) t of None \<Rightarrow> [] | Some es \<Rightarrow> es)"

definition handoff_msg :: "node_id \<Rightarrow> node_id \<Rightarrow> KVEntry \<Rightarrow> Message" where
  "handoff_msg i t e = (msg_of MsgHintedHandoff i t)\<lparr>m_Entry := Some e, m_OriginalTarget := t\<rparr>"

lemma deliver_to_hints: "hints_for t (fst (deliver_to now t' es x)) = (if t = t' \<and> es \<noteq> [] then [] else hints_for t (fst x))"
  "bn_id (fst (deliver_to now t' es x)) = bn_id (fst x)"
  "sent_of (snd (deliver_to now t' es x)) = sent_of (snd x) @ map (handoff_msg (bn_id (fst x)) t') es"
  by (cases x, simp add: deliver_to_def hints_for_def handoff_msg_def BaseNode_publishEvent_def)+

lemma deliver_fold_hints:
  "hints_for t (fst (fold (\<lambda>(t, es). deliver_to now t es) xs x)) = (if \<exists>es. es \<noteq> [] \<and> (t, es) \<in> set xs then [] else hints_for t (fst x))"
  by (induction xs arbitrary: x) (auto simp: deliver_to_hints)

lemma deliver_fold_sent:
  "sent_of (snd (fold (\<lambda>(t, es). deliver_to now t es) xs x)) = sent_of (snd x) @ concat (map (\<lambda>(t, es). map (handoff_msg (bn_id (fst x)) t) es) xs)"
  by (induction xs arbitrary: x) (auto simp: deliver_to_hints)

lemma filter_handoff: "filter (\<lambda>m. m_TargetID m = t) (map (handoff_msg i t') es) = (if t = t' then map (handoff_msg i t') es else [])"
  by (induction es) (auto simp: handoff_msg_def msg_of_def)

lemma filter_concat_handoff:
  assumes "distinct (map fst xs)"
  shows "filter (\<lambda>m. m_TargetID m = t) (concat (map (\<lambda>(t, es). map (handoff_msg i t) es) xs)) =
    map (handoff_msg i t) (case map_of xs t of None \<Rightarrow> [] | Some es \<Rightarrow> es)"
  using assms
proof (induction xs)
  case (Cons x xs)
  then have "map_of xs (fst x) = None" by (simp add: map_of_eq_None_iff)
  with Cons show ?case by (cases x) (auto simp: filter_handoff)
qed simp

lemma map_of_sorted_list_of_fmap: "map_of (sorted_list_of_fmap m) = fmlookup m"
proof
  show "map_of (sorted_list_of_fmap m) k = fmlookup m k" for k
    using map_of_eq_Some_iff [OF distinct_sorted_list_of_fmap, of m k] by (cases "fmlookup m k"; cases "map_of (sorted_list_of_fmap m) k") auto
qed

text \<open>C29. A round of hinted handoff sends every hint once, in the order in which the hints of a target were
  taken, and keeps none, without waiting for an acknowledgement; and a target that is paused handles the message by
  ignoring it. So a hint for a node that is still down when the round runs is lost.\<close>

theorem handoff_sends_and_forgets:
  assumes "BaseNode_isPaused down"
  shows "case LeaderlessNode_deliverHints now n of
           (n', as) \<Rightarrow> hints_for t n' = [] \<and> filter (\<lambda>m. m_TargetID m = t) (sent_of as) = map (handoff_msg (bn_id n) t) (hints_for t n) \<and>
             LeaderlessNode_HandleMessage later (handoff_msg (bn_id n) t e) down = (down, [])"
proof -
  let ?r = "LeaderlessNode_deliverHints now n"
  have "hints_for t (fst ?r) = []"
    unfolding LeaderlessNode_deliverHints_def go_range_def deliver_fold_hints by (auto simp: hints_for_def split: option.splits)
  moreover have "filter (\<lambda>m. m_TargetID m = t) (sent_of (snd ?r)) = map (handoff_msg (bn_id n) t) (hints_for t n)"
    by (simp add: LeaderlessNode_deliverHints_def go_range_def deliver_fold_sent filter_concat_handoff map_of_sorted_list_of_fmap hints_for_def)
  moreover have "LeaderlessNode_HandleMessage later (handoff_msg (bn_id n) t e) down = (down, [])"
    using assms by (simp add: LeaderlessNode_HandleMessage_def)
  ultimately show ?thesis by (simp add: case_prod_beta)
qed

theorem handoff_sends_and_forgets_witness:
  "case LeaderlessNode_deliverHints 9 (add_hint ''b'' demo_digest (pair_node ''a'')) of
     (n', as) \<Rightarrow> hints_for ''b'' n' = [] \<and>
       filter (\<lambda>m. m_TargetID m = ''b'') (sent_of as) = map (handoff_msg (bn_id (add_hint ''b'' demo_digest (pair_node ''a''))) ''b'') (hints_for ''b'' (add_hint ''b'' demo_digest (pair_node ''a''))) \<and>
       LeaderlessNode_HandleMessage 9 (handoff_msg (bn_id (add_hint ''b'' demo_digest (pair_node ''a''))) ''b'' demo_digest) ((pair_node ''b'')\<lparr>bn_state := StatePaused\<rparr>) =
         ((pair_node ''b'')\<lparr>bn_state := StatePaused\<rparr>, [])"
  by (rule handoff_sends_and_forgets) (simp add: BaseNode_isPaused_def)

end
