(* ===== verification/Spec2Isabelle.thy ===== *)
theory Spec2Isabelle
  imports Store ReplLog HLC Quorum Consistency Conflict HashRing MVCC TwoPC WAL PaxosLog RaftLog Merkle Checker Swim SimClock SingleLeaderCluster MultiLeaderCluster LeaderlessLimits
begin

text \<open>
  A verification development for the replication-strategies simulator.

  The program simulates replicated key-value stores.  Its parts are a storage layer
  (vector clocks, log entries, the store), clocks, a replication log, conflict resolvers and
  CRDTs, quorum arithmetic, a consistent-hash ring, a message fabric, the node
  kinds built on them and a number of self-contained protocol modules.

  \<^item> \<^verbatim>\<open>Go_Prelude\<close>: maps, \<^verbatim>\<open>range\<close> loops, \<^verbatim>\<open>sort.Search\<close>.
  \<^item> \<^verbatim>\<open>VClock\<close>: \<^verbatim>\<open>internal/storage/entry.go\<close>.
\<close>

end
